(* ===== verification/Prelude.thy ===== *)
theory Prelude
  imports
    Complex_Main
    "HOL-Library.Word"
    "HOL-Library.Monad_Syntax"
    "HOL-Library.Sublist"
begin

text \<open>
  The vocabulary shared by every theory of the development.

  \<^item> Machine types: \<open>u8\<close>, \<open>u32\<close> are the C++ types \<^verbatim>\<open>uint8_t\<close>, \<^verbatim>\<open>uint32_t\<close>; a
    \<^verbatim>\<open>std::vector<uint8_t>\<close> is a \<open>u8 list\<close>, a \<^verbatim>\<open>std::string\<close> is a \<open>string\<close>. HOL's
    characters are exactly the 256 bytes, so the two are in bijection.
  \<^item> A \<^verbatim>\<open>size_t\<close> is a \<open>nat\<close>: it only ever counts elements of containers in memory, which are
    far fewer than \<open>2 ^ 63\<close>. Every \<^verbatim>\<open>uint32_t\<close> is kept at its width.
  \<^item> A computation whose C++ counterpart may have undefined behaviour (a read outside a buffer,
    a null dereference) has a result of type \<open>'a option\<close>: \<open>None\<close> is undefined behaviour, and
    the \<open>do\<close> notation of \<open>Option.bind\<close> sequences such computations.
\<close>

unbundle bit_operations_syntax

type_synonym u8 = "8 word"
type_synonym u32 = "32 word"

named_theorems wire_simps \<open>unfolding of the wire format and of reads inside a buffer\<close>
named_theorems parse_defs \<open>the definitions of the parsers\<close>
named_theorems serialize_defs \<open>the definitions of the serializers\<close>

text \<open>The answer of a C++ parser that returns \<^verbatim>\<open>bool\<close> and fills its output parameters.\<close>

datatype 'a parse_result = Rejected | Parsed 'a

section \<open>Strings and bytes\<close>

definition byte_of_char :: "char \<Rightarrow> u8" where
  "byte_of_char c = word_of_nat (of_char c)"

definition char_of_byte :: "u8 \<Rightarrow> char" where
  "char_of_byte b = char_of (unat b)"

abbreviation bytes :: "string \<Rightarrow> u8 list" where
  "bytes s \<equiv> map byte_of_char s"

abbreviation chars :: "u8 list \<Rightarrow> string" where
  "chars bs \<equiv> map char_of_byte bs"

lemma char_of_byte_of_char [simp]: "char_of_byte (byte_of_char c) = c"
proof -
  have "of_char c < (256::nat)" by simp
  then have "unat (word_of_nat (of_char c) :: u8) = of_char c"
    by (simp add: unat_of_nat)
  then show ?thesis by (simp add: byte_of_char_def char_of_byte_def)
qed

lemma byte_of_char_of_byte [simp]: "byte_of_char (char_of_byte b) = b"
proof -
  have "unat b mod 256 = unat b" by (rule mod_less) (use unsigned_less [of b] in simp)
  then show ?thesis by (simp add: byte_of_char_def char_of_byte_def)
qed

lemma char_byte_comp [simp]:
  "char_of_byte \<circ> byte_of_char = id" "byte_of_char \<circ> char_of_byte = id"
  by (simp_all add: fun_eq_iff)

lemma chars_bytes: "chars (bytes s) = s"
  by simp

lemma bytes_chars: "bytes (chars bs) = bs"
  by simp

lemma bytes_inject [simp]: "bytes s = bytes t \<longleftrightarrow> s = t"
  by (metis chars_bytes)

section \<open>Lists\<close>

lemma take_split: "take (m + n) xs = take m xs @ take n (drop m xs)"
  by (simp add: take_add)

lemma take_append_exact: "length xs = n \<Longrightarrow> take n (xs @ ys) = xs"
  by simp

lemma drop_append_exact: "length xs = n \<Longrightarrow> drop n (xs @ ys) = ys"
  by simp

section \<open>Words\<close>

lemma unat_word_of_nat_small [simp]: "n < 2 ^ 32 \<Longrightarrow> unat (word_of_nat n :: u32) = n"
  by (simp add: unat_of_nat)

lemma word_of_nat_unat_u32 [simp]: "word_of_nat (unat (w :: u32)) = w"
  by simp

lemma unat_u32_bound: "unat (w :: u32) < 2 ^ 32"
  by (rule order.strict_trans2 [OF unsigned_less]) simp

lemma unat_u32_add:
  "unat (a + b :: u32) = (if unat a + unat b < 2 ^ 32 then unat a + unat b
     else unat a + unat b - 2 ^ 32)"
  using unat_u32_bound [of a] unat_u32_bound [of b]
  by (auto simp: unat_word_ariths mod_if)

lemma unat_u32_Suc: "Suc (unat (w :: u32)) < 2 ^ 32 \<Longrightarrow> unat (w + 1) = Suc (unat w)"
  by (simp add: unat_u32_add)

lemma not_bit_u8: "8 \<le> n \<Longrightarrow> \<not> bit (b :: u8) n"
  by (auto dest: bit_imp_le_length)

lemma and_255_u32: "(v AND 0xFF :: u32) = take_bit 8 v"
  by (simp add: take_bit_eq_mask mask_eq_exp_minus_1)

end
