(* ===== verification/Protocol.thy ===== *)
theory Protocol
  imports Prelude
begin

text \<open>
  The binary protocol: \<^verbatim>\<open>src/protocol/Protocol.hpp\<close> and \<^verbatim>\<open>src/protocol/Protocol.cpp\<close>. A buffer
  \<^verbatim>\<open>const uint8_t* buf\<close> is the list of the bytes that may be read from the pointer on,
  \<^verbatim>\<open>buf + n\<close> is \<open>drop n buf\<close>, and a read beyond the end of the list is undefined behaviour
  (\<open>None\<close>). A parser takes the buffer and the length \<^verbatim>\<open>len\<close> it was given, as the C++ one does;
  the two need not agree. The output parameters are the value under \<open>Parsed\<close>; every caller
  discards them when the parser returns \<^verbatim>\<open>false\<close> (\<open>Rejected\<close>).
\<close>

section \<open>Constants and enumerations\<close>

definition MAX_PAYLOAD_SIZE :: nat where
  "MAX_PAYLOAD_SIZE = 1024"

definition OFFSET_UNSET :: u32 where
  "OFFSET_UNSET = 0xFFFFFFFF"

definition SHUTDOWN_OFFSET :: u32 where
  "SHUTDOWN_OFFSET = 0xFFFFFFFF"

datatype command_type =
  CREATE | LIST | INFO | CONNECT | PRODUCE | SUBSCRIBE | ACK | DISCONNECT

text \<open>The underlying values of \<^verbatim>\<open>enum class CommandType : uint8_t\<close>.\<close>

fun command_code :: "command_type \<Rightarrow> u8" where
  "command_code CREATE = 1"
| "command_code LIST = 2"
| "command_code INFO = 3"
| "command_code CONNECT = 4"
| "command_code PRODUCE = 5"
| "command_code SUBSCRIBE = 6"
| "command_code ACK = 7"
| "command_code DISCONNECT = 8"

text \<open>
  \<^verbatim>\<open>enum class StatusCode : uint8_t\<close>. A cast from a byte that names no enumerator is allowed in
  C++ and keeps the byte: \<open>UnnamedStatus\<close>.
\<close>

datatype status_code =
  SUCCESS | GENERAL_ERROR | TOPIC_CLIENT_ERR | IPC_ERROR | UnnamedStatus u8

fun status_byte :: "status_code \<Rightarrow> u8" where
  "status_byte SUCCESS = 0"
| "status_byte GENERAL_ERROR = 1"
| "status_byte TOPIC_CLIENT_ERR = 2"
| "status_byte IPC_ERROR = 3"
| "status_byte (UnnamedStatus b) = b"

definition status_of_byte :: "u8 \<Rightarrow> status_code" where
  "status_of_byte b =
     (if b = 0 then SUCCESS else if b = 1 then GENERAL_ERROR
      else if b = 2 then TOPIC_CLIENT_ERR else if b = 3 then IPC_ERROR else UnnamedStatus b)"

definition command_of_byte :: "u8 \<Rightarrow> command_type option" where
  "command_of_byte b =
     (if b = 1 then Some CREATE else if b = 2 then Some LIST else if b = 3 then Some INFO
      else if b = 4 then Some CONNECT else if b = 5 then Some PRODUCE
      else if b = 6 then Some SUBSCRIBE else if b = 7 then Some ACK
      else if b = 8 then Some DISCONNECT else None)"

record management_request_header =
  action :: command_type
  payload_len :: u32

record management_response_header =
  status_code :: status_code
  response_payload_len :: u32

section \<open>Little-endian integers and headers\<close>

definition write_uint32_le :: "u8 list \<Rightarrow> u32 \<Rightarrow> u8 list" where
  "write_uint32_le buf v = buf @
     [ucast (v AND 0xFF), ucast (drop_bit 8 v AND 0xFF),
      ucast (drop_bit 16 v AND 0xFF), ucast (drop_bit 24 v AND 0xFF)]"

fun read_uint32_le :: "u8 list \<Rightarrow> u32 option" where
  "read_uint32_le (b0 # b1 # b2 # b3 # _) =
     Some (ucast b0 OR push_bit 8 (ucast b1) OR push_bit 16 (ucast b2) OR push_bit 24 (ucast b3))"
| "read_uint32_le _ = None"

text \<open>\<^verbatim>\<open>out.assign(reinterpret_cast<const char*>(buf), n)\<close>.\<close>

definition assign_string :: "u8 list \<Rightarrow> nat \<Rightarrow> string option" where
  "assign_string buf n = (if n \<le> length buf then Some (chars (take n buf)) else None)"

definition parse_request_header ::
    "u8 list \<Rightarrow> management_request_header parse_result option" where
  "parse_request_header buf =
     (case buf of [] \<Rightarrow> None | b0 # _ \<Rightarrow>
        if b0 > 8 \<or> b0 = 0 then Some Rejected
        else do {
          n \<leftarrow> read_uint32_le (drop 1 buf);
          a \<leftarrow> command_of_byte b0;
          Some (Parsed \<lparr>action = a, payload_len = n\<rparr>) })"

definition parse_response_header ::
    "u8 list \<Rightarrow> management_response_header parse_result option" where
  "parse_response_header buf =
     (case buf of [] \<Rightarrow> None | b0 # _ \<Rightarrow>
        if b0 > 3 then Some Rejected
        else do {
          n \<leftarrow> read_uint32_le (drop 1 buf);
          Some (Parsed \<lparr>status_code = status_of_byte b0, response_payload_len = n\<rparr>) })"

section \<open>Requests: serializers\<close>

definition serialize_create :: "u32 \<Rightarrow> string \<Rightarrow> u8 list" where [serialize_defs]:
  "serialize_create pid topic =
     (let payload_len = word_of_nat (4 + length topic);
          buf = [command_code CREATE];
          buf = write_uint32_le buf payload_len;
          buf = write_uint32_le buf pid
      in buf @ bytes topic)"

definition serialize_list :: "u32 \<Rightarrow> u8 list" where [serialize_defs]:
  "serialize_list pid =
     (let buf = [command_code LIST];
          buf = write_uint32_le buf 4
      in write_uint32_le buf pid)"

definition serialize_info :: "u32 \<Rightarrow> string \<Rightarrow> u8 list" where [serialize_defs]:
  "serialize_info pid client_id =
     (let payload_len = word_of_nat (4 + length client_id);
          buf = [command_code INFO];
          buf = write_uint32_le buf payload_len;
          buf = write_uint32_le buf pid
      in buf @ bytes client_id)"

definition serialize_connect :: "u32 \<Rightarrow> string \<Rightarrow> u8 list" where [serialize_defs]:
  "serialize_connect pid topic =
     (let payload_len = word_of_nat (4 + length topic);
          buf = [command_code CONNECT];
          buf = write_uint32_le buf payload_len;
          buf = write_uint32_le buf pid
      in buf @ bytes topic)"

definition serialize_produce :: "string \<Rightarrow> string \<Rightarrow> string \<Rightarrow> u8 list" where [serialize_defs]:
  "serialize_produce topic key val =
     (let payload_len = word_of_nat (12 + length topic + length key + length val);
          buf = [command_code PRODUCE];
          buf = write_uint32_le buf payload_len;
          buf = write_uint32_le buf (word_of_nat (length topic)) @ bytes topic;
          buf = write_uint32_le buf (word_of_nat (length key)) @ bytes key
      in write_uint32_le buf (word_of_nat (length val)) @ bytes val)"

definition serialize_subscribe ::
    "u32 \<Rightarrow> string \<Rightarrow> string \<Rightarrow> string \<Rightarrow> u32 \<Rightarrow> u8 list" where [serialize_defs]:
  "serialize_subscribe pid client_id topic prfx offset =
     (let payload_len = word_of_nat (20 + length client_id + length topic + length prfx);
          buf = [command_code SUBSCRIBE];
          buf = write_uint32_le buf payload_len;
          buf = write_uint32_le buf pid;
          buf = write_uint32_le buf (word_of_nat (length client_id)) @ bytes client_id;
          buf = write_uint32_le buf (word_of_nat (length topic)) @ bytes topic;
          buf = write_uint32_le buf (word_of_nat (length prfx)) @ bytes prfx
      in write_uint32_le buf offset)"

definition serialize_ack :: "string \<Rightarrow> u32 \<Rightarrow> u8 list" where [serialize_defs]:
  "serialize_ack client_id next_offset =
     (let payload_len = word_of_nat (8 + length client_id);
          buf = [command_code ACK];
          buf = write_uint32_le buf payload_len;
          buf = write_uint32_le buf (word_of_nat (length client_id)) @ bytes client_id
      in write_uint32_le buf next_offset)"

definition serialize_disconnect :: "string \<Rightarrow> u8 list" where [serialize_defs]:
  "serialize_disconnect client_id =
     (let payload_len = word_of_nat (4 + length client_id);
          buf = [command_code DISCONNECT];
          buf = write_uint32_le buf payload_len
      in write_uint32_le buf (word_of_nat (length client_id)) @ bytes client_id)"

section \<open>Requests: parsers\<close>

definition parse_create :: "u8 list \<Rightarrow> nat \<Rightarrow> (u32 \<times> string) parse_result option" where
  [parse_defs]:
  "parse_create buf len =
     (if len < 4 then Some Rejected
      else do {
        pid \<leftarrow> read_uint32_le buf;
        topic \<leftarrow> assign_string (drop 4 buf) (len - 4);
        Some (Parsed (pid, topic)) })"

definition parse_list :: "u8 list \<Rightarrow> nat \<Rightarrow> u32 parse_result option" where [parse_defs]:
  "parse_list buf len =
     (if len \<noteq> 4 then Some Rejected
      else do { pid \<leftarrow> read_uint32_le buf; Some (Parsed pid) })"

definition parse_info :: "u8 list \<Rightarrow> nat \<Rightarrow> (u32 \<times> string) parse_result option" where
  [parse_defs]:
  "parse_info buf len =
     (if len < 4 then Some Rejected
      else do {
        pid \<leftarrow> read_uint32_le buf;
        client_id \<leftarrow> assign_string (drop 4 buf) (len - 4);
        Some (Parsed (pid, client_id)) })"

definition parse_connect :: "u8 list \<Rightarrow> nat \<Rightarrow> (u32 \<times> string) parse_result option" where
  [parse_defs]:
  "parse_connect buf len =
     (if len < 4 then Some Rejected
      else do {
        pid \<leftarrow> read_uint32_le buf;
        topic \<leftarrow> assign_string (drop 4 buf) (len - 4);
        Some (Parsed (pid, topic)) })"

text \<open>
  The parsers with several fields move an \<^verbatim>\<open>offset\<close> through the buffer and repeat two blocks: read
  a 32-bit integer if four bytes are left, and read a string of a given length if that many bytes
  are left. \<open>get_uint32\<close> and \<open>get_string\<close> are these blocks; the rest of the parser is the
  continuation. The final test of \<^verbatim>\<open>parse_produce\<close> adds the two 32-bit lengths with wrap-around.
\<close>

definition get_uint32 ::
    "u8 list \<Rightarrow> nat \<Rightarrow> nat \<Rightarrow> (u32 \<Rightarrow> nat \<Rightarrow> 'a parse_result option) \<Rightarrow> 'a parse_result option"
where
  "get_uint32 buf len offset k =
     (if offset + 4 > len then Some Rejected
      else do { v \<leftarrow> read_uint32_le (drop offset buf); k v (offset + 4) })"

definition get_string ::
    "u8 list \<Rightarrow> nat \<Rightarrow> nat \<Rightarrow> u32 \<Rightarrow> (string \<Rightarrow> nat \<Rightarrow> 'a parse_result option)
       \<Rightarrow> 'a parse_result option"
where
  "get_string buf len offset n k =
     (if offset + unat n > len then Some Rejected
      else do { s \<leftarrow> assign_string (drop offset buf) (unat n); k s (offset + unat n) })"

definition parse_produce ::
    "u8 list \<Rightarrow> nat \<Rightarrow> (string \<times> string \<times> string) parse_result option" where [parse_defs]:
  "parse_produce buf len =
     get_uint32 buf len 0 (\<lambda>topic_len offset.
     get_string buf len offset topic_len (\<lambda>topic offset.
     get_uint32 buf len offset (\<lambda>key_len offset.
     get_string buf len offset key_len (\<lambda>key offset.
     get_uint32 buf len offset (\<lambda>val_len offset.
     get_string buf len offset val_len (\<lambda>val offset.
       if offset \<noteq> len then Some Rejected
       else if unat (key_len + val_len) > MAX_PAYLOAD_SIZE then Some Rejected
       else Some (Parsed (topic, key, val))))))))"

definition parse_subscribe ::
    "u8 list \<Rightarrow> nat \<Rightarrow> (u32 \<times> string \<times> string \<times> string \<times> u32) parse_result option" where
  [parse_defs]:
  "parse_subscribe buf len =
     get_uint32 buf len 0 (\<lambda>pid offset.
     get_uint32 buf len offset (\<lambda>id_len offset.
     get_string buf len offset id_len (\<lambda>client_id offset.
     get_uint32 buf len offset (\<lambda>topic_len offset.
     get_string buf len offset topic_len (\<lambda>topic offset.
     get_uint32 buf len offset (\<lambda>pref_len offset.
     get_string buf len offset pref_len (\<lambda>prfx offset.
     get_uint32 buf len offset (\<lambda>req_offset offset.
       if offset = len then Some (Parsed (pid, client_id, topic, prfx, req_offset))
       else Some Rejected))))))))"

definition parse_ack :: "u8 list \<Rightarrow> nat \<Rightarrow> (string \<times> u32) parse_result option" where
  [parse_defs]:
  "parse_ack buf len =
     get_uint32 buf len 0 (\<lambda>id_len offset.
     get_string buf len offset id_len (\<lambda>client_id offset.
     get_uint32 buf len offset (\<lambda>next_offset offset.
       if offset = len then Some (Parsed (client_id, next_offset)) else Some Rejected)))"

definition parse_disconnect :: "u8 list \<Rightarrow> nat \<Rightarrow> string parse_result option" where
  [parse_defs]:
  "parse_disconnect buf len =
     get_uint32 buf len 0 (\<lambda>id_len offset.
     get_string buf len offset id_len (\<lambda>client_id offset.
       if offset = len then Some (Parsed client_id) else Some Rejected))"

section \<open>Responses\<close>

definition serialize_response :: "status_code \<Rightarrow> string \<Rightarrow> u8 list" where [serialize_defs]:
  "serialize_response status payload =
     (let payload_len = word_of_nat (length payload);
          buf = [status_byte status];
          buf = write_uint32_le buf payload_len
      in buf @ bytes payload)"

definition serialize_delivery :: "u32 \<Rightarrow> string \<Rightarrow> string \<Rightarrow> u8 list" where [serialize_defs]:
  "serialize_delivery offset key val =
     (let key_len = word_of_nat (length key);
          val_len = word_of_nat (length val);
          buf = write_uint32_le [] offset;
          buf = write_uint32_le buf key_len;
          buf = write_uint32_le buf val_len
      in buf @ bytes key @ bytes val)"

definition serialize_shutdown :: "u8 list" where
  "serialize_shutdown = serialize_delivery 0xFFFFFFFF '''' ''''"

definition parse_response :: "u8 list \<Rightarrow> nat \<Rightarrow> (status_code \<times> string) parse_result option" where
  [parse_defs]:
  "parse_response buf len =
     (if len < 5 then Some Rejected
      else case buf of [] \<Rightarrow> None | b0 # _ \<Rightarrow> do {
        payload_len \<leftarrow> read_uint32_le (drop 1 buf);
        if len - 5 \<noteq> unat payload_len then Some Rejected
        else do {
          payload \<leftarrow> assign_string (drop 5 buf) (unat payload_len);
          Some (Parsed (status_of_byte b0, payload)) } })"

definition parse_delivery :: "u8 list \<Rightarrow> nat \<Rightarrow> (u32 \<times> string \<times> string) parse_result option"
where [parse_defs]:
  "parse_delivery buf len =
     get_uint32 buf len 0 (\<lambda>out_offset cursor.
     get_uint32 buf len cursor (\<lambda>key_len cursor.
     get_uint32 buf len cursor (\<lambda>val_len cursor.
       if out_offset \<noteq> SHUTDOWN_OFFSET \<and> unat (key_len + val_len) > MAX_PAYLOAD_SIZE
       then Some Rejected
       else
         get_string buf len cursor key_len (\<lambda>key cursor.
         get_string buf len cursor val_len (\<lambda>val cursor.
           if cursor = len then Some (Parsed (out_offset, key, val)) else Some Rejected)))))"

definition is_shutdown :: "u32 \<Rightarrow> bool" where
  "is_shutdown offset \<longleftrightarrow> offset = SHUTDOWN_OFFSET"

section \<open>The wire format\<close>

text \<open>The four bytes that \<^const>\<open>write_uint32_le\<close> appends.\<close>

definition u32le :: "u32 \<Rightarrow> u8 list" where
  "u32le v =
     [ucast (v AND 0xFF), ucast (drop_bit 8 v AND 0xFF),
      ucast (drop_bit 16 v AND 0xFF), ucast (drop_bit 24 v AND 0xFF)]"

lemma write_uint32_le_eq [wire_simps]: "write_uint32_le buf v = buf @ u32le v"
  by (simp add: write_uint32_le_def u32le_def)

lemma length_u32le [simp]: "length (u32le v) = 4"
  by (simp add: u32le_def)

lemma little_endian_decode:
  "(ucast (ucast (v AND 0xFF) :: u8) OR push_bit 8 (ucast (ucast (drop_bit 8 v AND 0xFF) :: u8))
     OR push_bit 16 (ucast (ucast (drop_bit 16 v AND 0xFF) :: u8))
     OR push_bit 24 (ucast (ucast (drop_bit 24 v AND 0xFF) :: u8))) = (v :: u32)"
  (is "?w = v")
proof (rule bit_word_eqI)
  fix n assume "n < LENGTH(32)"
  then show "bit ?w n = bit v n"
    unfolding and_255_u32
    by (cases "n < 8"; cases "n < 16"; cases "n < 24") (auto simp: bit_simps)
qed

lemma little_endian_encode:
  fixes b0 b1 b2 b3 :: u8
  defines "v \<equiv> ucast b0 OR push_bit 8 (ucast b1) OR push_bit 16 (ucast b2)
                 OR push_bit 24 (ucast b3) :: u32"
  shows "ucast (v AND 0xFF) = b0" and "ucast (drop_bit 8 v AND 0xFF) = b1"
    and "ucast (drop_bit 16 v AND 0xFF) = b2" and "ucast (drop_bit 24 v AND 0xFF) = b3"
  unfolding v_def and_255_u32
  by (rule bit_word_eqI; auto simp: bit_simps not_bit_u8)+

lemma read_u32le [simp]: "read_uint32_le (u32le v @ rest) = Some v"
  by (simp add: u32le_def little_endian_decode)

lemma read_uint32_le_None [simp]: "read_uint32_le bs = None \<longleftrightarrow> length bs < 4"
  by (cases bs rule: read_uint32_le.cases) auto

lemma read_uint32_le_SomeD:
  assumes "read_uint32_le bs = Some v"
  shows "take 4 bs = u32le v" and "4 \<le> length bs"
proof -
  from assms obtain b0 b1 b2 b3 rest where bs: "bs = b0 # b1 # b2 # b3 # rest"
    by (cases bs rule: read_uint32_le.cases) auto
  with assms have "v = ucast b0 OR push_bit 8 (ucast b1) OR push_bit 16 (ucast b2)
      OR push_bit 24 (ucast b3)"
    by simp
  then have "u32le v = [b0, b1, b2, b3]"
    by (simp only: u32le_def little_endian_encode)
  with bs show "take 4 bs = u32le v" by simp
  from bs show "4 \<le> length bs" by simp
qed

lemma u32le_inject [simp]: "u32le v = u32le w \<longleftrightarrow> v = w"
  by (metis append_Nil2 option.inject read_u32le)

lemma assign_string_bytes [simp]: "assign_string (bytes s @ rest) (length s) = Some s"
  by (simp add: assign_string_def)

lemma assign_string_bytes_end [simp]: "assign_string (bytes s) (length s) = Some s"
  by (simp add: assign_string_def)

lemma assign_string_None [simp]: "assign_string bs n = None \<longleftrightarrow> length bs < n"
  by (auto simp: assign_string_def)

lemma assign_string_SomeD:
  "assign_string bs n = Some s \<Longrightarrow> take n bs = bytes s \<and> length s = n"
  by (auto simp: assign_string_def min_def split: if_splits)

text \<open>The two blocks of the parsers: they stay inside the buffer, and what they accept is there.\<close>

lemma get_uint32_defined:
  assumes "len \<le> length buf" and "\<And>v. offset + 4 \<le> len \<Longrightarrow> \<exists>r. k v (offset + 4) = Some r"
  shows "\<exists>r. get_uint32 buf len offset k = Some r"
proof (cases "offset + 4 \<le> len")
  case True
  with assms(1) have "\<not> length (drop offset buf) < 4" by simp
  then obtain v where "read_uint32_le (drop offset buf) = Some v"
    by (metis not_None_eq read_uint32_le_None)
  with assms(2) True show ?thesis by (auto simp: get_uint32_def)
qed (simp add: get_uint32_def)

lemma get_string_defined:
  assumes "len \<le> length buf" and "\<And>s. offset + unat n \<le> len \<Longrightarrow> \<exists>r. k s (offset + unat n) = Some r"
  shows "\<exists>r. get_string buf len offset n k = Some r"
proof (cases "offset + unat n \<le> len")
  case True
  with assms(1) have "\<not> length (drop offset buf) < unat n" by simp
  then obtain s where "assign_string (drop offset buf) (unat n) = Some s"
    by (metis not_None_eq assign_string_None)
  with assms(2) True show ?thesis by (auto simp: get_string_def)
qed (simp add: get_string_def)

lemma get_uint32E:
  assumes "get_uint32 buf len offset k = Some (Parsed x)"
  obtains v where "offset + 4 \<le> len" and "take 4 (drop offset buf) = u32le v"
    and "k v (offset + 4) = Some (Parsed x)"
  using assms
  by (auto simp: get_uint32_def bind_eq_Some_conv split: if_splits dest: read_uint32_le_SomeD)

lemma get_stringE:
  assumes "get_string buf len offset n k = Some (Parsed x)"
  obtains s where "offset + unat n \<le> len" and "take (unat n) (drop offset buf) = bytes s"
    and "length s = unat n" and "k s (offset + unat n) = Some (Parsed x)"
  using assms
  by (auto simp: get_string_def bind_eq_Some_conv split: if_splits dest: assign_string_SomeD)

lemmas parse_definedI = get_uint32_defined get_string_defined
lemmas parseE = get_uint32E get_stringE

lemma status_of_status_byte [simp]: "status_byte (status_of_byte b) = b"
  by (simp add: status_of_byte_def)

end
