(* ===== verification/Posix.thy ===== *)
theory Posix
  imports Prelude
begin

text \<open>
  The operating system as the program sees it. A system call appends an event to the log of calls
  made so far; what it answers is a parameter of the model, the record \<open>os\<close>, whose functions may
  depend on the whole history. The calls modelled are the ones of the server and of
  \<^verbatim>\<open>src/ipc/ipc.cpp\<close> that create, open, write and close FIFOs. \<open>-1\<close> is the error result, as in C.
\<close>

datatype io_event =
    Open_wr string int              \<comment> \<open>\<^verbatim>\<open>open(path, O_WRONLY)\<close>, result\<close>
  | Open_wr_nb string int           \<comment> \<open>\<^verbatim>\<open>open(path, O_WRONLY | O_NONBLOCK)\<close>, result\<close>
  | Write int "u8 list" int         \<comment> \<open>\<^verbatim>\<open>write(fd, data, size)\<close>, result\<close>
  | Close int                       \<comment> \<open>\<^verbatim>\<open>close(fd)\<close>\<close>
  | Unlink string                   \<comment> \<open>\<^verbatim>\<open>unlink(path)\<close>\<close>
  | Mkfifo string int               \<comment> \<open>\<^verbatim>\<open>mkfifo(path, 0666)\<close>, result\<close>
  | Open_rdwr string int            \<comment> \<open>\<^verbatim>\<open>open(path, O_RDWR)\<close>, result\<close>
  | Open_rd_nb string int           \<comment> \<open>\<^verbatim>\<open>open(path, O_RDONLY | O_NONBLOCK)\<close>, result\<close>
  | Set_blocking int                \<comment> \<open>\<^verbatim>\<open>fcntl\<close> that clears \<^verbatim>\<open>O_NONBLOCK\<close>\<close>
  | Sleep nat                       \<comment> \<open>\<^verbatim>\<open>sleep_for\<close>, in milliseconds\<close>

type_synonym io_log = "io_event list"

text \<open>The values of \<^verbatim>\<open>errno\<close> that the program tells apart.\<close>

datatype errno = EINTR | ENXIO | ENOENT | Other_error

text \<open>
  \<open>os_returns\<close> tells whether a call that may block comes back: given the calls so far and the event that
  the call is to append. It matters for \<^verbatim>\<open>open(path, O_WRONLY)\<close>, which blocks as long as the FIFO has no
  reader, and for a \<^verbatim>\<open>write\<close> to a FIFO that is full. A definition whose result is a log describes the calls
  under the proviso that they come back; \<open>Threads\<close> takes the proviso into account.
\<close>

text \<open>\<open>os_errno\<close> and \<open>os_clock\<close> are \<^verbatim>\<open>errno\<close> and the steady clock (in milliseconds) after the calls so far.\<close>

text \<open>The signals that the client handles. \<open>os_sigaction\<close> is the result of installing a handler, which touches no descriptor.\<close>

datatype signal = SIGINT | SIGTERM

record os =
  os_open_wr :: "io_log \<Rightarrow> string \<Rightarrow> int"
  os_open_wr_nb :: "io_log \<Rightarrow> string \<Rightarrow> int"
  os_write :: "io_log \<Rightarrow> int \<Rightarrow> u8 list \<Rightarrow> int"
  os_mkfifo :: "io_log \<Rightarrow> string \<Rightarrow> int"
  os_open_rdwr :: "io_log \<Rightarrow> string \<Rightarrow> int"
  os_open_rd_nb :: "io_log \<Rightarrow> string \<Rightarrow> int"
  os_errno :: "io_log \<Rightarrow> errno"
  os_clock :: "io_log \<Rightarrow> nat"
  os_sigaction :: "signal \<Rightarrow> int"
  os_returns :: "io_log \<Rightarrow> io_event \<Rightarrow> bool"

definition sys_open_wr :: "os \<Rightarrow> string \<Rightarrow> io_log \<Rightarrow> int \<times> io_log" where
  "sys_open_wr os path io = (let fd = os_open_wr os io path in (fd, io @ [Open_wr path fd]))"

definition sys_open_wr_nb :: "os \<Rightarrow> string \<Rightarrow> io_log \<Rightarrow> int \<times> io_log" where
  "sys_open_wr_nb os path io =
     (let fd = os_open_wr_nb os io path in (fd, io @ [Open_wr_nb path fd]))"

definition sys_write :: "os \<Rightarrow> int \<Rightarrow> u8 list \<Rightarrow> io_log \<Rightarrow> int \<times> io_log" where
  "sys_write os fd buf io = (let ret = os_write os io fd buf in (ret, io @ [Write fd buf ret]))"

definition sys_close :: "int \<Rightarrow> io_log \<Rightarrow> io_log" where
  "sys_close fd io = io @ [Close fd]"

definition sys_unlink :: "string \<Rightarrow> io_log \<Rightarrow> io_log" where
  "sys_unlink path io = io @ [Unlink path]"

definition sys_mkfifo :: "os \<Rightarrow> string \<Rightarrow> io_log \<Rightarrow> int \<times> io_log" where
  "sys_mkfifo os path io = (let ret = os_mkfifo os io path in (ret, io @ [Mkfifo path ret]))"

definition sys_open_rdwr :: "os \<Rightarrow> string \<Rightarrow> io_log \<Rightarrow> int \<times> io_log" where
  "sys_open_rdwr os path io = (let fd = os_open_rdwr os io path in (fd, io @ [Open_rdwr path fd]))"

definition sys_open_rd_nb :: "os \<Rightarrow> string \<Rightarrow> io_log \<Rightarrow> int \<times> io_log" where
  "sys_open_rd_nb os path io = (let fd = os_open_rd_nb os io path in (fd, io @ [Open_rd_nb path fd]))"

definition sys_set_blocking :: "int \<Rightarrow> io_log \<Rightarrow> io_log" where
  "sys_set_blocking fd io = io @ [Set_blocking fd]"

definition sys_sleep :: "nat \<Rightarrow> io_log \<Rightarrow> io_log" where
  "sys_sleep ms io = io @ [Sleep ms]"

text \<open>\<^verbatim>\<open>ipc::is_reader_active\<close>: a FIFO can be opened for writing iff somebody reads it.\<close>

definition is_reader_active :: "os \<Rightarrow> string \<Rightarrow> io_log \<Rightarrow> bool \<times> io_log" where
  "is_reader_active os path io =
     (let (fd, io) = sys_open_wr_nb os path io
      in if fd \<ge> 0 then (True, sys_close fd io) else (False, io))"

text \<open>\<^verbatim>\<open>std::to_string\<close> and \<^verbatim>\<open>operator<<\<close> of an unsigned integer.\<close>

definition digit_char :: "nat \<Rightarrow> char" where
  "digit_char d = char_of (48 + d)"

fun decimal :: "nat \<Rightarrow> string" where
  "decimal n = (if n < 10 then [digit_char n] else decimal (n div 10) @ [digit_char (n mod 10)])"

declare decimal.simps [simp del]

definition to_string :: "u32 \<Rightarrow> string" where
  "to_string w = decimal (unat w)"

text \<open>The path of a client's FIFO, built both by the server and by the client.\<close>

definition client_fifo_path :: "u32 \<Rightarrow> string" where
  "client_fifo_path client_pid = ''/tmp/treenity.client.'' @ to_string client_pid"

text \<open>
  \<^verbatim>\<open>std::isalnum\<close> and \<^verbatim>\<open>std::isdigit\<close> in the C locale, which the program never changes, and the
  check of names that the server (\<^verbatim>\<open>is_valid_identifier\<close>) and the client (\<^verbatim>\<open>is_valid_name\<close>) share.
\<close>

definition is_digit :: "char \<Rightarrow> bool" where
  "is_digit c \<longleftrightarrow> (48 :: nat) \<le> of_char c \<and> of_char c \<le> (57 :: nat)"

definition is_alnum :: "char \<Rightarrow> bool" where
  "is_alnum c \<longleftrightarrow> is_digit c \<or> (65 :: nat) \<le> of_char c \<and> of_char c \<le> (90 :: nat)
     \<or> (97 :: nat) \<le> of_char c \<and> of_char c \<le> (122 :: nat)"

section \<open>Calls that write nothing\<close>

fun is_write :: "io_event \<Rightarrow> bool" where
  "is_write (Write fd buf ret) = True"
| "is_write _ = False"

definition quiet :: "io_log \<Rightarrow> io_log \<Rightarrow> bool" where
  "quiet io io' \<longleftrightarrow> (\<exists>events. io' = io @ events \<and> \<not> list_ex is_write events)"

lemma quiet_refl [simp, intro]: "quiet io io"
  by (simp add: quiet_def)

lemma quiet_trans [trans]: "quiet io io1 \<Longrightarrow> quiet io1 io2 \<Longrightarrow> quiet io io2"
  by (auto simp: quiet_def)

lemma quiet_calls [simp]:
  "quiet io (sys_close fd io)" "quiet io (snd (sys_open_wr_nb os path io))" "quiet io (snd (is_reader_active os path io))"
  by (auto simp: quiet_def sys_close_def sys_open_wr_nb_def is_reader_active_def Let_def)

lemma is_reader_active_quiet: "is_reader_active os path io = (b, io') \<Longrightarrow> quiet io io'"
  using quiet_calls(3) [of io os path] by (simp del: quiet_calls)

section \<open>Calls that block\<close>

text \<open>
  The calls that may block: opening a FIFO for writing, and writing to it with the descriptor in blocking
  mode. \<open>calls_return\<close> says that a list of calls, made one after the other, comes to its end.
\<close>

fun may_block :: "io_event \<Rightarrow> bool" where
  "may_block (Open_wr path fd) = True"
| "may_block (Write fd buf ret) = True"
| "may_block _ = False"

fun calls_return :: "os \<Rightarrow> io_log \<Rightarrow> io_log \<Rightarrow> bool" where
  "calls_return os io [] = True"
| "calls_return os io (e # es) = ((may_block e \<longrightarrow> os_returns os io e) \<and> calls_return os (io @ [e]) es)"

text \<open>The calls by which \<open>io'\<close> extends \<open>io\<close>.\<close>

definition comes_back :: "os \<Rightarrow> io_log \<Rightarrow> io_log \<Rightarrow> bool" where
  "comes_back os io io' = calls_return os io (drop (length io) io')"

text \<open>Every client opens its FIFO for reading and reads the answers: no call to it blocks for ever.\<close>

definition clients_read :: "os \<Rightarrow> bool" where
  "clients_read os \<longleftrightarrow> (\<forall>io e. may_block e \<longrightarrow> os_returns os io e)"

lemma clients_read_return: "clients_read os \<Longrightarrow> calls_return os io es"
  by (induction es arbitrary: io) (simp_all add: clients_read_def)

lemma clients_read_comes_back: "clients_read os \<Longrightarrow> comes_back os io io'"
  by (simp add: comes_back_def clients_read_return)

lemma comes_back_refl [simp]: "comes_back os io io"
  by (simp add: comes_back_def)

lemma calls_return_append:
  "calls_return os io (es @ es') \<longleftrightarrow> calls_return os io es \<and> calls_return os (io @ es) es'"
  by (induction es arbitrary: io) auto

section \<open>Decimal numerals\<close>

lemma digit_char_code [simp]: "d < 10 \<Longrightarrow> of_char (digit_char d) = (48 + d :: nat)"
  by (simp add: digit_char_def)

lemma is_digit_digit_char: "d < 10 \<Longrightarrow> is_digit (digit_char d)"
  by (simp add: is_digit_def)

lemma decimal_not_empty: "decimal n \<noteq> []"
  by (subst decimal.simps) simp

lemma decimal_digits: "c \<in> set (decimal n) \<Longrightarrow> is_digit c"
proof (induction n rule: decimal.induct)
  case (1 n)
  then show ?case
    by (cases "n < 10") (auto simp: decimal.simps [of n] is_digit_digit_char)
qed

text \<open>The number a string of digits stands for.\<close>

definition number_of :: "string \<Rightarrow> nat" where
  "number_of s = foldl (\<lambda>n c. n * 10 + (of_char c - 48)) 0 s"

lemma number_of_decimal [simp]: "number_of (decimal n) = n"
proof (induction n rule: decimal.induct)
  case (1 n)
  then show ?case
    by (cases "n < 10") (simp_all add: decimal.simps [of n] number_of_def)
qed

lemma decimal_inject [simp]: "decimal m = decimal n \<longleftrightarrow> m = n"
  by (metis number_of_decimal)

lemma client_fifo_path_inject [simp]: "client_fifo_path p = client_fifo_path q \<longleftrightarrow> p = q"
  by (auto simp: client_fifo_path_def to_string_def dest: arg_cong [where f = "word_of_nat :: nat \<Rightarrow> u32"])

section \<open>A sample system\<close>

text \<open>Every call succeeds; the concrete instances of the properties run on it.\<close>

definition sample_os :: os where
  "sample_os = \<lparr>os_open_wr = (\<lambda>_ _. 3), os_open_wr_nb = (\<lambda>_ _. 4), os_write = (\<lambda>_ _ buf. int (length buf)),
     os_mkfifo = (\<lambda>_ _. 0), os_open_rdwr = (\<lambda>_ _. 5), os_open_rd_nb = (\<lambda>_ _. 6),
     os_errno = (\<lambda>_. Other_error), os_clock = (\<lambda>io. 20 * length io),
     os_sigaction = (\<lambda>_. 0), os_returns = (\<lambda>_ _. True)\<rparr>"

lemma sample_clients_read: "clients_read sample_os"
  by (simp add: clients_read_def sample_os_def)

end
