(* ===== verification/Client_Command.thy ===== *)
theory Client_Command
  imports Protocol Posix
begin

text \<open>
  The client's command line and exit codes: \<^verbatim>\<open>src/client/inc/command.hpp\<close>, \<^verbatim>\<open>src/client/src/command.cpp\<close>,
  \<^verbatim>\<open>src/client/inc/exit_status.hpp\<close> and \<^verbatim>\<open>src/client/src/exit_status.cpp\<close>. The vector of arguments is a list of
  strings, \<^verbatim>\<open>argc\<close> its length. A \<^verbatim>\<open>ParseResult\<close> is a sum: \<open>Inl\<close> the error, \<open>Inr\<close> the command.
\<close>

section \<open>Commands\<close>

record command =
  cmd_type :: command_type
  cmd_ipc_identifier :: string
  cmd_topic :: string
  cmd_subscriber :: string
  cmd_prefix :: string
  cmd_offset :: u32
  cmd_has_offset :: bool
  cmd_raw :: bool

definition make_empty_command :: command where
  "make_empty_command =
     \<lparr>cmd_type = CREATE, cmd_ipc_identifier = '''', cmd_topic = '''', cmd_subscriber = '''',
      cmd_prefix = '''', cmd_offset = 0, cmd_has_offset = False, cmd_raw = False\<rparr>"

definition is_valid_name :: "string \<Rightarrow> bool" where
  "is_valid_name val =
     (if val = [] \<or> length val > 32 then False
      else \<not> list_ex (\<lambda>c. \<not> is_alnum c \<and> c \<noteq> CHR ''_'' \<and> c \<noteq> CHR ''.'' \<and> c \<noteq> CHR ''-'') val)"

text \<open>The number is accumulated in 64 bits and tested against the largest 32-bit value each time.\<close>

fun parse_digits :: "64 word \<Rightarrow> string \<Rightarrow> 64 word option" where
  "parse_digits number [] = Some number"
| "parse_digits number (c # cs) =
     (if \<not> is_digit c then None
      else let number = number * 10 + word_of_nat (of_char c - 48)
           in if number > 0xFFFFFFFF then None else parse_digits number cs)"

definition parse_offset :: "string \<Rightarrow> u32 option" where
  "parse_offset val = (if val = [] then None else map_option ucast (parse_digits 0 val))"

section \<open>The parser\<close>

type_synonym parse_outcome = "string + command"

definition make_failure :: "string \<Rightarrow> parse_outcome" where
  [simp]: "make_failure error = Inl error"

definition make_success :: "command \<Rightarrow> parse_outcome" where
  [simp]: "make_success cmd = Inr cmd"

definition usage_subscribe :: string where
  "usage_subscribe = ''usage: client <ipc_identifier> subscribe <topic_name> <subscriber_name> [--prefix <prefix>] [--offset <offset>] [--raw]''"

definition prefix_error :: string where
  "prefix_error = ''--prefix requires one value and may only be used once''"

definition offset_error :: string where
  "offset_error = ''--offset requires one unsigned 32-bit integer and may only be used once''"

fun parse_options :: "bool \<Rightarrow> bool \<Rightarrow> command \<Rightarrow> string list \<Rightarrow> parse_outcome" where
  "parse_options prefix_seen offset_seen cmd [] = make_success cmd"
| "parse_options prefix_seen offset_seen cmd (option # args) =
     (if option = ''--raw'' then
        (if cmd_raw cmd then make_failure ''duplicate --raw option''
         else parse_options prefix_seen offset_seen (cmd\<lparr>cmd_raw := True\<rparr>) args)
      else if option = ''--prefix'' then
        (if prefix_seen then make_failure prefix_error
         else case args of
           [] \<Rightarrow> make_failure prefix_error
         | val # args \<Rightarrow> parse_options True offset_seen (cmd\<lparr>cmd_prefix := val\<rparr>) args)
      else if option = ''--offset'' then
        (if offset_seen then make_failure offset_error
         else case args of
           [] \<Rightarrow> make_failure offset_error
         | val # args \<Rightarrow>
             (case parse_offset val of
                None \<Rightarrow> make_failure offset_error
              | Some n \<Rightarrow> parse_options prefix_seen True (cmd\<lparr>cmd_offset := n, cmd_has_offset := True\<rparr>) args))
      else make_failure (''unknown subscribe option: '' @ option))"

definition parse_subscribe_command :: "string list \<Rightarrow> command \<Rightarrow> parse_outcome" where
  "parse_subscribe_command argv cmd =
     (if length argv < 5 then make_failure usage_subscribe
      else let cmd = cmd\<lparr>cmd_topic := argv ! 3, cmd_subscriber := argv ! 4\<rparr>
           in if \<not> is_valid_name (cmd_topic cmd) then make_failure ''invalid topic name''
              else if \<not> is_valid_name (cmd_subscriber cmd) then make_failure ''invalid subscriber name''
              else parse_options False False cmd (drop 5 argv))"

definition parse_command :: "string list \<Rightarrow> parse_outcome" where
  "parse_command argv =
     (if length argv < 3 then make_failure ''usage: client <ipc_identifier> <create|list|produce|subscribe|info> ...''
      else let cmd = make_empty_command\<lparr>cmd_ipc_identifier := argv ! 1\<rparr>; operation = argv ! 2
      in if cmd_ipc_identifier cmd = '''' then make_failure ''invalid IPC identifier''
      else if operation = ''create'' then
        (if length argv \<noteq> 4 then make_failure ''usage: client <ipc_identifier> create <topic_name>''
         else let cmd = cmd\<lparr>cmd_type := CREATE, cmd_topic := argv ! 3\<rparr>
              in if \<not> is_valid_name (cmd_topic cmd) then make_failure ''invalid topic name'' else make_success cmd)
      else if operation = ''list'' then
        (if length argv \<noteq> 3 then make_failure ''usage: client <ipc_identifier> list''
         else make_success (cmd\<lparr>cmd_type := LIST\<rparr>))
      else if operation = ''produce'' then
        (if length argv \<noteq> 4 \<and> length argv \<noteq> 5
         then make_failure ''usage: client <ipc_identifier> produce <topic_name> [--raw]''
         else let cmd = cmd\<lparr>cmd_type := CONNECT, cmd_topic := argv ! 3\<rparr>
              in if \<not> is_valid_name (cmd_topic cmd) then make_failure ''invalid topic name''
                 else if length argv = 5
                 then (if argv ! 4 \<noteq> ''--raw'' then make_failure (''unknown produce option: '' @ argv ! 4)
                       else make_success (cmd\<lparr>cmd_raw := True\<rparr>))
                 else make_success cmd)
      else if operation = ''subscribe'' then parse_subscribe_command argv (cmd\<lparr>cmd_type := SUBSCRIBE\<rparr>)
      else if operation = ''info'' then
        (if length argv \<noteq> 4 then make_failure ''usage: client <ipc_identifier> info <subscriber_name>''
         else let cmd = cmd\<lparr>cmd_type := INFO, cmd_subscriber := argv ! 3\<rparr>
              in if \<not> is_valid_name (cmd_subscriber cmd) then make_failure ''invalid subscriber name'' else make_success cmd)
      else make_failure (''unknown command: '' @ operation))"

section \<open>Exit codes\<close>

datatype client_error = No_error | Topic_error | Ipc_error | General_error

definition priority_for :: "client_error \<Rightarrow> int" where
  "priority_for error =
     (if error = General_error then 3 else if error = Ipc_error then 2
      else if error = Topic_error then 1 else 0)"

definition code_for :: "client_error \<Rightarrow> int" where
  "code_for error =
     (if error = General_error then 1 else if error = Ipc_error then 3
      else if error = Topic_error then 2 else 0)"

definition exit_code_for :: "client_error \<Rightarrow> client_error \<Rightarrow> int" where
  "exit_code_for fst_error snd_error =
     (if priority_for snd_error > priority_for fst_error then code_for snd_error else code_for fst_error)"

definition exit_code_from_response_code :: "u8 \<Rightarrow> int" where
  "exit_code_from_response_code response_code =
     (if response_code = 0 then 0 else if response_code = 1 then 1 else if response_code = 2 then 2
      else if response_code = 3 then 3 else 3)"

text \<open>The errors ordered by their priority.\<close>

instantiation client_error :: linorder
begin

definition less_eq_client_error :: "client_error \<Rightarrow> client_error \<Rightarrow> bool" where
  "less_eq_client_error a b \<longleftrightarrow> priority_for a \<le> priority_for b"

definition less_client_error :: "client_error \<Rightarrow> client_error \<Rightarrow> bool" where
  "less_client_error a b \<longleftrightarrow> priority_for a < priority_for b"

instance
proof
  fix a b :: client_error
  show "a \<le> b \<Longrightarrow> b \<le> a \<Longrightarrow> a = b"
    by (cases a; cases b) (simp_all add: less_eq_client_error_def priority_for_def)
qed (auto simp: less_eq_client_error_def less_client_error_def)

end

lemma exit_code_for_max: "exit_code_for a b = code_for (max a b)"
  by (cases a; cases b)
    (simp_all add: exit_code_for_def max_def less_eq_client_error_def priority_for_def code_for_def)

section \<open>Numbers\<close>

lemma number_of_snoc: "number_of (s @ [c]) = number_of s * 10 + (of_char c - 48)"
  by (simp add: number_of_def)

lemma number_of_mono: "number_of s \<le> number_of (s @ t)"
proof (induction t rule: rev_induct)
  case (snoc c t)
  then have "number_of s \<le> number_of (s @ t) * 10 + (of_char c - 48)" by linarith
  then show ?case using number_of_snoc [of "s @ t" c] by simp
qed simp

lemma unat_digit_step:
  fixes w :: "64 word"
  assumes "unat w < 2 ^ 32" and "d < 10"
  shows "unat (w * 10 + word_of_nat d) = unat w * 10 + d"
proof -
  have "unat w * 10 + d < 2 ^ 64" using assms by simp
  then show ?thesis by (simp add: unat_word_ariths unat_of_nat)
qed

lemma parse_digits_correct:
  assumes "unat w = number_of s" and "unat w < 2 ^ 32"
  shows "parse_digits w t = (if list_all is_digit t \<and> number_of (s @ t) < 2 ^ 32
    then Some (word_of_nat (number_of (s @ t))) else None)"
  using assms
proof (induction t arbitrary: w s)
  case Nil
  have "word_of_nat (number_of s) = w" using Nil(1) [symmetric] by simp
  with Nil show ?case by simp
next
  case (Cons c t)
  show ?case
  proof (cases "is_digit c")
    case True
    let ?w = "w * 10 + word_of_nat (of_char c - 48)"
    have "of_char c - 48 < (10 :: nat)" using True by (auto simp: is_digit_def)
    then have w: "unat ?w = number_of (s @ [c])"
      using unat_digit_step [of w "of_char c - 48"] Cons.prems by (simp add: number_of_snoc)
    have big: "?w > 0xFFFFFFFF \<longleftrightarrow> 2 ^ 32 \<le> number_of (s @ [c])"
      using w by (simp add: word_less_nat_alt) linarith
    show ?thesis
    proof (cases "2 ^ 32 \<le> number_of (s @ [c])")
      case True
      then have "\<not> number_of (s @ c # t) < 2 ^ 32" using number_of_mono [of "s @ [c]" t] by simp
      with True big show ?thesis by simp
    next
      case False
      with Cons.IH [OF w] w big True show ?thesis by simp
    qed
  qed simp
qed

lemma parse_offset_iff:
  "parse_offset s = Some w \<longleftrightarrow> s \<noteq> [] \<and> list_all is_digit s \<and> number_of s < 2 ^ 32 \<and> w = word_of_nat (number_of s)"
proof -
  have "parse_digits 0 s = (if list_all is_digit s \<and> number_of s < 2 ^ 32
      then Some (word_of_nat (number_of s)) else None)"
    using parse_digits_correct [of 0 "[]" s] by (simp add: number_of_def)
  moreover have "ucast (word_of_nat n :: 64 word) = (word_of_nat n :: u32)" if "n < 2 ^ 32" for n
    using that by (simp add: unsigned_of_nat take_bit_nat_eq_self)
  ultimately show ?thesis by (auto simp: parse_offset_def)
qed

lemma parse_offset_to_string: "parse_offset (to_string w) = Some w"
  using unat_u32_bound [of w]
  by (simp add: parse_offset_iff to_string_def decimal_not_empty list_all_iff decimal_digits)

section \<open>What a parsed command satisfies\<close>

lemma parse_options_keeps:
  "parse_options ps os cmd args = Inr cmd' \<Longrightarrow> cmd_type cmd' = cmd_type cmd
     \<and> cmd_ipc_identifier cmd' = cmd_ipc_identifier cmd \<and> cmd_topic cmd' = cmd_topic cmd
     \<and> cmd_subscriber cmd' = cmd_subscriber cmd"
proof (induction ps os cmd args rule: parse_options.induct)
  case (2 ps os cmd option args)
  then show ?case by (auto split: if_splits list.splits option.splits)
qed simp

definition command_names_ok :: "command \<Rightarrow> bool" where
  "command_names_ok cmd \<longleftrightarrow> cmd_ipc_identifier cmd \<noteq> ''''
     \<and> (cmd_type cmd = LIST \<or> cmd_type cmd = INFO \<or> is_valid_name (cmd_topic cmd))
     \<and> (cmd_type cmd = INFO \<or> cmd_type cmd = SUBSCRIBE \<longrightarrow> is_valid_name (cmd_subscriber cmd))
     \<and> cmd_type cmd \<in> {CREATE, LIST, INFO, CONNECT, SUBSCRIBE}"

lemma parse_command_names:
  assumes "parse_command argv = Inr cmd"
  shows "command_names_ok cmd"
proof (cases "argv ! 2 = ''subscribe''")
  case True
  then obtain cmd0 where cmd0: "parse_options False False cmd0 (drop 5 argv) = Inr cmd"
    "is_valid_name (cmd_topic cmd0)" "is_valid_name (cmd_subscriber cmd0)"
    "cmd_type cmd0 = SUBSCRIBE" "cmd_ipc_identifier cmd0 \<noteq> ''''"
    using assms by (auto simp: parse_command_def parse_subscribe_command_def Let_def split: if_splits)
  from parse_options_keeps [OF cmd0(1)] cmd0 show ?thesis by (simp add: command_names_ok_def)
next
  case False
  with assms show ?thesis
    by (auto simp: parse_command_def command_names_ok_def Let_def split: if_splits)
qed

text \<open>The options of a subscription, written out.\<close>

definition render_options :: "string \<Rightarrow> u32 option \<Rightarrow> bool \<Rightarrow> string list" where
  "render_options p offset raw =
     (if p = '''' then [] else [''--prefix'', p])
     @ (case offset of None \<Rightarrow> [] | Some n \<Rightarrow> [''--offset'', to_string n])
     @ (if raw then [''--raw''] else [])"

lemma parse_rendered:
  assumes "ipc \<noteq> ''''" and "is_valid_name topic" and "is_valid_name sub"
  shows "parse_command ([prog, ipc, ''subscribe'', topic, sub] @ render_options p offset raw) =
    Inr \<lparr>cmd_type = SUBSCRIBE, cmd_ipc_identifier = ipc, cmd_topic = topic, cmd_subscriber = sub,
      cmd_prefix = p, cmd_offset = (case offset of None \<Rightarrow> 0 | Some n \<Rightarrow> n),
      cmd_has_offset = (offset \<noteq> None), cmd_raw = raw\<rparr>"
proof -
  let ?cmd = "make_empty_command\<lparr>cmd_ipc_identifier := ipc, cmd_type := SUBSCRIBE, cmd_topic := topic,
      cmd_subscriber := sub\<rparr>"
  have "parse_command ([prog, ipc, ''subscribe'', topic, sub] @ render_options p offset raw)
      = parse_options False False ?cmd (render_options p offset raw)"
    using assms by (simp add: parse_command_def parse_subscribe_command_def)
  then show ?thesis
    by (auto simp: render_options_def make_empty_command_def parse_offset_to_string split: option.split)
qed

section \<open>Properties\<close>

text \<open>
  C31: \<^verbatim>\<open>parse_offset\<close> accepts exactly the non-empty strings of decimal digits whose value is below
  \<open>2 ^ 32\<close>, leading zeros allowed, and yields that value; its 64-bit accumulator never wraps.
\<close>

theorem parse_offset_spec:
  "parse_offset s = Some w \<longleftrightarrow>
     s \<noteq> [] \<and> list_all is_digit s \<and> number_of s < 2 ^ 32 \<and> w = word_of_nat (number_of s)"
  by (rule parse_offset_iff)

text \<open>
  C30: Every command the parser accepts names its server FIFO, and the names of topics and subscribers it
  uses are valid.
\<close>

theorem parse_command_valid:
  assumes "parse_command argv = Inr cmd"
  shows "cmd_ipc_identifier cmd \<noteq> '''' \<and> cmd_type cmd \<in> {CREATE, LIST, INFO, CONNECT, SUBSCRIBE}
    \<and> (cmd_type cmd = LIST \<or> cmd_type cmd = INFO \<or> is_valid_name (cmd_topic cmd))
    \<and> (cmd_type cmd = CREATE \<or> cmd_type cmd = LIST \<or> cmd_type cmd = CONNECT \<or> is_valid_name (cmd_subscriber cmd))"
  using parse_command_names [OF assms] by (auto simp: command_names_ok_def)

theorem parse_command_valid_witness:
  "\<exists>cmd. parse_command [''client'', ''/s'', ''create'', ''t''] = Inr cmd \<and> cmd_type cmd = CREATE
     \<and> is_valid_name (cmd_topic cmd)"
proof -
  have parsed: "parse_command [''client'', ''/s'', ''create'', ''t''] =
      Inr (make_empty_command\<lparr>cmd_ipc_identifier := ''/s'', cmd_type := CREATE, cmd_topic := ''t''\<rparr>)"
    by (simp add: parse_command_def make_empty_command_def is_valid_name_def is_alnum_def)
  from parse_command_valid [OF this] parsed show ?thesis by (simp add: make_empty_command_def)
qed

text \<open>
  C29: Every subscription can be given on the command line and is understood as it was meant: prefix,
  32-bit start offset and raw mode, each present or not.
\<close>

theorem subscribe_command_roundtrip:
  assumes "ipc \<noteq> ''''" and "is_valid_name topic" and "is_valid_name sub"
  shows "parse_command ([prog, ipc, ''subscribe'', topic, sub] @ render_options p offset raw) =
    Inr \<lparr>cmd_type = SUBSCRIBE, cmd_ipc_identifier = ipc, cmd_topic = topic, cmd_subscriber = sub,
      cmd_prefix = p, cmd_offset = (case offset of None \<Rightarrow> 0 | Some n \<Rightarrow> n),
      cmd_has_offset = (offset \<noteq> None), cmd_raw = raw\<rparr>"
  by (rule parse_rendered [OF assms])

theorem subscribe_command_roundtrip_witness:
  "\<exists>cmd. parse_command ([''client'', ''/s'', ''subscribe'', ''t'', ''c''] @ render_options ''a'' (Some 7) True) = Inr cmd
     \<and> cmd_offset cmd = 7"
  using subscribe_command_roundtrip [of "''/s''" "''t''" "''c''" "''client''" "''a''" "Some 7" True]
  by (simp add: is_valid_name_def is_alnum_def)

end
