(* ===== verification/Protocol_Codec.thy ===== *)
theory Protocol_Codec
  imports Protocol
begin

text \<open>
  What a request of the protocol promises, as an interface: the locale \<open>codec\<close> relates the
  serializer of a request to its parser. It is interpreted for each of the eight requests of
  \<^verbatim>\<open>src/protocol/Protocol.cpp\<close>; the client relies on it when it sends, the server when it receives.
\<close>

section \<open>The contract\<close>

locale codec =
  fixes tag :: u8
    and serialize :: "'a \<Rightarrow> u8 list"
    and parse :: "u8 list \<Rightarrow> nat \<Rightarrow> 'a parse_result option"
    and wf :: "'a \<Rightarrow> bool"
  assumes frame: "wf x \<Longrightarrow> \<exists>payload. length payload < 2 ^ 32 \<and>
      serialize x = tag # u32le (word_of_nat (length payload)) @ payload"
    and complete: "wf x \<Longrightarrow>
      parse (drop 5 (serialize x) @ rest) (length (serialize x) - 5) = Some (Parsed x)"
    and sound: "len \<le> length buf \<Longrightarrow> len < 2 ^ 32 \<Longrightarrow> parse buf len = Some (Parsed x) \<Longrightarrow>
      wf x \<and> take len buf = drop 5 (serialize x)"
    and defined: "len \<le> length buf \<Longrightarrow> \<exists>r. parse buf len = Some r"
begin

lemma serialize_payload:
  assumes "wf x"
  shows "serialize x = tag # u32le (word_of_nat (length (drop 5 (serialize x)))) @ drop 5 (serialize x)"
    and "length (drop 5 (serialize x)) < 2 ^ 32"
proof -
  from frame [OF assms] obtain payload where p: "length payload < 2 ^ 32"
    "serialize x = tag # u32le (word_of_nat (length payload)) @ payload" by blast
  then have "drop 5 (serialize x) = payload" by (simp add: u32le_def)
  with p show "serialize x = tag # u32le (word_of_nat (length (drop 5 (serialize x)))) @ drop 5 (serialize x)"
    and "length (drop 5 (serialize x)) < 2 ^ 32" by simp_all
qed

lemma length_serialize: "wf x \<Longrightarrow> length (serialize x) = 5 + length (drop 5 (serialize x))"
  by (subst serialize_payload(1)) simp_all

lemma accepts_iff:
  assumes "len \<le> length buf" and "len < 2 ^ 32"
  shows "parse buf len = Some (Parsed x) \<longleftrightarrow> wf x \<and> take len buf = drop 5 (serialize x)"
proof
  assume "wf x \<and> take len buf = drop 5 (serialize x)"
  then have wf: "wf x" and eq: "take len buf = drop 5 (serialize x)" by auto
  from arg_cong [OF eq, of length] assms(1) have "len = length (serialize x) - 5" by simp
  moreover have "buf = drop 5 (serialize x) @ drop len buf"
    using eq by (metis append_take_drop_id)
  ultimately show "parse buf len = Some (Parsed x)"
    using complete [OF wf, of "drop len buf"] by simp
qed (use sound [OF assms] in blast)

lemma framed:
  assumes "wf x"
  obtains payload where "serialize x = tag # u32le (word_of_nat (length payload)) @ payload"
    and "parse payload (length payload) = Some (Parsed x)"
  using that [OF serialize_payload(1) [OF assms]] complete [OF assms, of "[]"] by simp

text \<open>A parser looks at nothing beyond the length it is given.\<close>

lemma parse_local:
  assumes "len \<le> length buf" and "len < 2 ^ 32"
  shows "parse (take len buf) len = parse buf len"
proof -
  have same: "parse (take len buf) len = Some (Parsed x) \<longleftrightarrow> parse buf len = Some (Parsed x)" for x
    using accepts_iff [of len "take len buf" x] accepts_iff [of len buf x] assms by simp
  have "\<exists>r. parse (take len buf) len = Some r" and "\<exists>r. parse buf len = Some r"
    using assms(1) by (simp_all add: defined)
  then show ?thesis using same by (metis parse_result.exhaust)
qed

text \<open>Frames delimit themselves: two streams that start with a frame start with the same one.\<close>

lemma self_delimiting:
  assumes wf: "wf x" "wf y" and eq: "serialize x @ r = serialize y @ s"
  shows "x = y \<and> r = s"
proof -
  from frame [OF wf(1)] obtain p where p: "length p < 2 ^ 32"
    and x: "serialize x = tag # u32le (word_of_nat (length p)) @ p" by blast
  from frame [OF wf(2)] obtain q where q: "length q < 2 ^ 32"
    and y: "serialize y = tag # u32le (word_of_nat (length q)) @ q" by blast
  from eq have "u32le (word_of_nat (length p)) @ (p @ r) = u32le (word_of_nat (length q)) @ (q @ s)"
    by (simp add: x y)
  then have head: "u32le (word_of_nat (length p)) = u32le (word_of_nat (length q))"
    and rest: "p @ r = q @ s"
    by (subst (asm) append_eq_append_conv; simp)+
  from head have "unat (word_of_nat (length p) :: u32) = unat (word_of_nat (length q) :: u32)"
    by simp
  with p q have "length p = length q" by (simp only: unat_word_of_nat_small)
  with rest have "p = q" and "r = s" by auto
  moreover from \<open>p = q\<close> have "serialize x = serialize y" by (simp add: x y)
  then have "Some (Parsed x) = Some (Parsed y)"
    using complete [OF wf(1), of "[]"] complete [OF wf(2), of "[]"] by simp
  ultimately show ?thesis by simp
qed

lemma serialize_inject: "wf x \<Longrightarrow> wf y \<Longrightarrow> serialize x = serialize y \<longleftrightarrow> x = y"
  using self_delimiting [of x y "[]" "[]"] by auto

end

section \<open>The eight requests\<close>

text \<open>The values that fit a frame: the payload length is below \<open>2 ^ 32\<close>.\<close>

definition named_ok :: "u32 \<times> string \<Rightarrow> bool" where
  "named_ok r \<longleftrightarrow> 4 + length (snd r) < 2 ^ 32"

definition produce_ok :: "string \<times> string \<times> string \<Rightarrow> bool" where
  "produce_ok r \<longleftrightarrow> (case r of (topic, key, val) \<Rightarrow>
     12 + length topic + length key + length val < 2 ^ 32
       \<and> length key + length val \<le> MAX_PAYLOAD_SIZE)"

definition subscribe_ok :: "u32 \<times> string \<times> string \<times> string \<times> u32 \<Rightarrow> bool" where
  "subscribe_ok r \<longleftrightarrow> (case r of (pid, client_id, topic, prfx, offset) \<Rightarrow>
     20 + length client_id + length topic + length prfx < 2 ^ 32)"

definition ack_ok :: "string \<times> u32 \<Rightarrow> bool" where
  "ack_ok r \<longleftrightarrow> 8 + length (fst r) < 2 ^ 32"

definition disconnect_ok :: "string \<Rightarrow> bool" where
  "disconnect_ok client_id \<longleftrightarrow> 4 + length client_id < 2 ^ 32"

lemmas request_ok_defs =
  named_ok_def produce_ok_def subscribe_ok_def ack_ok_def disconnect_ok_def

lemma take_bytes_eq: "length buf \<ge> 4 \<Longrightarrow> 4 \<le> len \<Longrightarrow>
    take len buf = take 4 buf @ take (len - 4) (drop 4 buf)"
  by (metis le_add_diff_inverse take_split)

lemma named_sound:
  assumes "len \<le> length buf" and "len < 2 ^ 32" and "4 \<le> len"
    and "read_uint32_le buf = Some pid" and "assign_string (drop 4 buf) (len - 4) = Some s"
  shows "4 + length s < 2 ^ 32 \<and> take len buf = u32le pid @ bytes s"
  using assms take_bytes_eq [of buf len] read_uint32_le_SomeD [OF assms(4)]
    assign_string_SomeD [OF assms(5)] by auto

lemma read_assign_defined:
  assumes "len \<le> length buf" and "4 \<le> len"
  shows "\<exists>pid s. read_uint32_le buf = Some pid \<and> assign_string (drop 4 buf) (len - 4) = Some s"
proof -
  from assms have "\<not> length buf < 4" and "\<not> length (drop 4 buf) < len - 4" by auto
  then show ?thesis by (metis not_None_eq read_uint32_le_None assign_string_None)
qed

interpretation create_codec: codec "command_code CREATE" "\<lambda>(pid, topic). serialize_create pid topic"
  parse_create named_ok
proof (unfold_locales, goal_cases)
  case (1 x) then show ?case
    by (cases x, intro exI [of _ "u32le (fst x) @ bytes (snd x)"])
      (auto simp: named_ok_def serialize_create_def wire_simps)
next
  case (2 x rest) then show ?case
    by (cases x) (simp add: named_ok_def serialize_create_def wire_simps parse_create_def)
next
  case (3 len buf x) then show ?case
    by (cases x) (auto simp: parse_create_def named_ok_def serialize_create_def wire_simps
      bind_eq_Some_conv split: if_splits dest: named_sound)
next
  case (4 len buf) then show ?case
    using read_assign_defined [of len buf] by (auto simp: parse_create_def)
qed

interpretation info_codec: codec "command_code INFO" "\<lambda>(pid, client_id). serialize_info pid client_id"
  parse_info named_ok
proof (unfold_locales, goal_cases)
  case (1 x) then show ?case
    by (cases x, intro exI [of _ "u32le (fst x) @ bytes (snd x)"])
      (auto simp: named_ok_def serialize_info_def wire_simps)
next
  case (2 x rest) then show ?case
    by (cases x) (simp add: named_ok_def serialize_info_def wire_simps parse_info_def)
next
  case (3 len buf x) then show ?case
    by (cases x) (auto simp: parse_info_def named_ok_def serialize_info_def wire_simps
      bind_eq_Some_conv split: if_splits dest: named_sound)
next
  case (4 len buf) then show ?case
    using read_assign_defined [of len buf] by (auto simp: parse_info_def)
qed

interpretation connect_codec: codec "command_code CONNECT" "\<lambda>(pid, topic). serialize_connect pid topic"
  parse_connect named_ok
proof (unfold_locales, goal_cases)
  case (1 x) then show ?case
    by (cases x, intro exI [of _ "u32le (fst x) @ bytes (snd x)"])
      (auto simp: named_ok_def serialize_connect_def wire_simps)
next
  case (2 x rest) then show ?case
    by (cases x) (simp add: named_ok_def serialize_connect_def wire_simps parse_connect_def)
next
  case (3 len buf x) then show ?case
    by (cases x) (auto simp: parse_connect_def named_ok_def serialize_connect_def wire_simps
      bind_eq_Some_conv split: if_splits dest: named_sound)
next
  case (4 len buf) then show ?case
    using read_assign_defined [of len buf] by (auto simp: parse_connect_def)
qed

interpretation list_codec: codec "command_code LIST" serialize_list parse_list "\<lambda>_. True"
proof (unfold_locales, goal_cases)
  case (1 x) show ?case
    by (intro exI [of _ "u32le x"]) (simp add: serialize_list_def wire_simps)
next
  case (2 x rest) show ?case
    by (simp add: serialize_list_def wire_simps parse_list_def)
next
  case (3 len buf x) then show ?case
    by (auto simp: parse_list_def serialize_list_def wire_simps bind_eq_Some_conv
      split: if_splits dest: read_uint32_le_SomeD)
next
  case (4 len buf) then show ?case
    using read_assign_defined [of len buf] by (auto simp: parse_list_def)
qed

text \<open>The requests with several length-prefixed strings.\<close>

abbreviation lstring :: "string \<Rightarrow> u8 list" where
  "lstring s \<equiv> u32le (word_of_nat (length s)) @ bytes s"

lemma serialize_produce_eq: "serialize_produce t k v = command_code PRODUCE #
    u32le (word_of_nat (12 + length t + length k + length v)) @ lstring t @ lstring k @ lstring v"
  by (simp add: serialize_produce_def wire_simps Let_def)

lemma serialize_subscribe_eq: "serialize_subscribe pid c t p offset = command_code SUBSCRIBE #
    u32le (word_of_nat (20 + length c + length t + length p)) @
    u32le pid @ lstring c @ lstring t @ lstring p @ u32le offset"
  by (simp add: serialize_subscribe_def wire_simps Let_def)

lemma serialize_ack_eq: "serialize_ack c n = command_code ACK #
    u32le (word_of_nat (8 + length c)) @ lstring c @ u32le n"
  by (simp add: serialize_ack_def wire_simps Let_def)

lemma serialize_disconnect_eq: "serialize_disconnect c = command_code DISCONNECT #
    u32le (word_of_nat (4 + length c)) @ lstring c"
  by (simp add: serialize_disconnect_def wire_simps Let_def)

lemmas serialize_eqs = serialize_produce_eq serialize_subscribe_eq serialize_ack_eq
  serialize_disconnect_eq

lemma drop_frame_head: "drop 5 (tag # u32le n @ payload) = payload"
  by (simp add: u32le_def)

lemma unat_add_fits:
  fixes a b :: u32
  assumes "unat a + unat b < 2 ^ 32"
  shows "unat (a + b) = unat a + unat b"
  using assms by (simp add: unat_u32_add)

lemma get_lstringE:
  assumes "get_uint32 buf len offset (\<lambda>n offset. get_string buf len offset n (k n)) = Some (Parsed x)"
  obtains s where "offset + (4 + length s) \<le> len" and "length s < 2 ^ 32"
    and "take (4 + length s) (drop offset buf) = lstring s"
    and "k (word_of_nat (length s)) s (offset + (4 + length s)) = Some (Parsed x)"
proof -
  from assms obtain n s where n: "take 4 (drop offset buf) = u32le n"
    and s: "offset + 4 + unat n \<le> len" "take (unat n) (drop (offset + 4) buf) = bytes s"
      "length s = unat n" "k n s (offset + 4 + unat n) = Some (Parsed x)"
    by (elim parseE) blast
  have "take (4 + unat n) (drop offset buf)
      = take 4 (drop offset buf) @ take (unat n) (drop 4 (drop offset buf))"
    by (rule take_split)
  with n s(2,3) have "take (4 + length s) (drop offset buf) = lstring s"
    by (simp add: add.commute)
  moreover from s(3) have "word_of_nat (length s) = n" by simp
  ultimately show thesis
    using s unat_u32_bound [of n] by (intro that [of s]) (simp_all add: add.assoc)
qed

lemma parse_produce_sound:
  assumes "parse_produce buf len = Some (Parsed x)" and "len < 2 ^ 32"
  shows "produce_ok x \<and> take len buf =
    (case x of (t, k, v) \<Rightarrow> lstring t @ lstring k @ lstring v)"
proof -
  from assms(1) obtain t k v where len: "len = 0 + (4 + length t) + (4 + length k) + (4 + length v)"
    and "take (4 + length t) (drop 0 buf) = lstring t"
    and "take (4 + length k) (drop (0 + (4 + length t)) buf) = lstring k"
    and "take (4 + length v) (drop (0 + (4 + length t) + (4 + length k)) buf) = lstring v"
    and sum: "unat (word_of_nat (length k) + word_of_nat (length v) :: u32) \<le> MAX_PAYLOAD_SIZE"
    and x: "x = (t, k, v)"
    unfolding parse_produce_def by (elim get_lstringE) (auto split: if_splits)
  then have "take len buf = lstring t @ lstring k @ lstring v"
    by (simp only: len take_split drop_0 append_assoc take_0 append_Nil)
  moreover have "unat (word_of_nat (length k) + word_of_nat (length v) :: u32) = length k + length v"
    using len assms(2) by (subst unat_add_fits) simp_all
  ultimately show ?thesis using len sum assms(2) by (simp add: x produce_ok_def)
qed

interpretation produce_codec: codec "command_code PRODUCE" "\<lambda>(topic, key, val). serialize_produce topic key val"
  parse_produce produce_ok
proof (unfold_locales, goal_cases)
  case (1 x) then show ?case
    by (cases x, intro exI [of _ "case x of (t, k, v) \<Rightarrow> lstring t @ lstring k @ lstring v"])
      (simp add: produce_ok_def serialize_eqs algebra_simps)
next
  case (2 x rest)
  then obtain t k v where x: "x = (t, k, v)"
    and fit: "12 + length t + length k + length v < 2 ^ 32"
    and small: "length k + length v \<le> MAX_PAYLOAD_SIZE"
    by (cases x) (auto simp: produce_ok_def)
  from fit have "unat (word_of_nat (length k) + word_of_nat (length v) :: u32) = length k + length v"
    by (subst unat_add_fits) simp_all
  with fit small show ?case
    by (simp add: x serialize_eqs drop_frame_head parse_produce_def get_uint32_def get_string_def)
next
  case (3 len buf x)
  from parse_produce_sound [OF 3(3,2)] show ?case
    by (cases x) (simp add: serialize_eqs drop_frame_head)
next
  case (4 len buf) then show ?case
    unfolding parse_produce_def by (intro parse_definedI) auto
qed

lemma parse_subscribe_sound:
  assumes "parse_subscribe buf len = Some (Parsed x)" and "len < 2 ^ 32"
  shows "subscribe_ok x \<and> take len buf = (case x of (pid, c, t, p, offset) \<Rightarrow>
    u32le pid @ lstring c @ lstring t @ lstring p @ u32le offset)"
proof -
  from assms(1) obtain pid c t p req
    where len: "len = 0 + 4 + (4 + length c) + (4 + length t) + (4 + length p) + 4"
    and "take 4 (drop 0 buf) = u32le pid"
    and "take (4 + length c) (drop (0 + 4) buf) = lstring c"
    and "take (4 + length t) (drop (0 + 4 + (4 + length c)) buf) = lstring t"
    and "take (4 + length p) (drop (0 + 4 + (4 + length c) + (4 + length t)) buf) = lstring p"
    and "take 4 (drop (0 + 4 + (4 + length c) + (4 + length t) + (4 + length p)) buf) = u32le req"
    and x: "x = (pid, c, t, p, req)"
    unfolding parse_subscribe_def
    apply -
    apply (erule get_uint32E)
    apply (elim get_lstringE)
    apply (erule get_uint32E)
    apply (auto split: if_splits)
    done
  then have "take len buf = u32le pid @ lstring c @ lstring t @ lstring p @ u32le req"
    by (simp only: len take_split drop_0 append_assoc take_0 append_Nil)
  then show ?thesis using len assms(2) by (simp add: x subscribe_ok_def)
qed

interpretation subscribe_codec: codec "command_code SUBSCRIBE"
  "\<lambda>(pid, client_id, topic, prfx, offset). serialize_subscribe pid client_id topic prfx offset"
  parse_subscribe subscribe_ok
proof (unfold_locales, goal_cases)
  case (1 x) then show ?case
    by (cases x, intro exI [of _ "case x of (pid, c, t, p, offset) \<Rightarrow>
          u32le pid @ lstring c @ lstring t @ lstring p @ u32le offset"])
      (simp add: subscribe_ok_def serialize_eqs algebra_simps)
next
  case (2 x rest) then show ?case
    by (cases x) (simp add: subscribe_ok_def serialize_eqs drop_frame_head parse_subscribe_def
      get_uint32_def get_string_def)
next
  case (3 len buf x)
  from parse_subscribe_sound [OF 3(3,2)] show ?case
    by (cases x) (simp add: serialize_eqs drop_frame_head)
next
  case (4 len buf) then show ?case
    unfolding parse_subscribe_def by (intro parse_definedI) auto
qed

lemma parse_ack_sound:
  assumes "parse_ack buf len = Some (Parsed x)" and "len < 2 ^ 32"
  shows "ack_ok x \<and> take len buf = lstring (fst x) @ u32le (snd x)"
proof -
  from assms(1) obtain c n where len: "len = 0 + (4 + length c) + 4"
    and "take (4 + length c) (drop 0 buf) = lstring c"
    and "take 4 (drop (0 + (4 + length c)) buf) = u32le n" and x: "x = (c, n)"
    unfolding parse_ack_def by (elim get_lstringE, elim get_uint32E) (auto split: if_splits)
  then have "take len buf = lstring c @ u32le n"
    by (simp only: len take_split drop_0 append_assoc take_0 append_Nil)
  then show ?thesis using len assms(2) by (simp add: x ack_ok_def)
qed

interpretation ack_codec: codec "command_code ACK"
  "\<lambda>(client_id, next_offset). serialize_ack client_id next_offset" parse_ack ack_ok
proof (unfold_locales, goal_cases)
  case (1 x) then show ?case
    by (cases x, intro exI [of _ "lstring (fst x) @ u32le (snd x)"])
      (simp add: ack_ok_def serialize_eqs algebra_simps)
next
  case (2 x rest) then show ?case
    by (cases x) (simp add: ack_ok_def serialize_eqs drop_frame_head parse_ack_def
      get_uint32_def get_string_def)
next
  case (3 len buf x)
  from parse_ack_sound [OF 3(3,2)] show ?case
    by (cases x) (simp add: serialize_eqs drop_frame_head)
next
  case (4 len buf) then show ?case
    unfolding parse_ack_def by (intro parse_definedI) auto
qed

lemma parse_disconnect_sound:
  assumes "parse_disconnect buf len = Some (Parsed c)" and "len < 2 ^ 32"
  shows "disconnect_ok c \<and> take len buf = lstring c"
proof -
  from assms(1) have len: "len = 4 + length c" and "take (4 + length c) buf = lstring c"
    unfolding parse_disconnect_def by (elim get_lstringE; auto split: if_splits)+
  with assms(2) show ?thesis by (simp add: disconnect_ok_def)
qed

interpretation disconnect_codec: codec "command_code DISCONNECT" serialize_disconnect
  parse_disconnect disconnect_ok
proof (unfold_locales, goal_cases)
  case (1 x) then show ?case
    by (intro exI [of _ "lstring x"]) (simp add: disconnect_ok_def serialize_eqs)
next
  case (2 x rest) then show ?case
    by (simp add: disconnect_ok_def serialize_eqs drop_frame_head parse_disconnect_def
      get_uint32_def get_string_def)
next
  case (3 len buf x)
  from parse_disconnect_sound [OF 3(3,2)] show ?case
    by (simp add: serialize_eqs drop_frame_head)
next
  case (4 len buf) then show ?case
    unfolding parse_disconnect_def by (intro parse_definedI) auto
qed

section \<open>Responses and deliveries\<close>

definition delivery_ok :: "u32 \<times> string \<times> string \<Rightarrow> bool" where
  "delivery_ok r \<longleftrightarrow> (case r of (offset, key, val) \<Rightarrow>
     12 + length key + length val < 2 ^ 32
       \<and> (offset \<noteq> SHUTDOWN_OFFSET \<longrightarrow> length key + length val \<le> MAX_PAYLOAD_SIZE))"

lemma serialize_delivery_eq: "serialize_delivery offset k v =
    u32le offset @ u32le (word_of_nat (length k)) @ u32le (word_of_nat (length v)) @ bytes k @ bytes v"
  by (simp add: serialize_delivery_def wire_simps Let_def)

lemma length_serialize_delivery [simp]:
  "length (serialize_delivery offset k v) = 12 + length k + length v"
  by (simp add: serialize_delivery_eq)

lemma serialize_response_eq: "serialize_response st p =
    status_byte st # u32le (word_of_nat (length p)) @ bytes p"
  by (simp add: serialize_response_def wire_simps Let_def)

lemma parse_delivery_complete:
  assumes "delivery_ok (offset, k, v)"
  shows "parse_delivery (serialize_delivery offset k v @ rest) (length (serialize_delivery offset k v))
    = Some (Parsed (offset, k, v))"
proof -
  have fit: "12 + length k + length v < 2 ^ 32" using assms by (simp add: delivery_ok_def)
  then have "unat (word_of_nat (length k) + word_of_nat (length v) :: u32) = length k + length v"
    by (subst unat_add_fits) simp_all
  with fit assms show ?thesis
    by (auto simp: serialize_delivery_eq parse_delivery_def get_uint32_def get_string_def
        delivery_ok_def)
qed

lemma parse_delivery_sound:
  assumes "parse_delivery buf len = Some (Parsed (offset, k, v))" and "len < 2 ^ 32"
  shows "delivery_ok (offset, k, v) \<and> take len buf = serialize_delivery offset k v"
proof -
  from assms(1) obtain kl vl :: u32
    where len: "len = 0 + 4 + 4 + 4 + unat kl + unat vl"
      and lens: "length k = unat kl" "length v = unat vl"
      and "take 4 (drop 0 buf) = u32le offset" and "take 4 (drop (0 + 4) buf) = u32le kl"
      and "take 4 (drop (0 + 4 + 4) buf) = u32le vl"
      and "take (unat kl) (drop (0 + 4 + 4 + 4) buf) = bytes k"
      and "take (unat vl) (drop (0 + 4 + 4 + 4 + unat kl) buf) = bytes v"
      and sum: "offset \<noteq> SHUTDOWN_OFFSET \<longrightarrow> unat (kl + vl) \<le> MAX_PAYLOAD_SIZE"
    unfolding parse_delivery_def
    apply -
    apply (elim get_uint32E)
    apply (simp split: if_splits)
    apply (elim get_stringE)
    apply (auto simp: not_less split: if_splits)
    done
  then have "take len buf = u32le offset @ u32le kl @ u32le vl @ bytes k @ bytes v"
    by (simp only: len take_split drop_0 append_assoc take_0 append_Nil)
  moreover have "word_of_nat (length k) = kl" and "word_of_nat (length v) = vl"
    using lens by simp_all
  moreover have "unat (kl + vl) = unat kl + unat vl"
    using len assms(2) by (intro unat_add_fits) simp
  ultimately show ?thesis
    using len lens sum assms(2) by (simp add: delivery_ok_def serialize_delivery_eq)
qed

lemma parse_delivery_defined: "len \<le> length buf \<Longrightarrow> \<exists>r. parse_delivery buf len = Some r"
  unfolding parse_delivery_def
  by (intro parse_definedI) (auto intro!: parse_definedI)

lemma parse_response_defined:
  assumes "len \<le> length buf"
  shows "\<exists>r. parse_response buf len = Some r"
proof (cases "len < 5")
  case False
  with assms obtain b0 rest where buf: "buf = b0 # rest" and "\<not> length rest < 4" by (cases buf) auto
  then obtain n where n: "read_uint32_le rest = Some n" by (metis not_None_eq read_uint32_le_None)
  show ?thesis
  proof (cases "len - 5 = unat n")
    case True
    with False assms have "\<not> length (drop 5 buf) < unat n" by simp
    then obtain s where "assign_string (drop 5 buf) (unat n) = Some s" by (metis not_None_eq assign_string_None)
    with n show ?thesis by (simp add: parse_response_def buf)
  qed (use n in \<open>simp add: parse_response_def buf\<close>)
qed (simp add: parse_response_def)

section \<open>Properties\<close>

text \<open>
  C32: The server's parser of a publication accepts exactly the payloads the serializer produces:
  it yields topic, key and value iff the payload is their serialization, they fit the frame, and
  key and value together have at most 1024 bytes.
\<close>

theorem parse_produce_iff:
  assumes "len \<le> length buf" and "len < 2 ^ 32"
  shows "parse_produce buf len = Some (Parsed (topic, key, val)) \<longleftrightarrow>
    produce_ok (topic, key, val) \<and> take len buf = drop 5 (serialize_produce topic key val)"
  using produce_codec.accepts_iff [OF assms, of "(topic, key, val)"] by simp

theorem parse_produce_witness:
  "parse_produce (drop 5 (serialize_produce ''t'' ''k'' ''v'') @ [7]) 15 = Some (Parsed (''t'', ''k'', ''v''))"
  using parse_produce_iff [of 15 "drop 5 (serialize_produce ''t'' ''k'' ''v'') @ [7]" "''t''" "''k''" "''v''"]
  by (simp add: serialize_produce_eq produce_ok_def MAX_PAYLOAD_SIZE_def)

text \<open>
  The server's parser of a subscription accepts exactly the payloads the serializer produces.
\<close>

theorem parse_subscribe_iff:
  assumes "len \<le> length buf" and "len < 2 ^ 32"
  shows "parse_subscribe buf len = Some (Parsed (pid, client_id, topic, prfx, offset)) \<longleftrightarrow>
    subscribe_ok (pid, client_id, topic, prfx, offset)
    \<and> take len buf = drop 5 (serialize_subscribe pid client_id topic prfx offset)"
  using subscribe_codec.accepts_iff [OF assms, of "(pid, client_id, topic, prfx, offset)"] by simp

theorem parse_subscribe_witness:
  "parse_subscribe (drop 5 (serialize_subscribe 9 ''c'' ''t'' ''p'' 3)) 23
     = Some (Parsed (9, ''c'', ''t'', ''p'', 3))"
  using parse_subscribe_iff [of 23 "drop 5 (serialize_subscribe 9 ''c'' ''t'' ''p'' 3)" 9 "''c''" "''t''" "''p''" 3]
  by (simp add: serialize_subscribe_eq subscribe_ok_def)

text \<open>
  C33: No parser reads outside the buffer it is given, whatever the bytes: each answers, accepting or
  rejecting.
\<close>

theorem parsers_memory_safe:
  assumes "len \<le> length buf"
  shows "parse_create buf len \<noteq> None \<and> parse_list buf len \<noteq> None \<and> parse_info buf len \<noteq> None
    \<and> parse_connect buf len \<noteq> None \<and> parse_produce buf len \<noteq> None \<and> parse_subscribe buf len \<noteq> None
    \<and> parse_ack buf len \<noteq> None \<and> parse_disconnect buf len \<noteq> None
    \<and> parse_delivery buf len \<noteq> None \<and> parse_response buf len \<noteq> None"
  using create_codec.defined [OF assms] list_codec.defined [OF assms] info_codec.defined [OF assms]
    connect_codec.defined [OF assms] produce_codec.defined [OF assms] subscribe_codec.defined [OF assms]
    ack_codec.defined [OF assms] disconnect_codec.defined [OF assms]
    parse_delivery_defined [OF assms] parse_response_defined [OF assms] by auto

theorem parsers_memory_safe_witness: "parse_produce [255, 255, 255, 255, 0] 5 \<noteq> None"
  using parsers_memory_safe [of 5 "[255, 255, 255, 255, 0]"] by simp

text \<open>
  Publications on a stream delimit themselves: equal byte streams that start with one carry the
  same topic, key and value, and the same rest.
\<close>

lemma serialize_produce_self_delimiting:
  assumes "produce_ok (topic, key, val)" and "produce_ok (topic', key', val')"
    and "serialize_produce topic key val @ rest = serialize_produce topic' key' val' @ rest'"
  shows "topic = topic' \<and> key = key' \<and> val = val' \<and> rest = rest'"
  using produce_codec.self_delimiting [of "(topic, key, val)" "(topic', key', val')" rest rest'] assms
  by simp

text \<open>
  The parser of a delivery accepts exactly the serialized deliveries whose sizes fit: the
  bounds of the payload apply to every delivery but the shutdown sentinel.
\<close>

theorem parse_delivery_iff:
  assumes "len \<le> length buf" and "len < 2 ^ 32"
  shows "parse_delivery buf len = Some (Parsed (offset, key, val)) \<longleftrightarrow>
    delivery_ok (offset, key, val) \<and> take len buf = serialize_delivery offset key val"
proof
  assume ok: "delivery_ok (offset, key, val) \<and> take len buf = serialize_delivery offset key val"
  then have "length (serialize_delivery offset key val) = len" using assms(1) by (metis length_take min.absorb2)
  moreover have "buf = serialize_delivery offset key val @ drop len buf"
    using ok by (metis append_take_drop_id)
  ultimately show "parse_delivery buf len = Some (Parsed (offset, key, val))"
    using ok parse_delivery_complete [of offset key val "drop len buf"] by simp
qed (use parse_delivery_sound [OF _ assms(2)] in blast)

theorem parse_delivery_witness:
  "parse_delivery (serialize_delivery 5 ''k'' ''v'') 14 = Some (Parsed (5, ''k'', ''v''))"
  using parse_delivery_iff [of 14 "serialize_delivery 5 ''k'' ''v''" 5 "''k''" "''v''"]
  by (simp add: delivery_ok_def MAX_PAYLOAD_SIZE_def)

text \<open>
  Little-endian integers: reading four bytes gives a value iff writing the value gives those
  four bytes.
\<close>

lemma uint32_le_iff:
  "read_uint32_le (b0 # b1 # b2 # b3 # rest) = Some v \<longleftrightarrow> write_uint32_le [] v = [b0, b1, b2, b3]"
proof
  assume "read_uint32_le (b0 # b1 # b2 # b3 # rest) = Some v"
  from read_uint32_le_SomeD(1) [OF this] show "write_uint32_le [] v = [b0, b1, b2, b3]"
    by (simp add: write_uint32_le_eq)
next
  assume "write_uint32_le [] v = [b0, b1, b2, b3]"
  then have "b0 # b1 # b2 # b3 # rest = u32le v @ rest" by (simp add: write_uint32_le_eq)
  then show "read_uint32_le (b0 # b1 # b2 # b3 # rest) = Some v" by (simp only: read_u32le)
qed

text \<open>
  A response comes back as it was sent, status and payload, from its whole frame and from its
  header alone.
\<close>

lemma response_roundtrip:
  assumes "length payload < 2 ^ 32" and "st = status_of_byte b" and "b \<le> 3"
  shows "parse_response (serialize_response st payload @ rest) (5 + length payload) = Some (Parsed (st, payload))
    \<and> parse_response_header (serialize_response st payload @ rest)
        = Some (Parsed \<lparr>status_code = st, response_payload_len = word_of_nat (length payload)\<rparr>)"
  using assms
  by (simp add: serialize_response_eq parse_response_def parse_response_header_def)

end
