(* ===== verification/Fifo.thy ===== *)
theory Fifo
  imports Posix
begin

text \<open>
  The FIFO classes of the client: \<^verbatim>\<open>src/ipc/ipc.hpp\<close> and \<^verbatim>\<open>src/ipc/ipc.cpp\<close>. An object is a record
  of its descriptor and path; the calls it makes go to the log. What a reader finds when it polls
  or reads is a script of events, given from outside: a computation that meets the end of the
  script still waits, and has no result. \<open>None\<close> also stands for a loop that never ends.
\<close>

section \<open>What arrives at a reader\<close>

text \<open>
  \<open>Data\<close>: bytes are there. \<open>Interrupted\<close>: the call fails with \<^verbatim>\<open>EINTR\<close>. \<open>Signalled\<close>: the same, after
  the handler of \<^verbatim>\<open>src/client/src/shutdown_signal.cpp\<close> has set the flag. \<open>Failed\<close>: the call fails
  otherwise. \<open>Timed_out\<close>: a \<^verbatim>\<open>poll\<close> with a timeout ends without an event. \<open>Hangup\<close>: a read returns 0.
\<close>

datatype input = Data "u8 list" | Interrupted | Signalled | Failed | Timed_out | Hangup

text \<open>
  The loop of \<^verbatim>\<open>read_exact\<close> for \<open>n\<close> more bytes; \<open>timed\<close> says whether \<^verbatim>\<open>timeout_ms >= 0\<close>, so that
  every read is preceded by a poll. The result is the answer, the bytes stored so far, the rest of
  the script and the shutdown flag. A read takes at most the bytes asked for.
\<close>

fun read_loop ::
    "bool \<Rightarrow> nat \<Rightarrow> input list \<Rightarrow> bool \<Rightarrow> (bool \<times> u8 list \<times> input list \<times> bool) option" where
  "read_loop timed n [] flag = (if n = 0 then Some (True, [], [], flag) else None)"
| "read_loop timed n (e # ins) flag =
     (if n = 0 then Some (True, [], e # ins, flag)
      else case e of
        Data bs \<Rightarrow>
          if n < length bs then Some (True, take n bs, Data (drop n bs) # ins, flag)
          else do {
            (ok, got, ins, flag) \<leftarrow> read_loop timed (n - length bs) ins flag;
            Some (ok, bs @ got, ins, flag) }
      | Interrupted \<Rightarrow> read_loop timed n ins flag
      | Signalled \<Rightarrow> read_loop timed n ins True
      | Failed \<Rightarrow> Some (False, [], ins, flag)
      | Timed_out \<Rightarrow> if timed then Some (False, [], ins, flag) else read_loop timed n ins flag
      | Hangup \<Rightarrow> Some (False, [], ins, flag))"

section \<open>Readers\<close>

record fifo_reader =
  reader_fd :: int
  reader_path :: string

definition FifoReader_default :: fifo_reader where
  "FifoReader_default = \<lparr>reader_fd = - 1, reader_path = ''''\<rparr>"

definition FifoReader_of :: "int \<Rightarrow> string \<Rightarrow> fifo_reader" where
  [simp]: "FifoReader_of fd path = \<lparr>reader_fd = fd, reader_path = path\<rparr>"

definition FifoReader_is_open :: "fifo_reader \<Rightarrow> bool" where
  "FifoReader_is_open r \<longleftrightarrow> reader_fd r \<ge> 0"

definition FifoReader_fd :: "fifo_reader \<Rightarrow> int" where
  [simp]: "FifoReader_fd r = reader_fd r"

definition FifoReader_get_path :: "fifo_reader \<Rightarrow> string" where
  [simp]: "FifoReader_get_path r = reader_path r"

definition FifoReader_close :: "fifo_reader \<Rightarrow> io_log \<Rightarrow> fifo_reader \<times> io_log" where
  "FifoReader_close r io =
     (let (r, io) = (if reader_fd r \<ge> 0 then (r\<lparr>reader_fd := - 1\<rparr>, sys_close (reader_fd r) io) else (r, io))
      in if reader_path r \<noteq> '''' then (r\<lparr>reader_path := ''''\<rparr>, sys_unlink (reader_path r) io) else (r, io))"

definition FifoReader_delete :: "fifo_reader \<Rightarrow> io_log \<Rightarrow> io_log" where
  [simp]: "FifoReader_delete r io = snd (FifoReader_close r io)"

text \<open>Moving: the new object, and what is left of the old one.\<close>

definition FifoReader_move :: "fifo_reader \<Rightarrow> fifo_reader \<times> fifo_reader" where
  "FifoReader_move other = (other, other\<lparr>reader_fd := - 1, reader_path := ''''\<rparr>)"

definition FifoReader_move_assign ::
    "fifo_reader \<Rightarrow> fifo_reader \<Rightarrow> io_log \<Rightarrow> fifo_reader \<times> fifo_reader \<times> io_log" where
  "FifoReader_move_assign self other io =
     (let (self, io) = FifoReader_close self io
      in (self\<lparr>reader_fd := reader_fd other, reader_path := reader_path other\<rparr>,
          other\<lparr>reader_fd := - 1, reader_path := ''''\<rparr>, io))"

definition FifoReader_create :: "os \<Rightarrow> string \<Rightarrow> bool \<Rightarrow> io_log \<Rightarrow> fifo_reader \<times> io_log" where
  "FifoReader_create os path read_write io =
     (let io = sys_unlink path io;
          (ret, io) = sys_mkfifo os path io
      in if ret = - 1 then (FifoReader_of (- 1) '''', io)
         else let (fd, io) = (if read_write then sys_open_rdwr os path io else sys_open_rd_nb os path io)
              in if fd < 0 then (FifoReader_of (- 1) '''', sys_unlink path io)
                 else let io = (if \<not> read_write then sys_set_blocking fd io else io)
                      in (FifoReader_of fd path, io))"

definition FifoReader_read_exact ::
    "fifo_reader \<Rightarrow> nat \<Rightarrow> int \<Rightarrow> input list \<Rightarrow> bool \<Rightarrow> (bool \<times> u8 list \<times> input list \<times> bool) option" where
  "FifoReader_read_exact r n timeout_ms ins flag =
     (if reader_fd r < 0 then Some (False, [], ins, flag) else read_loop (timeout_ms \<ge> 0) n ins flag)"

section \<open>Writers\<close>

record fifo_writer =
  writer_fd :: int
  writer_path :: string

definition FifoWriter_default :: fifo_writer where
  "FifoWriter_default = \<lparr>writer_fd = - 1, writer_path = ''''\<rparr>"

definition FifoWriter_of :: "int \<Rightarrow> string \<Rightarrow> fifo_writer" where
  [simp]: "FifoWriter_of fd path = \<lparr>writer_fd = fd, writer_path = path\<rparr>"

definition FifoWriter_is_open :: "fifo_writer \<Rightarrow> bool" where
  "FifoWriter_is_open w \<longleftrightarrow> writer_fd w \<ge> 0"

definition FifoWriter_fd :: "fifo_writer \<Rightarrow> int" where
  [simp]: "FifoWriter_fd w = writer_fd w"

definition FifoWriter_close :: "fifo_writer \<Rightarrow> io_log \<Rightarrow> fifo_writer \<times> io_log" where
  "FifoWriter_close w io =
     (let (w, io) = (if writer_fd w \<ge> 0 then (w\<lparr>writer_fd := - 1\<rparr>, sys_close (writer_fd w) io) else (w, io))
      in (w\<lparr>writer_path := ''''\<rparr>, io))"

definition FifoWriter_delete :: "fifo_writer \<Rightarrow> io_log \<Rightarrow> io_log" where
  [simp]: "FifoWriter_delete w io = snd (FifoWriter_close w io)"

definition FifoWriter_move :: "fifo_writer \<Rightarrow> fifo_writer \<times> fifo_writer" where
  "FifoWriter_move other = (other, other\<lparr>writer_fd := - 1, writer_path := ''''\<rparr>)"

definition FifoWriter_move_assign ::
    "fifo_writer \<Rightarrow> fifo_writer \<Rightarrow> io_log \<Rightarrow> fifo_writer \<times> fifo_writer \<times> io_log" where
  "FifoWriter_move_assign self other io =
     (let (self, io) = FifoWriter_close self io
      in (self\<lparr>writer_fd := writer_fd other, writer_path := writer_path other\<rparr>,
          other\<lparr>writer_fd := - 1, writer_path := ''''\<rparr>, io))"

text \<open>\<^verbatim>\<open>open\<close> tries again every 20 ms while nobody reads the FIFO, until the time is over.\<close>

partial_function (option) open_loop ::
    "os \<Rightarrow> string \<Rightarrow> nat \<Rightarrow> nat \<Rightarrow> io_log \<Rightarrow> (fifo_writer \<times> io_log) option" where
  "open_loop os path start timeout io =
     (let fd = fst (sys_open_wr_nb os path io); io = snd (sys_open_wr_nb os path io)
      in if fd \<ge> 0 then Some (FifoWriter_of fd path, sys_set_blocking fd io)
         else if os_errno os io \<noteq> ENXIO \<and> os_errno os io \<noteq> ENOENT then Some (FifoWriter_of (- 1) '''', io)
         else if start + timeout \<le> os_clock os io then Some (FifoWriter_of (- 1) '''', io)
         else open_loop os path start timeout (sys_sleep 20 io))"

definition FifoWriter_open :: "os \<Rightarrow> string \<Rightarrow> nat \<Rightarrow> io_log \<Rightarrow> (fifo_writer \<times> io_log) option" where
  "FifoWriter_open os path timeout io = open_loop os path (os_clock os io) timeout io"

partial_function (option) write_loop ::
    "os \<Rightarrow> int \<Rightarrow> u8 list \<Rightarrow> nat \<Rightarrow> io_log \<Rightarrow> (bool \<times> io_log) option" where
  "write_loop os fd src sent io =
     (if sent < length src
      then let n = fst (sys_write os fd (drop sent src) io); io = snd (sys_write os fd (drop sent src) io)
           in if n < 0
              then (if os_errno os io = EINTR then write_loop os fd src sent io else Some (False, io))
              else write_loop os fd src (sent + nat n) io
      else Some (True, io))"

definition FifoWriter_write_exact ::
    "os \<Rightarrow> fifo_writer \<Rightarrow> u8 list \<Rightarrow> io_log \<Rightarrow> (bool \<times> io_log) option" where
  "FifoWriter_write_exact os w src io =
     (if writer_fd w < 0 then Some (False, io) else write_loop os (writer_fd w) src 0 io)"

section \<open>Correctness of reading\<close>

text \<open>The bytes of a script. A script is clean if reads on it neither fail nor time out.\<close>

fun input_bytes :: "input list \<Rightarrow> u8 list" where
  "input_bytes [] = []"
| "input_bytes (Data bs # ins) = bs @ input_bytes ins"
| "input_bytes (e # ins) = input_bytes ins"

definition clean :: "input list \<Rightarrow> bool" where
  "clean ins \<longleftrightarrow> (\<forall>e \<in> set ins. e \<noteq> Failed \<and> e \<noteq> Timed_out \<and> e \<noteq> Hangup)"

lemma clean_simps [simp]:
  "clean []" "clean (Data bs # ins) = clean ins" "clean (Interrupted # ins) = clean ins"
  "clean (Signalled # ins) = clean ins" "\<not> clean (Failed # ins)" "\<not> clean (Timed_out # ins)"
  "\<not> clean (Hangup # ins)"
  by (simp_all add: clean_def)

lemma read_loop_0 [simp]: "read_loop timed 0 ins flag = Some (True, [], ins, flag)"
  by (cases ins) simp_all

lemma read_loop_sound:
  "read_loop timed n ins flag = Some (ok, got, ins', flag') \<Longrightarrow>
     length got \<le> n \<and> (ok \<longrightarrow> length got = n) \<and> input_bytes ins = got @ input_bytes ins'
     \<and> (clean ins \<longrightarrow> clean ins')"
proof (induction ins arbitrary: n flag ok got ins' flag')
  case Nil
  then show ?case by (auto split: if_splits)
next
  case (Cons e ins)
  show ?case
  proof (cases "n = 0")
    case True
    with Cons.prems show ?thesis by auto
  next
    case False
    show ?thesis
    proof (cases e)
      case (Data bs)
      show ?thesis
      proof (cases "n < length bs")
        case True
        with Cons.prems False Data show ?thesis by auto
      next
        case less: False
        with Cons.prems False Data obtain got1 where got: "got = bs @ got1"
          and rest: "read_loop timed (n - length bs) ins flag = Some (ok, got1, ins', flag')"
          by (auto simp: bind_eq_Some_conv)
        from Cons.IH [OF rest] less Data got show ?thesis by auto
      qed
    next
      case Interrupted
      with Cons.prems False have "read_loop timed n ins flag = Some (ok, got, ins', flag')" by simp
      from Cons.IH [OF this] Interrupted show ?thesis by simp
    next
      case Signalled
      with Cons.prems False have "read_loop timed n ins True = Some (ok, got, ins', flag')" by simp
      from Cons.IH [OF this] Signalled show ?thesis by simp
    next
      case Timed_out
      show ?thesis
      proof (cases timed)
        case True
        with Cons.prems False Timed_out show ?thesis by auto
      next
        case untimed: False
        with Cons.prems False Timed_out have "read_loop timed n ins flag = Some (ok, got, ins', flag')" by simp
        from Cons.IH [OF this] Timed_out show ?thesis by simp
      qed
    qed (use Cons.prems False in auto)
  qed
qed

lemma read_loop_complete:
  assumes "clean ins" and "n \<le> length (input_bytes ins)"
  shows "\<exists>ins' flag'. read_loop timed n ins flag = Some (True, take n (input_bytes ins), ins', flag')"
  using assms
proof (induction ins arbitrary: n flag)
  case (Cons e ins)
  show ?case
  proof (cases "n = 0")
    case False
    show ?thesis
    proof (cases e)
      case (Data bs)
      show ?thesis
      proof (cases "n < length bs")
        case False
        with Cons.prems Data have "clean ins" "n - length bs \<le> length (input_bytes ins)" by simp_all
        from Cons.IH [OF this, of flag] False \<open>n \<noteq> 0\<close> Data show ?thesis by auto
      qed (use False Data in simp)
    next
      case Interrupted
      with Cons.prems Cons.IH [of n flag] False show ?thesis by simp
    next
      case Signalled
      with Cons.prems Cons.IH [of n True] False show ?thesis by simp
    qed (use Cons.prems in simp_all)
  qed simp
qed simp

section \<open>Correctness of writing\<close>

text \<open>\<open>written fd io\<close>: the bytes that the calls in a log really wrote to a descriptor.\<close>

fun written :: "int \<Rightarrow> io_log \<Rightarrow> u8 list" where
  "written fd [] = []"
| "written fd (Write fd' buf n # io) = (if fd' = fd then take (nat n) buf else []) @ written fd io"
| "written fd (e # io) = written fd io"

lemma written_append [simp]: "written fd (io @ io') = written fd io @ written fd io'"
  by (induction fd io rule: written.induct) simp_all

text \<open>
  \<open>sent_to path F io\<close>: the bytes that a log writes to the FIFO at a path, if before it exactly the
  descriptors of \<open>F\<close> are open on it; \<open>open_on path F io\<close> are the ones open after it.
\<close>

fun opened_on :: "string \<Rightarrow> int set \<Rightarrow> string \<Rightarrow> int \<Rightarrow> int set" where
  "opened_on path F p fd = (if fd < 0 then F else if p = path then insert fd F else F - {fd})"

fun open_on :: "string \<Rightarrow> int set \<Rightarrow> io_log \<Rightarrow> int set" where
  "open_on path F [] = F"
| "open_on path F (Open_wr p fd # io) = open_on path (opened_on path F p fd) io"
| "open_on path F (Open_wr_nb p fd # io) = open_on path (opened_on path F p fd) io"
| "open_on path F (Open_rdwr p fd # io) = open_on path (opened_on path F p fd) io"
| "open_on path F (Open_rd_nb p fd # io) = open_on path (opened_on path F p fd) io"
| "open_on path F (Close fd # io) = open_on path (F - {fd}) io"
| "open_on path F (e # io) = open_on path F io"

fun sent_to :: "string \<Rightarrow> int set \<Rightarrow> io_log \<Rightarrow> u8 list" where
  "sent_to path F [] = []"
| "sent_to path F (Write fd buf n # io) = (if fd \<in> F then take (nat n) buf else []) @ sent_to path F io"
| "sent_to path F (e # io) = sent_to path (open_on path F [e]) io"

lemma open_on_append [simp]: "open_on path F (io @ io') = open_on path (open_on path F io) io'"
  by (induction path F io rule: open_on.induct) simp_all

lemma sent_to_append [simp]:
  "sent_to path F (io @ io') = sent_to path F io @ sent_to path (open_on path F io) io'"
  by (induction path F io rule: sent_to.induct) simp_all

text \<open>A log that only writes to one descriptor.\<close>

definition only_writes :: "int \<Rightarrow> io_log \<Rightarrow> bool" where
  "only_writes fd io \<longleftrightarrow> (\<forall>e \<in> set io. \<exists>buf n. e = Write fd buf n)"

lemma only_writes_simps [simp]:
  "only_writes fd []" "only_writes fd (Write fd' buf n # io) \<longleftrightarrow> fd' = fd \<and> only_writes fd io"
  "only_writes fd (io @ io') \<longleftrightarrow> only_writes fd io \<and> only_writes fd io'"
  by (auto simp: only_writes_def)

lemma only_writes_sent:
  assumes "only_writes fd io"
  shows "open_on path F io = F" "fd \<in> F \<Longrightarrow> sent_to path F io = written fd io"
proof -
  have "open_on path F io = F \<and> (fd \<in> F \<longrightarrow> sent_to path F io = written fd io)"
    using assms
  proof (induction io)
    case (Cons e io)
    then obtain buf n where "e = Write fd buf n" "only_writes fd io" by (auto simp: only_writes_def)
    with Cons.IH show ?case by simp
  qed simp
  then show "open_on path F io = F" "fd \<in> F \<Longrightarrow> sent_to path F io = written fd io" by simp_all
qed

text \<open>A system makes progress if a write of something writes between one and all of its bytes.\<close>

definition writes_progress :: "os \<Rightarrow> bool" where
  "writes_progress os \<longleftrightarrow> (\<forall>io fd buf. buf \<noteq> [] \<longrightarrow>
     0 < os_write os io fd buf \<and> os_write os io fd buf \<le> int (length buf))"

lemma write_loop_correct:
  assumes "writes_progress os" and "sent \<le> length src"
  shows "\<exists>new. write_loop os fd src sent io = Some (True, io @ new) \<and> written fd new = drop sent src
    \<and> only_writes fd new"
  using assms(2)
proof (induction "length src - sent" arbitrary: sent io rule: less_induct)
  case less
  show ?case
  proof (cases "sent < length src")
    case False
    with less.prems show ?thesis by (simp add: write_loop.simps)
  next
    case True
    let ?buf = "drop sent src"
    let ?n = "os_write os io fd ?buf"
    have "?buf \<noteq> []" using True by simp
    then have n: "0 < ?n" "?n \<le> int (length ?buf)"
      using assms(1) unfolding writes_progress_def by blast+
    then have bounds: "length src - (sent + nat ?n) < length src - sent" "sent + nat ?n \<le> length src"
      using True by auto
    from less.hyps [OF this, of "io @ [Write fd ?buf ?n]"] obtain new
      where "write_loop os fd src (sent + nat ?n) (io @ [Write fd ?buf ?n]) = Some (True, io @ [Write fd ?buf ?n] @ new)"
        and "written fd new = drop (sent + nat ?n) src" and "only_writes fd new" by auto
    moreover have "take (nat ?n) ?buf @ drop (sent + nat ?n) src = ?buf"
      by (metis append_take_drop_id drop_drop add.commute)
    ultimately show ?thesis
      using True n by (intro exI [of _ "[Write fd ?buf ?n] @ new"])
        (simp add: write_loop.simps [of os fd src sent] sys_write_def Let_def)
  qed
qed

text \<open>Whatever the system does: if the answer is \<^verbatim>\<open>true\<close>, exactly the buffer was written.\<close>

definition writes_bounded :: "os \<Rightarrow> bool" where
  "writes_bounded os \<longleftrightarrow> (\<forall>io fd buf. os_write os io fd buf \<le> int (length buf))"

lemma write_loop_sound:
  "write_loop os fd src sent io = Some r \<Longrightarrow> writes_bounded os \<Longrightarrow> sent \<le> length src \<Longrightarrow>
     \<exists>new. snd r = io @ new \<and> prefix (written fd new) (drop sent src) \<and> (fst r \<longrightarrow> written fd new = drop sent src)"
proof (induction rule: write_loop.raw_induct [rotated, consumes 1])
  case (1 f os fd src sent io r)
  let ?n = "os_write os io fd (drop sent src)"
  let ?io1 = "io @ [Write fd (drop sent src) ?n]"
  note step = 1(2) [unfolded sys_write_def Let_def fst_conv snd_conv]
  show ?case
  proof (cases "sent < length src")
    case False
    with step 1(4) show ?thesis by auto
  next
    case True
    have n: "?n \<le> int (length src - sent)"
      using 1(3) by (simp add: writes_bounded_def flip: length_drop)
    show ?thesis
    proof (cases "?n < 0")
      case neg: True
      show ?thesis
      proof (cases "os_errno os ?io1 = EINTR")
        case eintr: True
        with step True neg have "f os fd src sent ?io1 = Some r" by simp
        from 1(1) [OF this 1(3,4)] neg show ?thesis by (auto intro: exI [of _ "Write _ _ _ # _"])
      qed (use step True neg in auto)
    next
      case False
      with step True have rec: "f os fd src (sent + nat ?n) ?io1 = Some r" by simp
      have le: "sent + nat ?n \<le> length src" using n True by linarith
      from 1(1) [OF rec 1(3) le] obtain new where new: "snd r = ?io1 @ new"
        "prefix (written fd new) (drop (sent + nat ?n) src)"
        "fst r \<longrightarrow> written fd new = drop (sent + nat ?n) src" by blast
      have split: "take (nat ?n) (drop sent src) @ drop (sent + nat ?n) src = drop sent src"
        by (metis append_take_drop_id drop_drop add.commute)
      from new(2) have "prefix (take (nat ?n) (drop sent src) @ written fd new) (drop sent src)"
        by (subst split [symmetric]) simp
      with new split show ?thesis by (intro exI [of _ "Write fd (drop sent src) ?n # new"]) auto
    qed
  qed
qed

section \<open>Opening terminates\<close>

text \<open>The clock never runs backwards, and a sleep lasts at least as long as it was asked to.\<close>

definition clock_runs :: "os \<Rightarrow> bool" where
  "clock_runs os \<longleftrightarrow> (\<forall>io e. os_clock os io \<le> os_clock os (io @ [e]))
     \<and> (\<forall>io ms. os_clock os io + ms \<le> os_clock os (io @ [Sleep ms]))"

lemma open_loop_terminates:
  assumes "clock_runs os"
  shows "\<exists>w io'. open_loop os path start timeout io = Some (w, io')"
proof (induction "start + timeout - os_clock os io" arbitrary: io rule: less_induct)
  case less
  let ?io1 = "io @ [Open_wr_nb path (os_open_wr_nb os io path)]"
  show ?case
  proof (cases "os_open_wr_nb os io path \<ge> 0
      \<or> os_errno os ?io1 \<noteq> ENXIO \<and> os_errno os ?io1 \<noteq> ENOENT \<or> start + timeout \<le> os_clock os ?io1")
    case True
    then show ?thesis by (auto simp: open_loop.simps [of os path start timeout io] sys_open_wr_nb_def Let_def)
  next
    case False
    have "os_clock os io \<le> os_clock os ?io1" "os_clock os ?io1 + 20 \<le> os_clock os (?io1 @ [Sleep 20])"
      using assms unfolding clock_runs_def by blast+
    with False have "start + timeout - os_clock os (?io1 @ [Sleep 20]) < start + timeout - os_clock os io"
      by linarith
    from less.hyps [OF this] False show ?thesis
      by (auto simp: open_loop.simps [of os path start timeout io] sys_open_wr_nb_def sys_sleep_def Let_def)
  qed
qed

lemma open_loop_open:
  assumes "os_open_wr_nb os io path \<ge> 0"
  shows "open_loop os path start timeout io = Some (\<lparr>writer_fd = os_open_wr_nb os io path, writer_path = path\<rparr>,
    io @ [Open_wr_nb path (os_open_wr_nb os io path), Set_blocking (os_open_wr_nb os io path)])"
  using assms by (simp add: open_loop.simps sys_open_wr_nb_def sys_set_blocking_def Let_def)

section \<open>Properties\<close>

text \<open>
  C25: \<^verbatim>\<open>read_exact\<close> takes the bytes that arrive in their order, however they are cut, interrupted or
  timed out: what it stored and what is left make up what arrived, and \<^verbatim>\<open>true\<close> means that all the bytes
  asked for were stored. It answers \<^verbatim>\<open>true\<close> if enough bytes arrive and no call fails or times out.
\<close>

theorem FifoReader_read_exact_stream:
  assumes "FifoReader_is_open r"
  shows "(\<forall>ok got ins' flag'. FifoReader_read_exact r n timeout_ms ins flag = Some (ok, got, ins', flag') \<longrightarrow>
      input_bytes ins = got @ input_bytes ins' \<and> length got \<le> n \<and> (ok \<longrightarrow> length got = n))
    \<and> (clean ins \<and> n \<le> length (input_bytes ins) \<longrightarrow> (\<exists>ins' flag'.
      FifoReader_read_exact r n timeout_ms ins flag = Some (True, take n (input_bytes ins), ins', flag')))"
proof -
  have "FifoReader_read_exact r n timeout_ms ins flag = read_loop (timeout_ms \<ge> 0) n ins flag"
    using assms by (simp add: FifoReader_read_exact_def FifoReader_is_open_def)
  then show ?thesis using read_loop_sound [of "timeout_ms \<ge> 0" n ins flag] read_loop_complete [of ins n] by auto
qed

theorem FifoReader_read_exact_stream_witness:
  "\<exists>ins' flag'. FifoReader_read_exact \<lparr>reader_fd = 3, reader_path = ''p''\<rparr> 3 1000
     [Data [1, 2], Interrupted, Data [3, 4]] False = Some (True, [1, 2, 3], ins', flag')"
  using FifoReader_read_exact_stream [of "\<lparr>reader_fd = 3, reader_path = ''p''\<rparr>" 3 1000
      "[Data [1, 2], Interrupted, Data [3, 4]]" False]
  by (simp add: FifoReader_is_open_def)

text \<open>
  C26: \<^verbatim>\<open>write_exact\<close> never writes anything but the first bytes of its buffer, in order and once each,
  whatever short writes, interruptions and errors the system answers; \<^verbatim>\<open>true\<close> means all of them. The
  only assumption is that a write does not report more bytes than it was given.
\<close>

theorem FifoWriter_write_exact_stream:
  assumes "writes_bounded os" and "FifoWriter_write_exact os w src io = Some (ok, io')"
  shows "\<exists>new. io' = io @ new \<and> prefix (written (writer_fd w) new) src \<and> (ok \<longrightarrow> written (writer_fd w) new = src)"
  using write_loop_sound [of os "writer_fd w" src 0 io "(ok, io')"] assms
  by (auto simp: FifoWriter_write_exact_def split: if_splits)

theorem FifoWriter_write_exact_stream_witness:
  "\<exists>io'. FifoWriter_write_exact sample_os \<lparr>writer_fd = 3, writer_path = ''p''\<rparr> [1, 2] [] = Some (True, io')
     \<and> written 3 io' = [1, 2]"
proof -
  have bounded: "writes_bounded sample_os" by (simp add: writes_bounded_def sample_os_def)
  have "FifoWriter_write_exact sample_os \<lparr>writer_fd = 3, writer_path = ''p''\<rparr> [1, 2] [] = Some (True, [Write 3 [1, 2] 2])"
    by (simp add: FifoWriter_write_exact_def write_loop.simps sys_write_def sample_os_def)
  from FifoWriter_write_exact_stream [OF bounded this] this show ?thesis by auto
qed

text \<open>
  Opening ends, with an open or a closed writer, whatever the system answers: the deadline is
  reached because the clock runs.
\<close>

lemma FifoWriter_open_terminates:
  assumes "clock_runs os"
  shows "\<exists>w io'. FifoWriter_open os path timeout io = Some (w, io')"
  by (simp add: FifoWriter_open_def open_loop_terminates [OF assms])

end
