(* ===== verification/Client.thy ===== *)
theory Client
  imports Client_Command Protocol_Codec Fifo
begin

text \<open>
  The client: \<^verbatim>\<open>ipc_exchange\<close>, \<^verbatim>\<open>message_output\<close>, \<^verbatim>\<open>management_command\<close>, \<^verbatim>\<open>producer_command\<close> and
  \<^verbatim>\<open>subscriber_command\<close> in \<^verbatim>\<open>src/client/\<close>. The process is a record: its log of system calls, what
  will arrive at its FIFO, the shutdown flag of \<^verbatim>\<open>shutdown_signal.cpp\<close>, and its standard streams.
  Its identifier is the parameter \<open>pid\<close>. A command yields its exit code; it has no result while it
  still waits or if it loops for ever. Objects on the stack are destroyed in reverse order on every
  return.
\<close>

section \<open>The process\<close>

record client =
  cl_io :: io_log
  cl_input :: "input list"
  cl_shutdown :: bool
  cl_stdin :: string
  cl_stdin_fails :: bool   \<comment> \<open>the input ends with an error, not at the end of the file\<close>
  cl_out :: string
  cl_out_good :: bool      \<comment> \<open>\<^verbatim>\<open>std::cout\<close> takes what is written\<close>
  cl_err :: string

abbreviation newline :: char where
  "newline \<equiv> CHR 0x0A"

definition cerr :: "string \<Rightarrow> client \<Rightarrow> client" where
  "cerr line s = s\<lparr>cl_err := cl_err s @ line @ [newline]\<rparr>"

text \<open>Output to a stream that fails is lost.\<close>

definition cout :: "string \<Rightarrow> client \<Rightarrow> client" where
  "cout txt s = (if cl_out_good s then s\<lparr>cl_out := cl_out s @ txt\<rparr> else s)"

text \<open>
  \<^verbatim>\<open>client/src/shutdown_signal.cpp\<close>: the handler, its installation with the signals that are caught
  afterwards, and the flag.
\<close>

definition request_shutdown :: "client \<Rightarrow> client" where
  [simp]: "request_shutdown s = s\<lparr>cl_shutdown := True\<rparr>"

definition install_shutdown_handlers :: "os \<Rightarrow> bool \<times> signal list" where
  "install_shutdown_handlers os =
     (if os_sigaction os SIGINT = - 1 then (False, [])
      else if os_sigaction os SIGTERM = - 1 then (False, [SIGINT])
      else (True, [SIGINT, SIGTERM]))"

definition shutdown_requested :: "client \<Rightarrow> bool" where
  [simp]: "shutdown_requested s = cl_shutdown s"

definition reset_shutdown_request_for_tests :: "client \<Rightarrow> client" where
  "reset_shutdown_request_for_tests s = s\<lparr>cl_shutdown := False\<rparr>"

definition destroy :: "fifo_reader \<Rightarrow> fifo_writer \<Rightarrow> client \<Rightarrow> client" where
  "destroy reader writer s =
     s\<lparr>cl_io := FifoReader_delete reader (FifoWriter_delete writer (cl_io s))\<rparr>"

definition client_read ::
    "fifo_reader \<Rightarrow> nat \<Rightarrow> int \<Rightarrow> client \<Rightarrow> (bool \<times> u8 list \<times> client) option" where
  "client_read reader n timeout_ms s = do {
     (ok, got, ins, flag) \<leftarrow> FifoReader_read_exact reader n timeout_ms (cl_input s) (cl_shutdown s);
     Some (ok, got, s\<lparr>cl_input := ins, cl_shutdown := flag\<rparr>) }"

definition client_write :: "os \<Rightarrow> fifo_writer \<Rightarrow> u8 list \<Rightarrow> client \<Rightarrow> (bool \<times> client) option" where
  "client_write os writer src s = do {
     (ok, io) \<leftarrow> FifoWriter_write_exact os writer src (cl_io s);
     Some (ok, s\<lparr>cl_io := io\<rparr>) }"

section \<open>Messages on the standard streams\<close>

definition format_text_message :: "string \<Rightarrow> string \<Rightarrow> string" where
  "format_text_message key val = key @ '':'' @ val @ [newline]"

definition write_little_endian_int32 :: "u32 \<Rightarrow> client \<Rightarrow> bool \<times> client" where
  "write_little_endian_int32 number s =
     (let octets = [ucast (number AND 0xFF), ucast (drop_bit 8 number AND 0xFF),
                    ucast (drop_bit 16 number AND 0xFF), ucast (drop_bit 24 number AND 0xFF)]
      in (cl_out_good s, cout (chars octets) s))"

definition can_encode_size :: "nat \<Rightarrow> bool" where
  "can_encode_size n \<longleftrightarrow> n \<le> 2147483647"

definition write_raw_message :: "u32 \<Rightarrow> string \<Rightarrow> string \<Rightarrow> client \<Rightarrow> bool \<times> client" where
  "write_raw_message offset key val s =
     (if \<not> can_encode_size (length key) \<or> \<not> can_encode_size (length val) then (False, s)
      else let (ok, s) = write_little_endian_int32 offset s in
      if \<not> ok then (False, s)
      else let (ok, s) = write_little_endian_int32 (word_of_nat (length key)) s in
      if \<not> ok then (False, s)
      else let s = cout key s in
      if \<not> cl_out_good s then (False, s)
      else let (ok, s) = write_little_endian_int32 (word_of_nat (length val)) s in
      if \<not> ok then (False, s)
      else let s = cout val s in (cl_out_good s, s))"

definition write_output :: "u8 list \<Rightarrow> client \<Rightarrow> client" where
  "write_output payload s =
     cout [newline] (if payload \<noteq> [] then cout (chars payload) s else s)"

definition write_error :: "u8 list \<Rightarrow> client \<Rightarrow> client" where
  "write_error payload s =
     (if payload = [] then cerr ''server returned an error'' s else cerr (chars payload) s)"

section \<open>A request and its response\<close>

datatype exchange_status = Complete | ServerUnavailable | CommunicationError | InvalidResponse

record exchange_result =
  ex_status :: exchange_status
  ex_code :: status_code
  ex_payload :: "u8 list"

definition ended_with :: "exchange_status \<Rightarrow> exchange_result" where
  "ended_with st = \<lparr>ex_status = st, ex_code = SUCCESS, ex_payload = []\<rparr>"

definition read_response :: "fifo_reader \<Rightarrow> client \<Rightarrow> (exchange_result \<times> client) option" where
  "read_response reader s = do {
     (ok, header_buf, s) \<leftarrow> client_read reader 5 2000 s;
     if \<not> ok then Some (ended_with CommunicationError, s)
     else do {
       r \<leftarrow> parse_response_header header_buf;
       case r of
         Rejected \<Rightarrow> Some (ended_with InvalidResponse, s)
       | Parsed header \<Rightarrow>
           if response_payload_len header > 0
           then do {
             (ok, payload, s) \<leftarrow> client_read reader (unat (response_payload_len header)) 2000 s;
             if \<not> ok then Some (ended_with CommunicationError, s)
             else Some (\<lparr>ex_status = Complete, ex_code = status_code header, ex_payload = payload\<rparr>, s) }
           else Some (\<lparr>ex_status = Complete, ex_code = status_code header, ex_payload = []\<rparr>, s) } }"

definition exchange_request ::
    "os \<Rightarrow> string \<Rightarrow> u32 \<Rightarrow> u8 list \<Rightarrow> client \<Rightarrow> (exchange_result \<times> client) option" where
  "exchange_request os server_fifo pid request s =
     (let (reader, io) = FifoReader_create os (client_fifo_path pid) True (cl_io s);
          s = s\<lparr>cl_io := io\<rparr>
      in if \<not> FifoReader_is_open reader
         then Some (ended_with CommunicationError, destroy reader FifoWriter_default s)
         else do {
           (writer, io) \<leftarrow> FifoWriter_open os server_fifo 2000 (cl_io s);
           let s = s\<lparr>cl_io := io\<rparr>;
           if \<not> FifoWriter_is_open writer
           then Some (ended_with ServerUnavailable, destroy reader writer s)
           else do {
             (ok, s) \<leftarrow> client_write os writer request s;
             if \<not> ok then Some (ended_with CommunicationError, destroy reader writer s)
             else do {
               let (writer, io) = FifoWriter_close writer (cl_io s);
               (result, s) \<leftarrow> read_response reader (s\<lparr>cl_io := io\<rparr>);
               Some (result, destroy reader writer s) } } })"

section \<open>Management commands\<close>

text \<open>The three tests that every command makes on the result of its exchange.\<close>

definition exchange_failed :: "exchange_result \<Rightarrow> client \<Rightarrow> (int \<times> client) option" where
  "exchange_failed exchange s =
     (if ex_status exchange = ServerUnavailable then Some (1, cerr ''failed to connect to server FIFO'' s)
      else if ex_status exchange = CommunicationError then Some (3, cerr ''IPC communication error'' s)
      else if ex_status exchange = InvalidResponse then Some (3, cerr ''invalid response from server'' s)
      else None)"

definition execute_create_command :: "os \<Rightarrow> u32 \<Rightarrow> command \<Rightarrow> client \<Rightarrow> (int \<times> client) option" where
  "execute_create_command os pid cmd s = do {
     let request = serialize_create pid (cmd_topic cmd);
     (exchange, s) \<leftarrow> exchange_request os (cmd_ipc_identifier cmd) pid request s;
     case exchange_failed exchange s of
       Some r \<Rightarrow> Some r
     | None \<Rightarrow>
         let exit_code = uint (status_byte (ex_code exchange))
         in if exit_code \<noteq> 0 then Some (exit_code, write_error (ex_payload exchange) s)
            else Some (0, cout (''topic created'' @ [newline]) s) }"

definition execute_list_command :: "os \<Rightarrow> u32 \<Rightarrow> command \<Rightarrow> client \<Rightarrow> (int \<times> client) option" where
  "execute_list_command os pid cmd s = do {
     let request = serialize_list pid;
     (exchange, s) \<leftarrow> exchange_request os (cmd_ipc_identifier cmd) pid request s;
     case exchange_failed exchange s of
       Some r \<Rightarrow> Some r
     | None \<Rightarrow>
         let exit_code = uint (status_byte (ex_code exchange))
         in if exit_code \<noteq> 0 then Some (exit_code, write_error (ex_payload exchange) s)
            else Some (0, write_output (ex_payload exchange) s) }"

definition execute_info_command :: "os \<Rightarrow> u32 \<Rightarrow> command \<Rightarrow> client \<Rightarrow> (int \<times> client) option" where
  "execute_info_command os pid cmd s = do {
     let request = serialize_info pid (cmd_subscriber cmd);
     (exchange, s) \<leftarrow> exchange_request os (cmd_ipc_identifier cmd) pid request s;
     case exchange_failed exchange s of
       Some r \<Rightarrow> Some r
     | None \<Rightarrow>
         let exit_code = uint (status_byte (ex_code exchange))
         in if exit_code \<noteq> 0 then Some (exit_code, write_error (ex_payload exchange) s)
            else Some (0, write_output (ex_payload exchange) s) }"

section \<open>The producer\<close>

text \<open>
  \<^verbatim>\<open>std::getline\<close>, and \<^verbatim>\<open>line.find(':')\<close>. A last line without a newline is a line, unless the input
  ends with an error.
\<close>

definition getline :: "bool \<Rightarrow> string \<Rightarrow> (string \<times> string) option" where
  "getline fails inp = (if inp = [] \<or> fails \<and> newline \<notin> set inp then None
     else let line = takeWhile (\<lambda>c. c \<noteq> newline) inp in Some (line, drop (Suc (length line)) inp))"

definition find_char :: "char \<Rightarrow> string \<Rightarrow> nat option" where
  "find_char c line = (let n = length (takeWhile (\<lambda>d. d \<noteq> c) line)
     in if n < length line then Some n else None)"

lemma getline_shorter [termination_simp]: "getline fails inp = Some (line, rest) \<Longrightarrow> length rest < length inp"
  by (auto simp: getline_def Let_def split: if_splits)

definition payload_error :: string where
  "payload_error = ''message key and body exceed 1024 bytes''"

function publish_text :: "os \<Rightarrow> string \<Rightarrow> fifo_writer \<Rightarrow> client \<Rightarrow> (int \<times> client) option" where
  "publish_text os topic writer s =
     (case getline (cl_stdin_fails s) (cl_stdin s) of
        None \<Rightarrow> if cl_stdin_fails s then Some (1, cerr ''failed to read text input'' s) else Some (0, s)
      | Some (line, rest) \<Rightarrow>
          (case find_char CHR '':'' line of
             None \<Rightarrow> Some (1, cerr ''text message must contain ':' between key and body'' (s\<lparr>cl_stdin := rest\<rparr>))
           | Some separator \<Rightarrow>
               if length (take separator line) > MAX_PAYLOAD_SIZE
                 \<or> length (drop (separator + 1) line) > MAX_PAYLOAD_SIZE - length (take separator line)
               then Some (1, cerr payload_error (s\<lparr>cl_stdin := rest\<rparr>))
               else (case FifoWriter_write_exact os writer
                            (serialize_produce topic (take separator line) (drop (separator + 1) line)) (cl_io s) of
                       None \<Rightarrow> None
                     | Some (ok, io) \<Rightarrow>
                         if \<not> ok then Some (3, cerr ''IPC communication error'' (s\<lparr>cl_stdin := rest, cl_io := io\<rparr>))
                         else publish_text os topic writer (s\<lparr>cl_stdin := rest, cl_io := io\<rparr>))))"
  by pat_completeness auto
termination
  by (relation "measure (\<lambda>(_, _, _, s). length (cl_stdin s))") (auto simp: getline_shorter)

declare publish_text.simps [simp del]

datatype integer_read = Int_ok u32 | Int_end_of_file | Int_partial

definition read_little_endian_int32 :: "client \<Rightarrow> integer_read \<times> client" where
  "read_little_endian_int32 s =
     (case read_uint32_le (bytes (cl_stdin s)) of
        Some number \<Rightarrow> (Int_ok number, s\<lparr>cl_stdin := drop 4 (cl_stdin s)\<rparr>)
      | None \<Rightarrow> if cl_stdin s = [] \<and> \<not> cl_stdin_fails s then (Int_end_of_file, s)
                else (Int_partial, s\<lparr>cl_stdin := []\<rparr>))"

definition stdin_read_exact :: "nat \<Rightarrow> client \<Rightarrow> (string \<times> client) option" where
  "stdin_read_exact n s =
     (if n \<le> length (cl_stdin s)
      then Some (take n (cl_stdin s), s\<lparr>cl_stdin := drop n (cl_stdin s)\<rparr>) else None)"

text \<open>One turn of the loop of \<^verbatim>\<open>execute_publish_raw\<close>: \<open>Inl\<close> a return, \<open>Inr\<close> the next turn.\<close>

definition publish_raw_record ::
    "os \<Rightarrow> string \<Rightarrow> fifo_writer \<Rightarrow> client \<Rightarrow> ((int \<times> client) + client) option" where
  "publish_raw_record os topic writer s =
     (let partial_error = (\<lambda>s. Some (Inl (1, cerr ''partial raw record at EOF'' s)))
      in case read_little_endian_int32 s of
        (Int_end_of_file, s) \<Rightarrow> Some (Inl (0, s))
      | (Int_partial, s) \<Rightarrow> partial_error s
      | (Int_ok encoded_key_size, s) \<Rightarrow>
          if unat encoded_key_size > MAX_PAYLOAD_SIZE then Some (Inl (1, cerr payload_error s))
          else (case stdin_read_exact (unat encoded_key_size) s of
            None \<Rightarrow> partial_error (s\<lparr>cl_stdin := []\<rparr>)
          | Some (key, s) \<Rightarrow>
            (case read_little_endian_int32 s of
              (Int_end_of_file, s) \<Rightarrow> partial_error s
            | (Int_partial, s) \<Rightarrow> partial_error s
            | (Int_ok encoded_val_size, s) \<Rightarrow>
                if unat encoded_val_size > MAX_PAYLOAD_SIZE - unat encoded_key_size
                then Some (Inl (1, cerr payload_error s))
                else (case stdin_read_exact (unat encoded_val_size) s of
                  None \<Rightarrow> partial_error (s\<lparr>cl_stdin := []\<rparr>)
                | Some (val, s) \<Rightarrow> do {
                    (ok, s) \<leftarrow> client_write os writer (serialize_produce topic key val) s;
                    if \<not> ok then Some (Inl (3, cerr ''IPC communication error'' s)) else Some (Inr s) }))))"

lemma read_integer_shorter:
  "read_little_endian_int32 s = (Int_ok n, s') \<Longrightarrow> length (cl_stdin s') < length (cl_stdin s)"
  by (auto simp: read_little_endian_int32_def split: option.splits if_splits dest: read_uint32_le_SomeD)

lemma stdin_read_shorter:
  "stdin_read_exact n s = Some (val, s') \<Longrightarrow> length (cl_stdin s') \<le> length (cl_stdin s)"
  by (auto simp: stdin_read_exact_def split: if_splits)

lemma publish_raw_record_shorter:
  assumes "publish_raw_record os topic writer s = Some (Inr s')"
  shows "length (cl_stdin s') < length (cl_stdin s)"
proof -
  from assms obtain k s1 key s2 v s3 val s4
    where parts: "read_little_endian_int32 s = (Int_ok k, s1)" "stdin_read_exact (unat k) s1 = Some (key, s2)"
      "read_little_endian_int32 s2 = (Int_ok v, s3)" "stdin_read_exact (unat v) s3 = Some (val, s4)"
      and "cl_stdin s' = cl_stdin s4"
    by (auto simp: publish_raw_record_def client_write_def bind_eq_Some_conv
      split: prod.splits integer_read.splits if_splits option.splits)
  with read_integer_shorter [OF parts(1)] stdin_read_shorter [OF parts(2)]
    read_integer_shorter [OF parts(3)] stdin_read_shorter [OF parts(4)] show ?thesis by simp
qed

function publish_raw :: "os \<Rightarrow> string \<Rightarrow> fifo_writer \<Rightarrow> client \<Rightarrow> (int \<times> client) option" where
  "publish_raw os topic writer s =
     (case publish_raw_record os topic writer s of
        None \<Rightarrow> None
      | Some (Inl r) \<Rightarrow> Some r
      | Some (Inr s) \<Rightarrow> publish_raw os topic writer s)"
  by pat_completeness auto
termination
  by (relation "measure (\<lambda>(_, _, _, s). length (cl_stdin s))") (auto simp: publish_raw_record_shorter)

declare publish_raw.simps [simp del]

definition execute_connect_command :: "os \<Rightarrow> u32 \<Rightarrow> command \<Rightarrow> client \<Rightarrow> (int \<times> client) option" where
  "execute_connect_command os pid cmd s = do {
     let request = serialize_connect pid (cmd_topic cmd);
     (exchange, s) \<leftarrow> exchange_request os (cmd_ipc_identifier cmd) pid request s;
     case exchange_failed exchange s of
       Some r \<Rightarrow> Some r
     | None \<Rightarrow>
         let exit_code = exit_code_from_response_code (status_byte (ex_code exchange))
         in if exit_code \<noteq> 0 then Some (exit_code, write_error (ex_payload exchange) s) else Some (0, s) }"

definition execute_producer_command :: "os \<Rightarrow> u32 \<Rightarrow> command \<Rightarrow> client \<Rightarrow> (int \<times> client) option" where
  "execute_producer_command os pid cmd s = do {
     (connect_code, s) \<leftarrow> execute_connect_command os pid cmd s;
     if connect_code \<noteq> 0 then Some (connect_code, s)
     else do {
       (writer, io) \<leftarrow> FifoWriter_open os (cmd_ipc_identifier cmd) 2000 (cl_io s);
       let s = s\<lparr>cl_io := io\<rparr>;
       if \<not> FifoWriter_is_open writer
       then Some (1, destroy FifoReader_default writer (cerr ''failed to connect to server FIFO'' s))
       else do {
         (code, s) \<leftarrow> (if cmd_raw cmd then publish_raw os (cmd_topic cmd) writer s
                       else publish_text os (cmd_topic cmd) writer s);
         Some (code, destroy FifoReader_default writer s) } } }"

section \<open>The subscriber\<close>

text \<open>
  One delivery, from the header to the acknowledgement. The two lengths are added in 32 bits. As in
  the loop of the producer, \<open>Inl\<close> is a return and \<open>Inr\<close> the next turn.
\<close>

definition read_field :: "fifo_reader \<Rightarrow> u32 \<Rightarrow> client \<Rightarrow> (bool \<times> string \<times> client) option" where
  "read_field reader n s =
     (if n > 0 then do { (ok, got, s) \<leftarrow> client_read reader (unat n) 1000 s; Some (ok, chars got, s) }
      else Some (True, '''', s))"

definition print_delivery :: "bool \<Rightarrow> u32 \<Rightarrow> string \<Rightarrow> string \<Rightarrow> client \<Rightarrow> bool \<times> client" where
  "print_delivery raw offset key val s =
     (if raw then write_raw_message offset key val s else (True, cout (format_text_message key val) s))"

definition receive_delivery ::
    "os \<Rightarrow> command \<Rightarrow> fifo_reader \<Rightarrow> fifo_writer \<Rightarrow> client \<Rightarrow> ((int \<times> client) + client) option" where
  "receive_delivery os cmd reader writer s = do {
     let invalid = (\<lambda>s. Some (Inl (3, cerr ''invalid subscription message'' s)));
     (ok, delivery_hdr, s) \<leftarrow> client_read reader 12 1000 s;
     if \<not> ok then invalid s
     else do {
       offset \<leftarrow> read_uint32_le delivery_hdr;
       key_len \<leftarrow> read_uint32_le (drop 4 delivery_hdr);
       val_len \<leftarrow> read_uint32_le (drop 8 delivery_hdr);
       if is_shutdown offset then Some (Inl (0, s))
       else if unat (key_len + val_len) > MAX_PAYLOAD_SIZE then invalid s
       else do {
         (ok, key, s) \<leftarrow> read_field reader key_len s;
         if \<not> ok then invalid s
         else do {
           (ok, val, s) \<leftarrow> read_field reader val_len s;
           if \<not> ok then invalid s
           else let (ok, s) = print_delivery (cmd_raw cmd) offset key val s
             in if \<not> ok then Some (Inl (1, cerr ''failed to write subscriber output'' s))
             else do {
               (ok, s) \<leftarrow> client_write os writer (serialize_ack (cmd_subscriber cmd) (offset + 1)) s;
               if \<not> ok then Some (Inl (3, cerr ''IPC communication error'' s)) else Some (Inr s) } } } } }"

text \<open>One turn of the loop: the flag, the poll of 100 ms, and a delivery if something is there.\<close>

definition subscriber_turn ::
    "os \<Rightarrow> command \<Rightarrow> fifo_reader \<Rightarrow> fifo_writer \<Rightarrow> client \<Rightarrow> ((int \<times> client) + client) option" where
  "subscriber_turn os cmd reader writer s =
     (if shutdown_requested s
      then do {
        (_, s) \<leftarrow> client_write os writer (serialize_disconnect (cmd_subscriber cmd)) s;
        Some (Inl (0, s)) }
      else case cl_input s of
        [] \<Rightarrow> None
      | Interrupted # ins \<Rightarrow> Some (Inr (s\<lparr>cl_input := ins\<rparr>))
      | Signalled # ins \<Rightarrow> Some (Inr (request_shutdown (s\<lparr>cl_input := ins\<rparr>)))
      | Failed # ins \<Rightarrow> Some (Inl (3, s\<lparr>cl_input := ins\<rparr>))
      | Timed_out # ins \<Rightarrow> Some (Inr (s\<lparr>cl_input := ins\<rparr>))
      | _ \<Rightarrow> receive_delivery os cmd reader writer s)"

text \<open>Every turn that goes on takes something of the script.\<close>

fun input_weight :: "input list \<Rightarrow> nat" where
  "input_weight [] = 0"
| "input_weight (Data bs # ins) = Suc (length bs + input_weight ins)"
| "input_weight (e # ins) = Suc (input_weight ins)"

lemma read_loop_weight:
  "read_loop timed n ins flag = Some (ok, got, ins', flag') \<Longrightarrow>
     input_weight ins' \<le> input_weight ins \<and> (0 < n \<longrightarrow> input_weight ins' < input_weight ins)"
proof (induction ins arbitrary: timed n flag ok got ins' flag')
  case Nil
  then show ?case by (auto split: if_splits)
next
  case (Cons e ins)
  show ?case
  proof (cases "n = 0")
    case True
    with Cons.prems show ?thesis by auto
  next
    case False
    then show ?thesis
      using Cons.prems
      by (cases e) (auto simp: bind_eq_Some_conv split: if_splits dest!: Cons.IH)
  qed
qed

lemma client_read_weight:
  "client_read reader n timeout_ms s = Some (ok, got, s') \<Longrightarrow>
     input_weight (cl_input s') \<le> input_weight (cl_input s)
     \<and> (ok \<and> 0 < n \<longrightarrow> input_weight (cl_input s') < input_weight (cl_input s))"
  by (auto simp: client_read_def FifoReader_read_exact_def bind_eq_Some_conv split: if_splits
    dest: read_loop_weight)

lemma read_field_weight:
  "read_field reader n s = Some (ok, val, s') \<Longrightarrow> input_weight (cl_input s') \<le> input_weight (cl_input s)"
  by (auto simp: read_field_def bind_eq_Some_conv split: if_splits dest: client_read_weight)

lemma cout_input [simp]: "cl_input (cout txt s) = cl_input s" "cl_shutdown (cout txt s) = cl_shutdown s"
  "cl_io (cout txt s) = cl_io s" "cl_err (cout txt s) = cl_err s" "cl_stdin (cout txt s) = cl_stdin s"
  "cl_out_good (cout txt s) = cl_out_good s"
  by (simp_all add: cout_def)

lemma print_delivery_frame:
  "print_delivery raw offset key val s = (ok, s') \<Longrightarrow>
     cl_input s' = cl_input s \<and> cl_shutdown s' = cl_shutdown s \<and> cl_io s' = cl_io s"
  by (auto simp: print_delivery_def write_raw_message_def write_little_endian_int32_def Let_def
    split: if_splits)

lemma receive_delivery_weight:
  assumes "receive_delivery os cmd reader writer s = Some (Inr s')"
  shows "input_weight (cl_input s') < input_weight (cl_input s)"
proof -
  from assms obtain hdr s1 k key s2 v val s3 raw offset s4 where
    parts: "client_read reader 12 1000 s = Some (True, hdr, s1)"
      "read_field reader k s1 = Some (True, key, s2)" "read_field reader v s2 = Some (True, val, s3)"
      "print_delivery raw offset key val s3 = (True, s4)" and "cl_input s' = cl_input s4"
    by (auto simp: receive_delivery_def client_write_def Let_def bind_eq_Some_conv
      split: prod.splits if_splits)
  with client_read_weight [OF parts(1)] read_field_weight [OF parts(2)] read_field_weight [OF parts(3)]
    print_delivery_frame [OF parts(4)] show ?thesis by simp
qed

lemma subscriber_turn_decreases:
  assumes "subscriber_turn os cmd reader writer s = Some (Inr s')"
  shows "input_weight (cl_input s') < input_weight (cl_input s)"
proof (cases "cl_input s")
  case (Cons e ins)
  then show ?thesis
    using assms receive_delivery_weight [of os cmd reader writer s s']
    by (cases e) (auto simp: subscriber_turn_def bind_eq_Some_conv split: if_splits)
qed (use assms in \<open>auto simp: subscriber_turn_def bind_eq_Some_conv split: if_splits\<close>)

function subscriber_loop ::
    "os \<Rightarrow> command \<Rightarrow> fifo_reader \<Rightarrow> fifo_writer \<Rightarrow> client \<Rightarrow> (int \<times> client) option" where
  "subscriber_loop os cmd reader writer s =
     (case subscriber_turn os cmd reader writer s of
        None \<Rightarrow> None
      | Some (Inl r) \<Rightarrow> Some r
      | Some (Inr s) \<Rightarrow> subscriber_loop os cmd reader writer s)"
  by pat_completeness auto
termination
  by (relation "measure (\<lambda>(_, _, _, _, s). input_weight (cl_input s))")
    (auto simp: subscriber_turn_decreases)

declare subscriber_loop.simps [simp del]

text \<open>
  The handshake: \<open>Inl\<close> a return, \<open>Inr\<close> the loop. The payload of the answer is read but the success
  of the read is ignored, so that bytes which did not arrive are zero.
\<close>

definition subscriber_handshake :: "fifo_reader \<Rightarrow> client \<Rightarrow> ((int \<times> client) + client) option" where
  "subscriber_handshake reader s = do {
     let invalid = (\<lambda>s. Some (Inl (3, cerr ''invalid response from server'' s)));
     (ok, handshake_hdr, s) \<leftarrow> client_read reader 5 2000 s;
     if \<not> ok then invalid s
     else do {
       r \<leftarrow> parse_response_header handshake_hdr;
       case r of
         Rejected \<Rightarrow> invalid s
       | Parsed response_hdr \<Rightarrow>
           let code = exit_code_from_response_code (status_byte (status_code response_hdr));
               len = unat (response_payload_len response_hdr)
           in if len > 0
              then do {
                (_, got, s) \<leftarrow> client_read reader len 2000 s;
                let err_payload = got @ replicate (len - length got) 0;
                if status_code response_hdr \<noteq> SUCCESS then Some (Inl (code, write_error err_payload s))
                else Some (Inr s) }
              else if status_code response_hdr \<noteq> SUCCESS then Some (Inl (code, s))
              else Some (Inr s) } }"

definition execute_subscriber_command :: "os \<Rightarrow> u32 \<Rightarrow> command \<Rightarrow> client \<Rightarrow> (int \<times> client) option" where
  "execute_subscriber_command os pid cmd s =
     (let (reader, io) = FifoReader_create os (client_fifo_path pid) True (cl_io s);
          s = s\<lparr>cl_io := io\<rparr>
      in if \<not> FifoReader_is_open reader
         then Some (3, destroy reader FifoWriter_default (cerr ''IPC communication error'' s))
         else do {
           let requested_offset = (if cmd_has_offset cmd then cmd_offset cmd else OFFSET_UNSET);
           let request = serialize_subscribe pid (cmd_subscriber cmd) (cmd_topic cmd) (cmd_prefix cmd) requested_offset;
           (writer, io) \<leftarrow> FifoWriter_open os (cmd_ipc_identifier cmd) 2000 (cl_io s);
           let s = s\<lparr>cl_io := io\<rparr>;
           if \<not> FifoWriter_is_open writer
           then Some (1, destroy reader writer (cerr ''failed to connect to server FIFO'' s))
           else do {
             (ok, s) \<leftarrow> client_write os writer request s;
             if \<not> ok then Some (3, destroy reader writer (cerr ''IPC communication error'' s))
             else do {
               r \<leftarrow> subscriber_handshake reader s;
               (code, s) \<leftarrow> (case r of
                   Inl ret \<Rightarrow> Some ret
                 | Inr s \<Rightarrow> subscriber_loop os cmd reader writer s);
               Some (code, destroy reader writer s) } } })"

section \<open>The program\<close>

definition client_main :: "os \<Rightarrow> u32 \<Rightarrow> string list \<Rightarrow> client \<Rightarrow> (int \<times> client) option" where
  "client_main os pid argv s =
     (if \<not> fst (install_shutdown_handlers os)
      then Some (1, cerr ''failed to install shutdown signal handlers'' s)
      else case parse_command argv of
        Inl error \<Rightarrow> Some (1, cerr error s)
      | Inr cmd \<Rightarrow>
          if cmd_type cmd = CREATE then execute_create_command os pid cmd s
          else if cmd_type cmd = LIST then execute_list_command os pid cmd s
          else if cmd_type cmd = INFO then execute_info_command os pid cmd s
          else if cmd_type cmd = CONNECT then execute_producer_command os pid cmd s
          else execute_subscriber_command os pid cmd s)"

end
