(* ===== verification/Interfaces.thy ===== *)
theory Interfaces
  imports Prelude
begin

text \<open>
  The interfaces between the components, as locales. \<open>map_adt\<close> is what the trie, the topic and the
  server rely on in \<^verbatim>\<open>HashMap\<close>: a finite map with an iteration order. It is interpreted on the
  model of \<^verbatim>\<open>HashMap.hpp\<close> in \<open>Hash_Map\<close>. \<open>prefix_index\<close> is what the topic relies on in the trie,
  and \<open>turn_loop\<close> is the shape of the client's loops.
\<close>

section \<open>Finite maps with an iteration order\<close>

locale map_adt =
  fixes invar :: "'m \<Rightarrow> bool"
    and find :: "'m \<Rightarrow> 'k \<Rightarrow> 'v option"
    and entries :: "'m \<Rightarrow> ('k \<times> 'v) list"
    and count :: "'m \<Rightarrow> nat"
    and assign :: "'m \<Rightarrow> 'k \<Rightarrow> 'v \<Rightarrow> 'm"
    and delete :: "'m \<Rightarrow> 'k \<Rightarrow> 'm"
    and reset :: "'m \<Rightarrow> 'm"
  assumes distinct_entries: "invar m \<Longrightarrow> distinct (map fst (entries m))"
    and find_entries: "invar m \<Longrightarrow> find m k = map_of (entries m) k"
    and count_entries: "invar m \<Longrightarrow> count m = length (entries m)"
    and invar_assign: "invar m \<Longrightarrow> invar (assign m k v)"
    and find_assign: "invar m \<Longrightarrow> find (assign m k v) = (find m)(k \<mapsto> v)"
    and invar_delete: "invar m \<Longrightarrow> invar (delete m k)"
    and find_delete: "invar m \<Longrightarrow> find (delete m k) = (find m)(k := None)"
    and invar_reset: "invar m \<Longrightarrow> invar (reset m)"
    and find_reset: "invar m \<Longrightarrow> find (reset m) = Map.empty"
begin

lemma in_entries: "invar m \<Longrightarrow> (k, v) \<in> set (entries m) \<longleftrightarrow> find m k = Some v"
  by (simp add: find_entries distinct_entries)

lemma keys_entries: "invar m \<Longrightarrow> fst ` set (entries m) = dom (find m)"
  using dom_map_of_conv_image_fst [of "entries m"] by (auto simp: find_entries dom_def)

lemma finite_dom_find: "invar m \<Longrightarrow> finite (dom (find m))"
  by (simp flip: keys_entries)

lemma count_dom: "invar m \<Longrightarrow> count m = card (dom (find m))"
  using distinct_card [of "map fst (entries m)"]
  by (simp add: count_entries distinct_entries keys_entries)

lemma count_0_iff: "invar m \<Longrightarrow> count m = 0 \<longleftrightarrow> find m = Map.empty"
  by (simp add: count_dom finite_dom_find)

lemma count_assign:
  "invar m \<Longrightarrow> count (assign m k v) = (if find m k = None then Suc (count m) else count m)"
  by (auto simp: count_dom invar_assign find_assign finite_dom_find insert_absorb domIff)

lemma count_delete:
  "invar m \<Longrightarrow> count (delete m k) = (if find m k = None then count m else count m - 1)"
  by (auto simp: count_dom invar_delete find_delete finite_dom_find domIff)

lemma find_assign_same: "invar m \<Longrightarrow> find (assign m k v) k = Some v"
  by (simp add: find_assign)

lemma find_assign_other: "invar m \<Longrightarrow> k' \<noteq> k \<Longrightarrow> find (assign m k v) k' = find m k'"
  by (simp add: find_assign)

lemma find_delete_same: "invar m \<Longrightarrow> find (delete m k) k = None"
  by (simp add: find_delete)

lemma find_delete_other: "invar m \<Longrightarrow> k' \<noteq> k \<Longrightarrow> find (delete m k) k' = find m k'"
  by (simp add: find_delete)

lemma entries_permutation:
  assumes "invar m" and "invar m'" and "find m = find m'"
  shows "set (entries m) = set (entries m')"
  using assms by (auto simp: set_eq_iff in_entries)

end

section \<open>Subscriptions by key prefix\<close>

text \<open>
  \<open>prefix_index\<close> is what a topic relies on in its prefix tree: \<open>subs t q\<close> are the client
  identifiers registered under exactly \<open>q\<close>, in registration order. It is interpreted on the model
  of \<^verbatim>\<open>PrefixTree\<close> in \<open>Prefix_Tree\<close>. A removal or a match without a result would be a null
  dereference. \<open>registers S m\<close> says that the index \<open>S\<close> holds every client of the map \<open>m\<close> once,
  under its prefix, and nothing else.
\<close>

definition registers :: "(string \<Rightarrow> string list) \<Rightarrow> (string \<rightharpoonup> string) \<Rightarrow> bool" where
  "registers S m \<longleftrightarrow> (\<forall>q c. count_list (S q) c = (if m c = Some q then 1 else 0))"

lemma registers_empty [simp]: "registers (\<lambda>_. []) Map.empty"
  by (simp add: registers_def)

lemma registers_member: "registers S m \<Longrightarrow> c \<in> set (S q) \<longleftrightarrow> m c = Some q"
  using count_list_0_iff [of "S q" c] by (simp add: registers_def split: if_splits)

lemma count_list_remove1:
  "count_list (remove1 x xs) y = (if x = y then count_list xs y - 1 else count_list xs y)"
  by (induction xs) (auto simp: count_list_0_iff)

locale prefix_index =
  fixes ok :: "'t \<Rightarrow> bool"
    and subs :: "'t \<Rightarrow> string \<Rightarrow> string list"
    and add :: "'t \<Rightarrow> string \<Rightarrow> string \<Rightarrow> 't"
    and remove :: "'t \<Rightarrow> string \<Rightarrow> string \<Rightarrow> (bool \<times> 't) option"
    and match :: "'t \<Rightarrow> string \<Rightarrow> string list option"
    and reset :: "'t \<Rightarrow> 't"
  assumes ok_add: "ok t \<Longrightarrow> ok (add t p c)"
    and subs_add: "ok t \<Longrightarrow> subs (add t p c) = (subs t)(p := subs t p @ [c])"
    and remove_spec: "ok t \<Longrightarrow> \<exists>t'. remove t p c = Some (c \<in> set (subs t p), t') \<and> ok t'
        \<and> subs t' = (subs t)(p := remove1 c (subs t p))"
    and match_spec: "ok t \<Longrightarrow> match t k = Some (concat (map (subs t) (prefixes k)))"
    and ok_reset: "ok t \<Longrightarrow> ok (reset t)"
    and subs_reset: "ok t \<Longrightarrow> subs (reset t) = (\<lambda>_. [])"
begin

lemma match_member:
  assumes "ok t"
  shows "\<exists>r. match t k = Some r \<and> (\<forall>c. c \<in> set r \<longleftrightarrow> (\<exists>q. prefix q k \<and> c \<in> set (subs t q)))"
  using match_spec [OF assms, of k] by (auto simp: in_set_prefixes)

lemma match_registered:
  assumes "ok t" and "registers (subs t) m"
  shows "\<exists>r. match t k = Some r \<and> (\<forall>c. c \<in> set r \<longleftrightarrow> (\<exists>p. m c = Some p \<and> prefix p k))"
  using match_member [OF assms(1), of k] registers_member [OF assms(2)] by auto

lemma add_registers:
  assumes "ok t" and "registers (subs t) m" and "m c = None"
  shows "registers (subs (add t p c)) (m(c \<mapsto> p))"
  using assms(2,3) by (auto simp: registers_def subs_add [OF assms(1)] split: if_splits)

lemma remove_registers:
  assumes "ok t" and "registers (subs t) m" and "m c = Some p"
  shows "\<exists>t'. remove t p c = Some (True, t') \<and> ok t' \<and> registers (subs t') (m(c := None))"
proof -
  obtain t' where t': "remove t p c = Some (c \<in> set (subs t p), t')" "ok t'"
    and subs: "subs t' = (subs t)(p := remove1 c (subs t p))"
    using remove_spec [OF assms(1)] by blast
  have "c \<in> set (subs t p)" using assms by (simp add: registers_member)
  moreover have "registers (subs t') (m(c := None))"
    using assms(2,3) by (auto simp: registers_def subs count_list_remove1)
  ultimately show ?thesis using t' by simp
qed

lemma reset_registers: "ok t \<Longrightarrow> registers (subs (reset t)) Map.empty"
  by (simp add: subs_reset)

end

section \<open>Loops whose turns return or go on\<close>

text \<open>
  The loops of the client: a turn returns (\<open>Inl\<close>), goes on with a new state (\<open>Inr\<close>), or has no
  result. \<open>goes\<close> is one turn that goes on.
\<close>

locale turn_loop =
  fixes turn :: "'s \<Rightarrow> ('r + 's) option"
    and run :: "'s \<Rightarrow> 'r option"
  assumes run_turn: "run s = (case turn s of
      None \<Rightarrow> None | Some (Inl r) \<Rightarrow> Some r | Some (Inr s') \<Rightarrow> run s')"
begin

definition goes :: "'s \<Rightarrow> 's \<Rightarrow> bool" where
  "goes s s' \<longleftrightarrow> turn s = Some (Inr s')"

lemma goes_step: "turn s = Some (Inr s') \<Longrightarrow> goes\<^sup>*\<^sup>* s s'"
  by (auto simp: goes_def)

lemma run_goes: "goes\<^sup>*\<^sup>* s s' \<Longrightarrow> run s = run s'"
  by (induction rule: converse_rtranclp_induct) (auto simp: goes_def run_turn)

lemma run_returns: "goes\<^sup>*\<^sup>* s s' \<Longrightarrow> turn s' = Some (Inl r) \<Longrightarrow> run s = Some r"
  by (simp add: run_goes run_turn [of s'])

end

end
