(* ===== verification/Client_Correct.thy ===== *)
theory Client_Correct
  imports Client Interfaces
begin

text \<open>
  Correctness of the client: what a producer writes to the server's FIFO, what a subscriber prints
  and acknowledges, and what comes out of the exchange of a request for a response. The two loops
  are instances of the locale \<open>turn_loop\<close>.
\<close>

interpretation raw_loop: turn_loop "publish_raw_record os topic writer" "publish_raw os topic writer"
  for os topic writer
  by unfold_locales (rule publish_raw.simps)

interpretation sub_loop: turn_loop "subscriber_turn os cmd reader writer" "subscriber_loop os cmd reader writer"
  for os cmd reader writer
  by unfold_locales (rule subscriber_loop.simps)

section \<open>Writing\<close>

text \<open>\<open>sent w s bs s'\<close>: from \<open>s\<close> to \<open>s'\<close> the only calls were writes to the writer, of exactly \<open>bs\<close>.\<close>

definition sent :: "fifo_writer \<Rightarrow> client \<Rightarrow> u8 list \<Rightarrow> client \<Rightarrow> bool" where
  "sent w s bs s' \<longleftrightarrow> (\<exists>new. cl_io s' = cl_io s @ new \<and> written (writer_fd w) new = bs
     \<and> only_writes (writer_fd w) new)"

lemma sent_nothing: "cl_io s' = cl_io s \<Longrightarrow> sent w s [] s'"
  by (simp add: sent_def)

lemma sent_trans: "sent w s bs s1 \<Longrightarrow> sent w s1 bs' s2 \<Longrightarrow> sent w s (bs @ bs') s2"
  by (auto simp: sent_def)

lemma sent_io: "sent w s bs s' \<Longrightarrow> cl_io r = cl_io s \<Longrightarrow> cl_io r' = cl_io s' \<Longrightarrow> sent w r bs r'"
  by (simp add: sent_def)

lemma write_exact_all:
  assumes "writes_progress os" and "FifoWriter_is_open w"
  shows "\<exists>new. FifoWriter_write_exact os w src io = Some (True, io @ new) \<and> written (writer_fd w) new = src
    \<and> only_writes (writer_fd w) new"
  using write_loop_correct [OF assms(1), of 0 src "writer_fd w" io] assms(2)
  by (simp add: FifoWriter_write_exact_def FifoWriter_is_open_def)

lemma client_write_all:
  assumes "writes_progress os" and "FifoWriter_is_open w"
  shows "\<exists>io. client_write os w src s = Some (True, s\<lparr>cl_io := io\<rparr>) \<and> sent w s src (s\<lparr>cl_io := io\<rparr>)"
  using write_exact_all [OF assms, of src "cl_io s"] by (auto simp: client_write_def sent_def)

section \<open>The text producer\<close>

text \<open>
  The format of the producer's input is that of the subscriber's output. A message can be given in
  it if its key has no colon, and neither part a newline.
\<close>

definition text_ok :: "string \<times> string \<Rightarrow> bool" where
  "text_ok m \<longleftrightarrow> CHR '':'' \<notin> set (fst m) \<and> newline \<notin> set (fst m) \<and> newline \<notin> set (snd m)
     \<and> length (fst m) + length (snd m) \<le> MAX_PAYLOAD_SIZE"

abbreviation text_of :: "(string \<times> string) list \<Rightarrow> string" where
  "text_of msgs \<equiv> concat (map (\<lambda>(k, v). format_text_message k v) msgs)"

abbreviation frames_of :: "string \<Rightarrow> (string \<times> string) list \<Rightarrow> u8 list" where
  "frames_of topic msgs \<equiv> concat (map (\<lambda>(k, v). serialize_produce topic k v) msgs)"

lemma takeWhile_stop: "c \<notin> set xs \<Longrightarrow> takeWhile (\<lambda>d. d \<noteq> c) (xs @ c # ys) = xs"
  by (induction xs) auto

lemma getline_line:
  assumes "text_ok (k, v)"
  shows "getline fails (format_text_message k v @ rest) = Some (k @ '':'' @ v, rest)"
proof -
  have "newline \<notin> set (k @ '':'' @ v)" using assms by (auto simp: text_ok_def)
  from takeWhile_stop [OF this, of rest] show ?thesis
    by (simp add: getline_def format_text_message_def)
qed

lemma find_colon: "text_ok (k, v) \<Longrightarrow> find_char CHR '':'' (k @ '':'' @ v) = Some (length k)"
  using takeWhile_stop [of "CHR '':''" k v] by (simp add: find_char_def text_ok_def)

lemma publish_text_all:
  assumes "writes_progress os" and "FifoWriter_is_open w" and "\<forall>m \<in> set msgs. text_ok m"
    and "cl_stdin s = text_of msgs" and "\<not> cl_stdin_fails s"
  shows "\<exists>io. publish_text os topic w s = Some (0, s\<lparr>cl_stdin := [], cl_io := io\<rparr>)
    \<and> sent w s (frames_of topic msgs) (s\<lparr>cl_stdin := [], cl_io := io\<rparr>)"
  using assms(3-5)
proof (induction msgs arbitrary: s)
  case Nil
  then show ?case
    by (intro exI [of _ "cl_io s"]) (simp add: publish_text.simps [of os topic w s] getline_def sent_nothing)
next
  case (Cons m msgs)
  obtain k v where m: "m = (k, v)" by (cases m)
  from Cons.prems m have ok: "text_ok (k, v)"
    and inp: "cl_stdin s = format_text_message k v @ text_of msgs" by simp_all
  from write_exact_all [OF assms(1,2), of "serialize_produce topic k v" "cl_io s"] obtain new
    where new: "FifoWriter_write_exact os w (serialize_produce topic k v) (cl_io s) = Some (True, cl_io s @ new)"
      and frame: "written (writer_fd w) new = serialize_produce topic k v" "only_writes (writer_fd w) new" by blast
  have fits: "length k \<le> MAX_PAYLOAD_SIZE" "length v \<le> MAX_PAYLOAD_SIZE - length k"
    using ok by (auto simp: text_ok_def)
  let ?s = "s\<lparr>cl_stdin := text_of msgs, cl_io := cl_io s @ new\<rparr>"
  have step: "publish_text os topic w s = publish_text os topic w ?s"
    using fits new
    by (subst publish_text.simps) (simp add: inp getline_line [OF ok] find_colon [OF ok, simplified])
  have "\<exists>io. publish_text os topic w ?s = Some (0, ?s\<lparr>cl_stdin := [], cl_io := io\<rparr>)
      \<and> sent w ?s (frames_of topic msgs) (?s\<lparr>cl_stdin := [], cl_io := io\<rparr>)"
    using Cons.prems by (intro Cons.IH) simp_all
  then show ?case using step frame m by (auto simp: sent_def)
qed

section \<open>The raw producer\<close>

definition raw_record :: "string \<times> string \<Rightarrow> string" where
  "raw_record m = chars (u32le (word_of_nat (length (fst m)))) @ fst m
     @ chars (u32le (word_of_nat (length (snd m)))) @ snd m"

definition raw_ok :: "string \<times> string \<Rightarrow> bool" where
  "raw_ok m \<longleftrightarrow> length (fst m) + length (snd m) \<le> MAX_PAYLOAD_SIZE"

lemma raw_ok_sizes:
  assumes "raw_ok (k, v)"
  shows "unat (word_of_nat (length k) :: u32) = length k" "unat (word_of_nat (length v) :: u32) = length v"
    "length k \<le> MAX_PAYLOAD_SIZE" "length v \<le> MAX_PAYLOAD_SIZE - length k"
  using assms by (simp_all add: raw_ok_def MAX_PAYLOAD_SIZE_def)

lemma read_integer_le:
  "cl_stdin s = chars (u32le n) @ rest \<Longrightarrow> read_little_endian_int32 s = (Int_ok n, s\<lparr>cl_stdin := rest\<rparr>)"
  by (simp add: read_little_endian_int32_def)

lemma stdin_read_prefix:
  "cl_stdin s = val @ rest \<Longrightarrow> length val = n \<Longrightarrow> stdin_read_exact n s = Some (val, s\<lparr>cl_stdin := rest\<rparr>)"
  by (auto simp: stdin_read_exact_def)

lemma publish_raw_record_ok:
  assumes "writes_progress os" and "FifoWriter_is_open w" and "raw_ok (k, v)"
    and "cl_stdin s = raw_record (k, v) @ rest"
  shows "\<exists>io. publish_raw_record os topic w s = Some (Inr (s\<lparr>cl_stdin := rest, cl_io := io\<rparr>))
    \<and> sent w s (serialize_produce topic k v) (s\<lparr>cl_stdin := rest, cl_io := io\<rparr>)"
proof -
  let ?k = "word_of_nat (length k) :: u32" and ?v = "word_of_nat (length v) :: u32"
  let ?s1 = "s\<lparr>cl_stdin := k @ chars (u32le ?v) @ v @ rest\<rparr>"
  let ?s2 = "s\<lparr>cl_stdin := chars (u32le ?v) @ v @ rest\<rparr>"
  let ?s3 = "s\<lparr>cl_stdin := v @ rest\<rparr>"
  have r1: "read_little_endian_int32 s = (Int_ok ?k, ?s1)"
    using assms(4) by (intro read_integer_le) (simp add: raw_record_def)
  have r2: "stdin_read_exact (length k) ?s1 = Some (k, ?s2)"
    by (subst stdin_read_prefix [where val = k]) simp_all
  have r3: "read_little_endian_int32 ?s2 = (Int_ok ?v, ?s3)"
    by (subst read_integer_le) simp_all
  have r4: "stdin_read_exact (length v) ?s3 = Some (v, s\<lparr>cl_stdin := rest\<rparr>)"
    by (subst stdin_read_prefix [where val = v]) simp_all
  from client_write_all [OF assms(1,2), of "serialize_produce topic k v" "s\<lparr>cl_stdin := rest\<rparr>"]
  obtain io where "client_write os w (serialize_produce topic k v) (s\<lparr>cl_stdin := rest\<rparr>)
      = Some (True, s\<lparr>cl_stdin := rest, cl_io := io\<rparr>)"
    and "sent w (s\<lparr>cl_stdin := rest\<rparr>) (serialize_produce topic k v) (s\<lparr>cl_stdin := rest, cl_io := io\<rparr>)"
    by auto
  moreover note raw_ok_sizes [OF assms(3)]
  ultimately show ?thesis
    by (intro exI [of _ io]) (simp add: publish_raw_record_def r1 r2 r3 r4 sent_def)
qed

lemma publish_raw_all:
  assumes "writes_progress os" and "FifoWriter_is_open w" and "\<forall>m \<in> set msgs. raw_ok m"
    and "cl_stdin s = concat (map raw_record msgs)" and "\<not> cl_stdin_fails s"
  shows "\<exists>io. publish_raw os topic w s = Some (0, s\<lparr>cl_stdin := [], cl_io := io\<rparr>)
    \<and> sent w s (frames_of topic msgs) (s\<lparr>cl_stdin := [], cl_io := io\<rparr>)"
  using assms(3-5)
proof (induction msgs arbitrary: s)
  case Nil
  then have "publish_raw_record os topic w s = Some (Inl (0, s))"
    by (simp add: publish_raw_record_def read_little_endian_int32_def)
  with Nil raw_loop.run_returns [OF rtranclp.rtrancl_refl this] show ?case
    by (intro exI [of _ "cl_io s"]) (simp add: sent_nothing)
next
  case (Cons m msgs)
  obtain k v where m: "m = (k, v)" by (cases m)
  from Cons.prems m have ok: "raw_ok (k, v)"
    and inp: "cl_stdin s = raw_record (k, v) @ concat (map raw_record msgs)" by simp_all
  from publish_raw_record_ok [OF assms(1,2) ok inp, of topic] obtain io
    where step: "publish_raw_record os topic w s
        = Some (Inr (s\<lparr>cl_stdin := concat (map raw_record msgs), cl_io := io\<rparr>))"
      and frame: "sent w s (serialize_produce topic k v)
        (s\<lparr>cl_stdin := concat (map raw_record msgs), cl_io := io\<rparr>)" by blast
  let ?s = "s\<lparr>cl_stdin := concat (map raw_record msgs), cl_io := io\<rparr>"
  have "\<exists>io. publish_raw os topic w ?s = Some (0, ?s\<lparr>cl_stdin := [], cl_io := io\<rparr>)
      \<and> sent w ?s (frames_of topic msgs) (?s\<lparr>cl_stdin := [], cl_io := io\<rparr>)"
    using Cons.prems by (intro Cons.IH) simp_all
  with raw_loop.run_goes [OF raw_loop.goes_step [OF step]] m show ?case
    using sent_trans [OF frame] by auto
qed

section \<open>Reading\<close>

text \<open>
  A calm script: bytes in pieces of any size, and interruptions. A read that asks for no more than
  there is gets exactly the first bytes and leaves the others.
\<close>

fun calm :: "input list \<Rightarrow> bool" where
  "calm [] = True"
| "calm (Data bs # ins) = (bs \<noteq> [] \<and> calm ins)"
| "calm (Interrupted # ins) = calm ins"
| "calm (e # ins) = False"

lemma read_loop_calm:
  assumes "calm ins" and "n \<le> length (input_bytes ins)"
  shows "\<exists>ins'. read_loop timed n (ins @ later) flag = Some (True, take n (input_bytes ins), ins' @ later, flag)
    \<and> calm ins' \<and> input_bytes ins' = drop n (input_bytes ins)"
  using assms
proof (induction ins arbitrary: n)
  case Nil
  then show ?case by (intro exI [of _ "[]"]) simp
next
  case (Cons e ins)
  show ?case
  proof (cases "n = 0")
    case True
    with Cons.prems show ?thesis by (intro exI [of _ "e # ins"]) (simp add: read_loop_0)
  next
    case False
    show ?thesis
    proof (cases e)
      case (Data bs)
      show ?thesis
      proof (cases "n < length bs")
        case True
        with False Data Cons.prems show ?thesis by (intro exI [of _ "Data (drop n bs) # ins"]) simp
      next
        case less: False
        with Cons.prems Data have "calm ins" "n - length bs \<le> length (input_bytes ins)" by simp_all
        from Cons.IH [OF this] less False Data show ?thesis by auto
      qed
    next
      case Interrupted
      with Cons.prems Cons.IH [of n] False show ?thesis by simp
    qed (use Cons.prems in simp_all)
  qed
qed

text \<open>\<open>arriving s bs later\<close>: the bytes \<open>bs\<close> arrive at the client, then \<open>later\<close>.\<close>

definition arriving :: "client \<Rightarrow> u8 list \<Rightarrow> input list \<Rightarrow> bool" where
  "arriving s bs later \<longleftrightarrow> (\<exists>ins. cl_input s = ins @ later \<and> calm ins \<and> input_bytes ins = bs)"

lemma client_read_arriving:
  assumes "arriving s (bs @ rest) later" and "FifoReader_is_open reader" and "length bs = n"
  shows "\<exists>ins. client_read reader n timeout_ms s = Some (True, bs, s\<lparr>cl_input := ins\<rparr>)
    \<and> arriving (s\<lparr>cl_input := ins\<rparr>) rest later"
proof -
  from assms(1) obtain ins where ins: "cl_input s = ins @ later" "calm ins" "input_bytes ins = bs @ rest"
    by (auto simp: arriving_def)
  from read_loop_calm [OF ins(2), of n "timeout_ms \<ge> 0" later "cl_shutdown s"] ins(3) assms(3)
  obtain ins' where "read_loop (timeout_ms \<ge> 0) n (ins @ later) (cl_shutdown s)
      = Some (True, bs, ins' @ later, cl_shutdown s)" and "calm ins'" "input_bytes ins' = rest" by auto
  with ins(1) assms(2) show ?thesis
    by (intro exI [of _ "ins' @ later"])
      (auto simp: client_read_def FifoReader_read_exact_def FifoReader_is_open_def arriving_def)
qed

lemma arriving_input: "cl_input s = cl_input s' \<Longrightarrow> arriving s bs later \<longleftrightarrow> arriving s' bs later"
  by (simp add: arriving_def)

section \<open>The subscriber\<close>

text \<open>What the subscriber prints for a delivery, and what it acknowledges.\<close>

definition printed :: "bool \<Rightarrow> u32 \<times> string \<times> string \<Rightarrow> string" where
  "printed raw d = (case d of (offset, k, v) \<Rightarrow>
     if raw then chars (u32le offset) @ raw_record (k, v) else format_text_message k v)"

abbreviation deliveries_of :: "(u32 \<times> string \<times> string) list \<Rightarrow> u8 list" where
  "deliveries_of ds \<equiv> concat (map (\<lambda>(off, k, v). serialize_delivery off k v) ds)"

abbreviation acks_of :: "string \<Rightarrow> (u32 \<times> string \<times> string) list \<Rightarrow> u8 list" where
  "acks_of sub ds \<equiv> concat (map (\<lambda>d. serialize_ack sub (fst d + 1)) ds)"

definition deliverable :: "u32 \<times> string \<times> string \<Rightarrow> bool" where
  "deliverable d \<longleftrightarrow> fst d \<noteq> SHUTDOWN_OFFSET \<and> raw_ok (snd d)"

lemma write_le_int32: "cl_out_good s \<Longrightarrow>
    write_little_endian_int32 n s = (True, s\<lparr>cl_out := cl_out s @ chars (u32le n)\<rparr>)"
  by (simp add: write_little_endian_int32_def cout_def u32le_def)

lemma print_delivery_prints:
  assumes "cl_out_good s" and "raw_ok (k, v)"
  shows "print_delivery raw offset k v s = (True, s\<lparr>cl_out := cl_out s @ printed raw (offset, k, v)\<rparr>)"
  using assms
  by (simp add: print_delivery_def write_raw_message_def write_le_int32 cout_def printed_def
      raw_record_def can_encode_size_def raw_ok_def MAX_PAYLOAD_SIZE_def)

lemma read_field_arriving:
  assumes "arriving s (bytes val @ rest) later" and "FifoReader_is_open reader" and "length val < 2 ^ 32"
  shows "\<exists>ins. read_field reader (word_of_nat (length val)) s = Some (True, val, s\<lparr>cl_input := ins\<rparr>)
    \<and> arriving (s\<lparr>cl_input := ins\<rparr>) rest later"
proof (cases "val = []")
  case True
  with assms(1) show ?thesis by (intro exI [of _ "cl_input s"]) (simp add: read_field_def)
next
  case False
  have len: "unat (word_of_nat (length val) :: u32) = length val" using assms(3) by simp
  with False have "(word_of_nat (length val) :: u32) > 0" by (simp add: word_less_nat_alt)
  with client_read_arriving [OF assms(1,2), of "length val" 1000] len show ?thesis
    by (auto simp: read_field_def)
qed

lemma receive_delivery_ok:
  assumes "writes_progress os" and "FifoWriter_is_open w" and "FifoReader_is_open reader"
    and "cl_out_good s" and "deliverable (offset, k, v)"
    and "arriving s (serialize_delivery offset k v @ rest) later"
  shows "\<exists>ins io. let s' = s\<lparr>cl_input := ins, cl_out := cl_out s @ printed (cmd_raw cmd) (offset, k, v), cl_io := io\<rparr>
    in receive_delivery os cmd reader w s = Some (Inr s')
      \<and> arriving s' rest later \<and> sent w s (serialize_ack (cmd_subscriber cmd) (offset + 1)) s'"
proof -
  let ?k = "word_of_nat (length k) :: u32" and ?v = "word_of_nat (length v) :: u32"
  have ok: "raw_ok (k, v)" and off: "\<not> is_shutdown offset"
    using assms(5) by (simp_all add: deliverable_def is_shutdown_def)
  have small: "length k < 2 ^ 32" "length v < 2 ^ 32" and sum: "unat (?k + ?v) \<le> MAX_PAYLOAD_SIZE"
    using ok by (simp_all add: raw_ok_def MAX_PAYLOAD_SIZE_def unat_u32_add)
  let ?hdr = "u32le offset @ u32le ?k @ u32le ?v"
  have "arriving s (?hdr @ (bytes k @ (bytes v @ rest))) later"
    using assms(6) by (simp add: serialize_delivery_eq)
  from client_read_arriving [OF this assms(3), of 12 1000] obtain i1
    where r1: "client_read reader 12 1000 s = Some (True, ?hdr, s\<lparr>cl_input := i1\<rparr>)"
      and a1: "arriving (s\<lparr>cl_input := i1\<rparr>) (bytes k @ (bytes v @ rest)) later" by auto
  from read_field_arriving [OF a1 assms(3) small(1)] obtain i2
    where r2: "read_field reader ?k (s\<lparr>cl_input := i1\<rparr>) = Some (True, k, s\<lparr>cl_input := i2\<rparr>)"
      and a2: "arriving (s\<lparr>cl_input := i2\<rparr>) (bytes v @ rest) later" by auto
  from read_field_arriving [OF a2 assms(3) small(2)] obtain i3
    where r3: "read_field reader ?v (s\<lparr>cl_input := i2\<rparr>) = Some (True, v, s\<lparr>cl_input := i3\<rparr>)"
      and a3: "arriving (s\<lparr>cl_input := i3\<rparr>) rest later" by auto
  let ?s = "s\<lparr>cl_input := i3, cl_out := cl_out s @ printed (cmd_raw cmd) (offset, k, v)\<rparr>"
  have print: "print_delivery (cmd_raw cmd) offset k v (s\<lparr>cl_input := i3\<rparr>) = (True, ?s)"
    using print_delivery_prints [of "s\<lparr>cl_input := i3\<rparr>" k v "cmd_raw cmd" offset] assms(4) ok by simp
  from client_write_all [OF assms(1,2), of "serialize_ack (cmd_subscriber cmd) (offset + 1)" ?s] obtain io
    where wr: "client_write os w (serialize_ack (cmd_subscriber cmd) (offset + 1)) ?s = Some (True, ?s\<lparr>cl_io := io\<rparr>)"
      and snt: "sent w ?s (serialize_ack (cmd_subscriber cmd) (offset + 1)) (?s\<lparr>cl_io := io\<rparr>)" by blast
  have "receive_delivery os cmd reader w s = Some (Inr (?s\<lparr>cl_io := io\<rparr>))"
    using off sum by (simp add: receive_delivery_def r1 r2 r3 print wr read_u32le [of _ "[]", simplified])
  moreover have "arriving (?s\<lparr>cl_io := io\<rparr>) rest later" using a3 by (simp add: arriving_def)
  moreover have "sent w s (serialize_ack (cmd_subscriber cmd) (offset + 1)) (?s\<lparr>cl_io := io\<rparr>)"
    using snt by (simp add: sent_def)
  ultimately show ?thesis by (intro exI [of _ i3] exI [of _ io]) (simp add: Let_def)
qed

text \<open>The poll waits until bytes are there.\<close>

lemma same_input: "cl_input s = ins \<Longrightarrow> s\<lparr>cl_input := ins\<rparr> = s"
  by auto

lemma poll_calm:
  assumes "cl_input s = ins @ later" and "calm ins" and "\<not> cl_shutdown s"
  shows "\<exists>ins'. (sub_loop.goes os cmd reader w)\<^sup>*\<^sup>* s (s\<lparr>cl_input := ins' @ later\<rparr>) \<and> calm ins'
    \<and> input_bytes ins' = input_bytes ins \<and> (ins' = [] \<or> (\<exists>bs ins''. ins' = Data bs # ins''))"
  using assms
proof (induction ins arbitrary: s rule: calm.induct)
  case 1
  then show ?case by (intro exI [of _ "[]"]) (simp add: same_input)
next
  case (2 bs ins)
  then show ?case by (intro exI [of _ "Data bs # ins"]) (simp add: same_input)
next
  case (3 ins)
  then have step: "subscriber_turn os cmd reader w s = Some (Inr (s\<lparr>cl_input := ins @ later\<rparr>))"
    by (simp add: subscriber_turn_def)
  from 3 have "\<exists>ins'. (sub_loop.goes os cmd reader w)\<^sup>*\<^sup>* (s\<lparr>cl_input := ins @ later\<rparr>)
      (s\<lparr>cl_input := ins @ later\<rparr>\<lparr>cl_input := ins' @ later\<rparr>) \<and> calm ins'
    \<and> input_bytes ins' = input_bytes ins \<and> (ins' = [] \<or> (\<exists>bs ins''. ins' = Data bs # ins''))"
    by (intro "3.IH") simp_all
  then show ?case using sub_loop.goes_step [OF step] by (auto intro: rtranclp_trans)
qed simp_all

lemma turn_on_data: "cl_input s = Data bs # ins \<Longrightarrow> \<not> cl_shutdown s \<Longrightarrow>
    subscriber_turn os cmd reader w s = receive_delivery os cmd reader w s"
  by (simp add: subscriber_turn_def)

lemma poll_arriving:
  assumes "arriving s bs later" and "bs \<noteq> []" and "\<not> cl_shutdown s"
  shows "\<exists>ins. (sub_loop.goes os cmd reader w)\<^sup>*\<^sup>* s (s\<lparr>cl_input := ins\<rparr>)
    \<and> arriving (s\<lparr>cl_input := ins\<rparr>) bs later
    \<and> subscriber_turn os cmd reader w (s\<lparr>cl_input := ins\<rparr>) = receive_delivery os cmd reader w (s\<lparr>cl_input := ins\<rparr>)"
proof -
  from assms(1) obtain ins where "cl_input s = ins @ later" "calm ins" and bs: "input_bytes ins = bs"
    by (auto simp: arriving_def)
  from poll_calm [OF this(1,2) assms(3), of os cmd reader w] bs assms(2) obtain b ins''
    where "(sub_loop.goes os cmd reader w)\<^sup>*\<^sup>* s (s\<lparr>cl_input := Data b # ins'' @ later\<rparr>)"
      and "calm (Data b # ins'')" "input_bytes (Data b # ins'') = bs" by auto
  moreover from this have "arriving (s\<lparr>cl_input := Data b # ins'' @ later\<rparr>) bs later"
    by (auto simp: arriving_def intro: exI [of _ "Data b # ins''"])
  ultimately show ?thesis
    using turn_on_data [of "s\<lparr>cl_input := Data b # ins'' @ later\<rparr>"] assms(3) by auto
qed

lemma subscriber_delivers:
  assumes "writes_progress os" and "FifoWriter_is_open w" and "FifoReader_is_open reader"
    and "cl_out_good s" and "\<not> cl_shutdown s" and "\<forall>d \<in> set ds. deliverable d"
    and "arriving s (deliveries_of ds @ rest) later"
  shows "\<exists>ins io. let s' = s\<lparr>cl_input := ins, cl_out := cl_out s @ concat (map (printed (cmd_raw cmd)) ds), cl_io := io\<rparr>
    in (sub_loop.goes os cmd reader w)\<^sup>*\<^sup>* s s' \<and> arriving s' rest later
      \<and> sent w s (acks_of (cmd_subscriber cmd) ds) s'"
  using assms(4-7)
proof (induction ds arbitrary: s)
  case Nil
  then show ?case
    by (intro exI [of _ "cl_input s"] exI [of _ "cl_io s"]) (simp add: Let_def sent_nothing)
next
  case (Cons d ds)
  obtain off k v where d: "d = (off, k, v)" by (cases d)
  let ?bs = "serialize_delivery off k v @ (deliveries_of ds @ rest)"
  have "arriving s ?bs later" "?bs \<noteq> []"
    using Cons.prems d by (simp_all flip: length_greater_0_conv)
  from poll_arriving [OF this Cons.prems(2), of os cmd reader w] obtain i1
    where poll: "(sub_loop.goes os cmd reader w)\<^sup>*\<^sup>* s (s\<lparr>cl_input := i1\<rparr>)"
      and arr: "arriving (s\<lparr>cl_input := i1\<rparr>) ?bs later"
      and turn: "subscriber_turn os cmd reader w (s\<lparr>cl_input := i1\<rparr>)
        = receive_delivery os cmd reader w (s\<lparr>cl_input := i1\<rparr>)" by blast
  have "cl_out_good (s\<lparr>cl_input := i1\<rparr>)" "deliverable (off, k, v)" using Cons.prems d by simp_all
  from receive_delivery_ok [OF assms(1-3) this arr, of cmd, unfolded Let_def] obtain i2 io
    where got: "receive_delivery os cmd reader w (s\<lparr>cl_input := i1\<rparr>)
        = Some (Inr (s\<lparr>cl_input := i2, cl_out := cl_out s @ printed (cmd_raw cmd) d, cl_io := io\<rparr>))"
      and arr2: "arriving (s\<lparr>cl_input := i2, cl_out := cl_out s @ printed (cmd_raw cmd) d, cl_io := io\<rparr>)
        (deliveries_of ds @ rest) later"
      and snt: "sent w s (serialize_ack (cmd_subscriber cmd) (off + 1))
        (s\<lparr>cl_input := i2, cl_out := cl_out s @ printed (cmd_raw cmd) d, cl_io := io\<rparr>)"
    using d by (auto simp: sent_def)
  let ?s = "s\<lparr>cl_input := i2, cl_out := cl_out s @ printed (cmd_raw cmd) d, cl_io := io\<rparr>"
  have "(sub_loop.goes os cmd reader w)\<^sup>*\<^sup>* s ?s"
    using poll sub_loop.goes_step [OF trans [OF turn got]] by (rule rtranclp_trans)
  then have go: "(sub_loop.goes os cmd reader w)\<^sup>*\<^sup>* s s'"
    if "(sub_loop.goes os cmd reader w)\<^sup>*\<^sup>* ?s s'" for s' using that by (rule rtranclp_trans)
  from Cons.prems have "cl_out_good ?s" "\<not> cl_shutdown ?s" "\<forall>d \<in> set ds. deliverable d" by simp_all
  from Cons.IH [OF this arr2, unfolded Let_def] obtain i3 io3 where
    "(sub_loop.goes os cmd reader w)\<^sup>*\<^sup>* ?s (?s\<lparr>cl_input := i3, cl_out := cl_out ?s @ concat (map (printed (cmd_raw cmd)) ds), cl_io := io3\<rparr>)"
    "arriving (?s\<lparr>cl_input := i3, cl_out := cl_out ?s @ concat (map (printed (cmd_raw cmd)) ds), cl_io := io3\<rparr>) rest later"
    "sent w ?s (acks_of (cmd_subscriber cmd) ds)
      (?s\<lparr>cl_input := i3, cl_out := cl_out ?s @ concat (map (printed (cmd_raw cmd)) ds), cl_io := io3\<rparr>)" by blast
  from go [OF this(1)] this(2) sent_trans [OF snt this(3)] d show ?case
    by (intro exI [of _ i3] exI [of _ io3]) (simp add: Let_def)
qed

text \<open>The two ways a subscription ends: the sentinel of the server, and a signal.\<close>

lemma receive_shutdown:
  assumes "FifoReader_is_open reader" and "arriving s (serialize_shutdown @ rest) later"
  shows "\<exists>ins. receive_delivery os cmd reader w s = Some (Inl (0, s\<lparr>cl_input := ins\<rparr>))"
proof -
  let ?hdr = "u32le SHUTDOWN_OFFSET @ u32le 0 @ u32le 0"
  have "arriving s (?hdr @ rest) later"
    using assms(2) by (simp add: serialize_shutdown_def serialize_delivery_eq SHUTDOWN_OFFSET_def)
  from client_read_arriving [OF this assms(1), of 12 1000] show ?thesis
    by (auto simp: receive_delivery_def is_shutdown_def read_u32le [of _ "[]", simplified])
qed

lemma subscriber_shutdown:
  assumes "writes_progress os" and "FifoWriter_is_open w" and "FifoReader_is_open reader"
    and "cl_out_good s" and "\<not> cl_shutdown s" and "\<forall>d \<in> set ds. deliverable d"
    and "arriving s (deliveries_of ds @ serialize_shutdown @ rest) later"
  shows "\<exists>s'. subscriber_loop os cmd reader w s = Some (0, s')
    \<and> cl_out s' = cl_out s @ concat (map (printed (cmd_raw cmd)) ds)
    \<and> sent w s (acks_of (cmd_subscriber cmd) ds) s'"
proof -
  from subscriber_delivers [OF assms, of cmd, unfolded Let_def] obtain ins io
    where after: "(sub_loop.goes os cmd reader w)\<^sup>*\<^sup>* s (s\<lparr>cl_input := ins,
        cl_out := cl_out s @ concat (map (printed (cmd_raw cmd)) ds), cl_io := io\<rparr>)"
      "arriving (s\<lparr>cl_input := ins, cl_out := cl_out s @ concat (map (printed (cmd_raw cmd)) ds), cl_io := io\<rparr>)
        (serialize_shutdown @ rest) later"
      "sent w s (acks_of (cmd_subscriber cmd) ds)
        (s\<lparr>cl_input := ins, cl_out := cl_out s @ concat (map (printed (cmd_raw cmd)) ds), cl_io := io\<rparr>)" by blast
  let ?s = "s\<lparr>cl_input := ins, cl_out := cl_out s @ concat (map (printed (cmd_raw cmd)) ds), cl_io := io\<rparr>"
  note go = after(1) and arr = after(2) and acks = after(3)
  have "serialize_shutdown @ rest \<noteq> []" "\<not> cl_shutdown ?s"
    using assms(5) by (simp_all add: serialize_shutdown_def flip: length_greater_0_conv)
  from poll_arriving [OF arr this, of os cmd reader w] obtain i2
    where poll: "(sub_loop.goes os cmd reader w)\<^sup>*\<^sup>* ?s (?s\<lparr>cl_input := i2\<rparr>)"
      and arr2: "arriving (?s\<lparr>cl_input := i2\<rparr>) (serialize_shutdown @ rest) later"
      and turn: "subscriber_turn os cmd reader w (?s\<lparr>cl_input := i2\<rparr>)
        = receive_delivery os cmd reader w (?s\<lparr>cl_input := i2\<rparr>)" by blast
  from receive_shutdown [OF assms(3) arr2, of os cmd w] obtain i3
    where "receive_delivery os cmd reader w (?s\<lparr>cl_input := i2\<rparr>) = Some (Inl (0, ?s\<lparr>cl_input := i3\<rparr>))"
    by auto
  then have "subscriber_loop os cmd reader w s = Some (0, ?s\<lparr>cl_input := i3\<rparr>)"
    using sub_loop.run_returns [OF rtranclp_trans [OF go poll]] turn by metis
  with acks show ?thesis by (auto simp: sent_def)
qed

lemma subscriber_signal:
  assumes "writes_progress os" and "FifoWriter_is_open w" and "FifoReader_is_open reader"
    and "cl_out_good s" and "\<not> cl_shutdown s" and "\<forall>d \<in> set ds. deliverable d"
    and "arriving s (deliveries_of ds) (Signalled # pending)"
  shows "\<exists>s'. subscriber_loop os cmd reader w s = Some (0, s')
    \<and> cl_out s' = cl_out s @ concat (map (printed (cmd_raw cmd)) ds)
    \<and> sent w s (acks_of (cmd_subscriber cmd) ds @ serialize_disconnect (cmd_subscriber cmd)) s'"
proof -
  from assms(7) have "arriving s (deliveries_of ds @ []) (Signalled # pending)" by simp
  from subscriber_delivers [OF assms(1-6) this, of cmd, unfolded Let_def] obtain ins io
    where after: "(sub_loop.goes os cmd reader w)\<^sup>*\<^sup>* s (s\<lparr>cl_input := ins,
        cl_out := cl_out s @ concat (map (printed (cmd_raw cmd)) ds), cl_io := io\<rparr>)"
      "arriving (s\<lparr>cl_input := ins, cl_out := cl_out s @ concat (map (printed (cmd_raw cmd)) ds), cl_io := io\<rparr>)
        [] (Signalled # pending)"
      "sent w s (acks_of (cmd_subscriber cmd) ds)
        (s\<lparr>cl_input := ins, cl_out := cl_out s @ concat (map (printed (cmd_raw cmd)) ds), cl_io := io\<rparr>)" by blast
  let ?s = "s\<lparr>cl_input := ins, cl_out := cl_out s @ concat (map (printed (cmd_raw cmd)) ds), cl_io := io\<rparr>"
  note go = after(1) and arr = after(2) and acks = after(3)
  from arr obtain i2 where i2: "cl_input ?s = i2 @ Signalled # pending" "calm i2" "input_bytes i2 = []"
    unfolding arriving_def by blast
  have up: "\<not> cl_shutdown ?s" using assms(5) by simp
  from poll_calm [OF i2(1,2) up, of os cmd reader w] i2(3)
  have "(sub_loop.goes os cmd reader w)\<^sup>*\<^sup>* ?s (?s\<lparr>cl_input := Signalled # pending\<rparr>)" by auto
  moreover let ?s1 = "?s\<lparr>cl_input := pending, cl_shutdown := True\<rparr>"
  have "subscriber_turn os cmd reader w (?s\<lparr>cl_input := Signalled # pending\<rparr>) = Some (Inr ?s1)"
    using assms(5) by (simp add: subscriber_turn_def)
  ultimately have "(sub_loop.goes os cmd reader w)\<^sup>*\<^sup>* s ?s1"
    using go sub_loop.goes_step by (meson rtranclp_trans)
  moreover obtain io2 where wr: "client_write os w (serialize_disconnect (cmd_subscriber cmd)) ?s1
      = Some (True, ?s1\<lparr>cl_io := io2\<rparr>)"
    and disc: "sent w ?s1 (serialize_disconnect (cmd_subscriber cmd)) (?s1\<lparr>cl_io := io2\<rparr>)"
    using client_write_all [OF assms(1,2)] by blast
  have "subscriber_turn os cmd reader w ?s1 = Some (Inl (0, ?s1\<lparr>cl_io := io2\<rparr>))"
    using wr by (simp add: subscriber_turn_def)
  ultimately have "subscriber_loop os cmd reader w s = Some (0, ?s1\<lparr>cl_io := io2\<rparr>)"
    by (rule sub_loop.run_returns)
  moreover have "sent w s (acks_of (cmd_subscriber cmd) ds @ serialize_disconnect (cmd_subscriber cmd)) (?s1\<lparr>cl_io := io2\<rparr>)"
    using acks disc by (auto simp: sent_def)
  ultimately show ?thesis by (intro exI [of _ "?s1\<lparr>cl_io := io2\<rparr>"]) simp
qed

section \<open>The exchange of a request\<close>

text \<open>A system on which FIFOs can be made and opened, and writes make progress.\<close>

definition os_ready :: "os \<Rightarrow> bool" where
  "os_ready os \<longleftrightarrow> writes_progress os \<and> (\<forall>io path. os_mkfifo os io path \<noteq> - 1
     \<and> os_open_rdwr os io path \<ge> 0 \<and> os_open_wr_nb os io path \<ge> 0)
     \<and> (\<forall>sig. os_sigaction os sig \<noteq> - 1)"

lemma os_ready_installs: "os_ready os \<Longrightarrow> fst (install_shutdown_handlers os)"
  by (simp add: os_ready_def install_shutdown_handlers_def)

lemma FifoReader_create_ready:
  assumes "os_ready os"
  shows "\<exists>fd new. FifoReader_create os path True io = (\<lparr>reader_fd = fd, reader_path = path\<rparr>, io @ new)
    \<and> fd \<ge> 0 \<and> (\<forall>p F. sent_to p F new = [])"
proof -
  have "os_mkfifo os io' path \<noteq> - 1" "os_open_rdwr os io' path \<ge> 0" "\<not> os_open_rdwr os io' path < 0" for io'
    using assms unfolding os_ready_def not_less by blast+
  then show ?thesis
    by (simp add: FifoReader_create_def sys_unlink_def sys_mkfifo_def sys_open_rdwr_def Let_def)
qed

lemma FifoWriter_open_ready:
  assumes "os_ready os"
  shows "\<exists>fd. FifoWriter_open os path timeout io =
      Some (\<lparr>writer_fd = fd, writer_path = path\<rparr>, io @ [Open_wr_nb path fd, Set_blocking fd]) \<and> fd \<ge> 0"
proof -
  have "os_open_wr_nb os io path \<ge> 0" using assms unfolding os_ready_def by blast
  from open_loop_open [OF this] this show ?thesis by (auto simp: FifoWriter_open_def)
qed

lemma read_response_arriving:
  assumes "arriving s (serialize_response st payload @ rest) later" and "FifoReader_is_open reader"
    and "length payload < 2 ^ 32" and "st = status_of_byte b" and "b \<le> 3"
  shows "\<exists>ins. read_response reader s =
    Some (\<lparr>ex_status = Complete, ex_code = st, ex_payload = bytes payload\<rparr>, s\<lparr>cl_input := ins\<rparr>)
    \<and> arriving (s\<lparr>cl_input := ins\<rparr>) rest later"
proof -
  let ?n = "word_of_nat (length payload) :: u32"
  have n: "unat ?n = length payload" using assms(3) by simp
  have "arriving s ((status_byte st # u32le ?n) @ (bytes payload @ rest)) later"
    using assms(1) by (simp add: serialize_response_eq)
  from client_read_arriving [OF this assms(2), of 5 2000] obtain i1
    where r1: "client_read reader 5 2000 s = Some (True, status_byte st # u32le ?n, s\<lparr>cl_input := i1\<rparr>)"
      and a1: "arriving (s\<lparr>cl_input := i1\<rparr>) (bytes payload @ rest) later" by auto
  have hdr: "parse_response_header (status_byte st # u32le ?n)
      = Some (Parsed \<lparr>status_code = st, response_payload_len = ?n\<rparr>)"
    using assms(4,5) by (simp add: parse_response_header_def read_u32le [of _ "[]", simplified])
  show ?thesis
  proof (cases "payload = []")
    case True
    with r1 hdr a1 show ?thesis by (auto simp: read_response_def)
  next
    case False
    then have "?n > 0" using n by (simp add: word_less_nat_alt)
    with client_read_arriving [OF a1 assms(2), of "length payload" 2000] r1 hdr n show ?thesis
      by (auto simp: read_response_def)
  qed
qed

lemma exchange_request_complete:
  assumes "os_ready os" and "arriving s (serialize_response st payload @ rest) later"
    and "length payload < 2 ^ 32" and "st = status_of_byte b" and "b \<le> 3"
  shows "\<exists>ins new. exchange_request os path pid request s =
      Some (\<lparr>ex_status = Complete, ex_code = st, ex_payload = bytes payload\<rparr>,
        s\<lparr>cl_io := cl_io s @ new, cl_input := ins\<rparr>)
    \<and> (\<forall>F. sent_to path F new = request)
    \<and> last new = Unlink (client_fifo_path pid) \<and> arriving (s\<lparr>cl_input := ins\<rparr>) rest later"
proof -
  let ?own = "client_fifo_path pid"
  from FifoReader_create_ready [OF assms(1)] obtain rfd n1
    where made: "FifoReader_create os ?own True (cl_io s) = (\<lparr>reader_fd = rfd, reader_path = ?own\<rparr>, cl_io s @ n1)"
      and rfd: "rfd \<ge> 0" and n1: "\<And>p F. sent_to p F n1 = []" by blast
  from FifoWriter_open_ready [OF assms(1)] obtain fd
    where opened: "FifoWriter_open os path 2000 (cl_io s @ n1) =
        Some (\<lparr>writer_fd = fd, writer_path = path\<rparr>, (cl_io s @ n1) @ [Open_wr_nb path fd, Set_blocking fd])"
      and fd: "fd \<ge> 0" by blast
  let ?w = "\<lparr>writer_fd = fd, writer_path = path\<rparr>" and ?r = "\<lparr>reader_fd = rfd, reader_path = ?own\<rparr>"
  let ?n2 = "n1 @ [Open_wr_nb path fd, Set_blocking fd]"
  have open_w: "FifoWriter_is_open ?w" and open_r: "FifoReader_is_open ?r" and prog: "writes_progress os"
    using fd rfd assms(1) by (simp_all add: FifoWriter_is_open_def FifoReader_is_open_def os_ready_def)
  from client_write_all [OF prog open_w, of request "s\<lparr>cl_io := cl_io s @ ?n2\<rparr>"] obtain n3
    where wr: "client_write os ?w request (s\<lparr>cl_io := cl_io s @ ?n2\<rparr>) = Some (True, s\<lparr>cl_io := cl_io s @ ?n2 @ n3\<rparr>)"
      and n3: "written fd n3 = request" "only_writes fd n3" by (auto simp: sent_def)
  let ?n4 = "?n2 @ n3 @ [Close fd]"
  have "arriving (s\<lparr>cl_io := cl_io s @ ?n4\<rparr>) (serialize_response st payload @ rest) later"
    using assms(2) by (simp add: arriving_def)
  from read_response_arriving [OF this open_r assms(3-5)] obtain ins
    where rd: "read_response ?r (s\<lparr>cl_io := cl_io s @ ?n4\<rparr>) =
        Some (\<lparr>ex_status = Complete, ex_code = st, ex_payload = bytes payload\<rparr>, s\<lparr>cl_io := cl_io s @ ?n4, cl_input := ins\<rparr>)"
      and arr: "arriving (s\<lparr>cl_input := ins\<rparr>) rest later" by (auto simp: arriving_def)
  have closed: "FifoWriter_close ?w io = (\<lparr>writer_fd = - 1, writer_path = ''''\<rparr>, io @ [Close fd])" for io
    using fd by (simp add: FifoWriter_close_def sys_close_def)
  have gone: "FifoReader_close ?r io = (\<lparr>reader_fd = - 1, reader_path = ''''\<rparr>, io @ [Close rfd, Unlink ?own])" for io
    using rfd by (simp add: FifoReader_close_def sys_close_def sys_unlink_def client_fifo_path_def)
  have none: "FifoWriter_close \<lparr>writer_fd = - 1, writer_path = ''''\<rparr> io = (\<lparr>writer_fd = - 1, writer_path = ''''\<rparr>, io)" for io
    by (simp add: FifoWriter_close_def)
  have "exchange_request os path pid request s =
      Some (\<lparr>ex_status = Complete, ex_code = st, ex_payload = bytes payload\<rparr>,
        s\<lparr>cl_io := cl_io s @ ?n4 @ [Close rfd, Unlink ?own], cl_input := ins\<rparr>)"
    using open_w open_r wr rd opened
    by (simp add: exchange_request_def made closed gone none destroy_def)
  then show ?thesis
    using arr n1 n3 only_writes_sent [OF n3(2)] fd
    by (intro exI [of _ ins] exI [of _ "?n4 @ [Close rfd, Unlink ?own]"]) simp
qed

section \<open>A sample client\<close>

definition sample_client :: "input list \<Rightarrow> string \<Rightarrow> client" where
  "sample_client ins inp = \<lparr>cl_io = [], cl_input = ins, cl_shutdown = False, cl_stdin = inp,
     cl_stdin_fails = False, cl_out = '''', cl_out_good = True, cl_err = ''''\<rparr>"

definition sample_writer :: fifo_writer where
  "sample_writer = \<lparr>writer_fd = 4, writer_path = ''/s''\<rparr>"

definition sample_reader :: fifo_reader where
  "sample_reader = \<lparr>reader_fd = 5, reader_path = ''/c''\<rparr>"

lemma sample_client:
  "os_ready sample_os" "writes_progress sample_os" "FifoWriter_is_open sample_writer" "FifoReader_is_open sample_reader"
  "cl_stdin (sample_client ins inp) = inp" "\<not> cl_stdin_fails (sample_client ins inp)"
  "cl_out_good (sample_client ins inp)" "\<not> cl_shutdown (sample_client ins inp)" "cl_out (sample_client ins inp) = ''''"
  "cl_input (sample_client ins inp) = ins"
  by (simp_all add: os_ready_def writes_progress_def sample_os_def sample_writer_def sample_reader_def
      FifoWriter_is_open_def FifoReader_is_open_def sample_client_def)

section \<open>Properties\<close>

text \<open>
  C21: When a signal arrives after some deliveries, the subscriber has printed and acknowledged them
  all, disconnects its name from the server and ends with success.
\<close>

theorem subscriber_ends_on_signal:
  assumes "writes_progress os" and "FifoWriter_is_open w" and "FifoReader_is_open reader"
    and "cl_out_good s" and "\<not> cl_shutdown s" and "\<forall>d \<in> set ds. deliverable d"
    and "arriving s (deliveries_of ds) (Signalled # pending)"
  shows "\<exists>s'. subscriber_loop os cmd reader w s = Some (0, s')
    \<and> cl_out s' = cl_out s @ concat (map (printed (cmd_raw cmd)) ds)
    \<and> sent w s (acks_of (cmd_subscriber cmd) ds @ serialize_disconnect (cmd_subscriber cmd)) s'"
  by (rule subscriber_signal [OF assms])

theorem subscriber_ends_on_signal_witness:
  "\<exists>s'. subscriber_loop sample_os (make_empty_command\<lparr>cmd_subscriber := ''c''\<rparr>) sample_reader sample_writer
      (sample_client [Interrupted, Signalled] '''') = Some (0, s')
     \<and> written 4 (cl_io s') = serialize_disconnect ''c''"
proof -
  have "arriving (sample_client [Interrupted, Signalled] '''') (deliveries_of []) (Signalled # [])"
    by (auto simp: arriving_def sample_client intro!: exI [of _ "[Interrupted]"])
  from subscriber_ends_on_signal [OF sample_client(2,3,4,7,8) _ this, of "make_empty_command\<lparr>cmd_subscriber := ''c''\<rparr>"]
  show ?thesis by (auto simp: sent_def sample_client_def sample_writer_def)
qed

end
