(* ===== verification/Float32.thy ===== *)
theory Float32
  imports Prelude
begin

text \<open>
  The single-precision arithmetic that \<^verbatim>\<open>HashMap.hpp\<close> does on its load factors: conversion of a
  \<^verbatim>\<open>size_t\<close> to \<^verbatim>\<open>float\<close>, division, comparison and \<^verbatim>\<open>std::ceil\<close>. A finite float is \<open>F32 m e\<close>, the
  number \<open>m * 2 ^ e\<close>; a conversion or a division rounds to 24 significant bits, to nearest with
  ties to even, as IEEE 754 says. The values here are quotients of container sizes, far from
  overflow and from the subnormal range, so no exponent bound is modelled; infinities and NaN are
  not represented.
\<close>

datatype f32 = F32 (mantissa: int) (exponent: int)

text \<open>The number of bits of a positive number; \<open>0\<close> for \<open>0\<close>.\<close>

fun bit_length :: "nat \<Rightarrow> nat" where
  "bit_length n = (if n = 0 then 0 else Suc (bit_length (n div 2)))"

declare bit_length.simps [simp del]

definition round_half_even :: "nat \<Rightarrow> nat \<Rightarrow> nat" where
  "round_half_even p d =
     (let q = p div d; r = p mod d
      in if 2 * r < d \<or> (2 * r = d \<and> even q) then q else q + 1)"

text \<open>\<open>p / d * 2 ^ (- e)\<close> as a fraction, for an exponent of either sign.\<close>

definition scaled_num :: "nat \<Rightarrow> int \<Rightarrow> nat" where
  "scaled_num p e = (if e \<le> 0 then p * 2 ^ nat (- e) else p)"

definition scaled_den :: "nat \<Rightarrow> int \<Rightarrow> nat" where
  "scaled_den d e = (if e \<le> 0 then d else d * 2 ^ nat e)"

text \<open>
  The exponent of the last of 24 bits of \<open>p / d\<close>: the quotient lies between
  \<open>2 ^ (k - 1)\<close> and \<open>2 ^ (k + 1)\<close> for \<open>k = bit_length p - bit_length d\<close>.
\<close>

definition ulp_exponent :: "nat \<Rightarrow> nat \<Rightarrow> int" where
  "ulp_exponent p d =
     (let k = int (bit_length p) - int (bit_length d)
      in if scaled_den d k \<le> scaled_num p k then k - 23 else k - 24)"

definition f32_of_fraction :: "nat \<Rightarrow> nat \<Rightarrow> f32" where
  "f32_of_fraction p d =
     (if p = 0 then F32 0 0
      else let e = ulp_exponent p d
           in F32 (int (round_half_even (scaled_num p e) (scaled_den d e))) e)"

text \<open>\<^verbatim>\<open>static_cast<float>(n)\<close>.\<close>

definition f32_of_size :: "nat \<Rightarrow> f32" where
  "f32_of_size n = f32_of_fraction n 1"

text \<open>The quotient of two non-negative floats; the divisor is not zero.\<close>

definition f32_div :: "f32 \<Rightarrow> f32 \<Rightarrow> f32" where
  "f32_div x y =
     (let e = exponent x - exponent y
      in f32_of_fraction (scaled_num (nat (mantissa x)) (- e)) (scaled_den (nat (mantissa y)) (- e)))"

definition f32_less :: "f32 \<Rightarrow> f32 \<Rightarrow> bool" where
  "f32_less x y =
     (let e = min (exponent x) (exponent y)
      in mantissa x * 2 ^ nat (exponent x - e) < mantissa y * 2 ^ nat (exponent y - e))"

text \<open>\<^verbatim>\<open>static_cast<size_t>(std::ceil(x))\<close> of a non-negative float.\<close>

definition f32_ceil :: "f32 \<Rightarrow> nat" where
  "f32_ceil x =
     (if exponent x \<ge> 0 then nat (mantissa x) * 2 ^ nat (exponent x)
      else (nat (mantissa x) + (2 ^ nat (- exponent x) - 1)) div 2 ^ nat (- exponent x))"

abbreviation f32_zero :: f32 where
  "f32_zero \<equiv> F32 0 0"

text \<open>The literal \<^verbatim>\<open>0.75f\<close>.\<close>

definition f32_three_quarters :: f32 where
  "f32_three_quarters = F32 3 (- 2)"

section \<open>The numbers the floats stand for\<close>

definition f32_val :: "f32 \<Rightarrow> real" where
  "f32_val x = real_of_int (mantissa x) * 2 powi exponent x"

lemma bit_length_0 [simp]: "bit_length 0 = 0"
  by (simp add: bit_length.simps)

lemma bit_length_bounds: "0 < n \<Longrightarrow> 2 ^ (bit_length n - 1) \<le> n \<and> n < 2 ^ bit_length n \<and> 0 < bit_length n"
proof (induction n rule: bit_length.induct)
  case (1 n)
  show ?case
  proof (cases "n = 1")
    case True
    then show ?thesis by (simp add: bit_length.simps)
  next
    case False
    with 1 have half: "2 ^ (bit_length (n div 2) - 1) \<le> n div 2" "n div 2 < 2 ^ bit_length (n div 2)"
      "0 < bit_length (n div 2)" by auto
    have step: "bit_length n = Suc (bit_length (n div 2))"
      using 1(2) by (subst bit_length.simps) simp
    have "(2::nat) ^ bit_length (n div 2) = 2 * 2 ^ (bit_length (n div 2) - 1)"
      using half(3) by (simp flip: power_Suc)
    with half show ?thesis by (simp add: step) linarith
  qed
qed

lemma bit_length_real:
  assumes "0 < n"
  shows "2 powi (int (bit_length n) - 1) \<le> real n" and "real n < 2 powi int (bit_length n)"
proof -
  have "2 powi (int (bit_length n) - 1) = (2::real) ^ (bit_length n - 1)"
    using bit_length_bounds [OF assms] by (simp add: power_int_def nat_diff_distrib)
  also have "\<dots> \<le> real n" using bit_length_bounds [OF assms]
    by (metis of_nat_le_iff of_nat_numeral of_nat_power)
  finally show "2 powi (int (bit_length n) - 1) \<le> real n" .
  show "real n < 2 powi int (bit_length n)" using bit_length_bounds [OF assms]
    by (metis of_nat_less_iff of_nat_numeral of_nat_power power_int_of_nat)
qed

lemma scaled_ratio: "real (scaled_num p e) / real (scaled_den d e) = real p / real d * 2 powi (- e)"
  by (auto simp: scaled_num_def scaled_den_def power_int_def field_simps)

lemma scaled_den_pos [simp]: "0 < scaled_den d e \<longleftrightarrow> 0 < d"
  by (simp add: scaled_den_def)

lemma scaled_num_pos [simp]: "0 < scaled_num p e \<longleftrightarrow> 0 < p"
  by (simp add: scaled_num_def)

lemma round_half_even_ge: "0 < d \<Longrightarrow> real N \<le> real p / real d \<Longrightarrow> N \<le> round_half_even p d"
proof -
  assume d: "0 < d" and N: "real N \<le> real p / real d"
  then have "real (N * d) \<le> real p" by (simp add: field_simps)
  then have "N * d \<le> p" by linarith
  with d have "N \<le> p div d" by (simp add: less_eq_div_iff_mult_less_eq)
  then show ?thesis by (simp add: round_half_even_def Let_def)
qed

lemma round_half_even_le:
  assumes "0 < d" and "real p / real d \<le> real N"
  shows "round_half_even p d \<le> N"
proof -
  from assms have "real p \<le> real (N * d)" by (simp add: field_simps)
  then have le: "p \<le> N * d" by linarith
  show ?thesis
  proof (cases "p = N * d")
    case True with assms(1) show ?thesis by (simp add: round_half_even_def Let_def)
  next
    case False
    with le have "p < N * d" by simp
    with assms(1) have "p div d < N" by (simp add: div_less_iff_less_mult)
    then show ?thesis by (simp add: round_half_even_def Let_def)
  qed
qed

lemma round_half_even_up:
  assumes "0 < d" and "real N + 1 / 2 < real p / real d"
  shows "N + 1 \<le> round_half_even p d"
proof -
  from assms have "(2 * real N + 1) * real d < 2 * real p" by (simp add: field_simps)
  then have "real ((2 * N + 1) * d) < real (2 * p)" by (simp add: algebra_simps)
  then have lt: "(2 * N + 1) * d < 2 * p" by linarith
  have p: "p = p div d * d + p mod d" by simp
  have "N \<le> p div d"
  proof (rule ccontr)
    assume "\<not> N \<le> p div d"
    then have "Suc (p div d) * d \<le> N * d" by (intro mult_le_mono1) simp
    moreover have "p < Suc (p div d) * d" 
      using dividend_less_div_times [OF assms(1), of p] by simp
    ultimately have "p < N * d" by linarith
    with lt show False by (simp add: algebra_simps)
  qed
  moreover have "d < 2 * (p mod d)" if "p div d = N"
    using lt p that by (simp add: algebra_simps)
  ultimately show ?thesis
    by (cases "p div d = N") (auto simp: round_half_even_def Let_def)
qed

lemma one_le_scaled: "1 \<le> x * 2 powi (- k) \<longleftrightarrow> 2 powi k \<le> (x :: real)"
  by (simp add: power_int_minus field_simps)

lemma ulp_exponent_bounds:
  assumes "0 < p" and "0 < d"
  defines "e \<equiv> ulp_exponent p d"
  shows "2 powi (e + 23) \<le> real p / real d" and "real p / real d < 2 powi (e + 24)"
proof -
  let ?k = "int (bit_length p) - int (bit_length d)"
  have "2 powi (?k - 1) = 2 powi (int (bit_length p) - 1) / (2 :: real) powi int (bit_length d)"
    by (simp add: power_int_diff)
  also have "\<dots> \<le> real p / real d"
    using bit_length_real [OF assms(1)] bit_length_real [OF assms(2)] assms(2)
    by (intro frac_le) simp_all
  finally have low: "2 powi (?k - 1) \<le> real p / real d" .
  have "real p / real d < 2 powi int (bit_length p) / 2 powi (int (bit_length d) - 1)"
    using bit_length_real [OF assms(1)] bit_length_real [OF assms(2)]
    by (intro frac_less) simp_all
  also have "\<dots> = 2 powi (?k + 1)" by (simp add: power_int_diff power_int_add)
  finally have high: "real p / real d < 2 powi (?k + 1)" .
  have "scaled_den d ?k \<le> scaled_num p ?k \<longleftrightarrow> 1 \<le> real (scaled_num p ?k) / real (scaled_den d ?k)"
    using assms(2) by (simp add: field_simps)
  also have "\<dots> \<longleftrightarrow> 2 powi ?k \<le> real p / real d"
    unfolding scaled_ratio one_le_scaled ..
  finally have test: "scaled_den d ?k \<le> scaled_num p ?k \<longleftrightarrow> 2 powi ?k \<le> real p / real d" .
  show "2 powi (e + 23) \<le> real p / real d" and "real p / real d < 2 powi (e + 24)"
    using low high test by (auto simp: e_def ulp_exponent_def Let_def add.commute)
qed

lemma ulp_unit:
  assumes "0 < p" and "0 < d"
  shows "real (scaled_num p (ulp_exponent p d)) / real (scaled_den d (ulp_exponent p d))
    = real p / real d / 2 powi ulp_exponent p d"
  unfolding scaled_ratio by (simp add: power_int_minus field_simps)

lemma f32_fraction_ge:
  assumes "0 < p" "0 < d" and "real N * 2 powi ulp_exponent p d \<le> real p / real d"
  shows "real N * 2 powi ulp_exponent p d \<le> f32_val (f32_of_fraction p d)"
proof -
  from assms have "N \<le> round_half_even (scaled_num p (ulp_exponent p d)) (scaled_den d (ulp_exponent p d))"
    by (intro round_half_even_ge) (simp_all add: ulp_unit pos_le_divide_eq mult_ac)
  with assms(1) show ?thesis by (simp add: f32_of_fraction_def Let_def f32_val_def)
qed

lemma f32_fraction_le:
  assumes "0 < p" "0 < d" and "real p / real d \<le> real N * 2 powi ulp_exponent p d"
  shows "f32_val (f32_of_fraction p d) \<le> real N * 2 powi ulp_exponent p d"
proof -
  from assms have "round_half_even (scaled_num p (ulp_exponent p d)) (scaled_den d (ulp_exponent p d)) \<le> N"
    by (intro round_half_even_le) (simp_all add: ulp_unit pos_divide_le_eq mult_ac)
  with assms(1) show ?thesis by (simp add: f32_of_fraction_def Let_def f32_val_def)
qed

lemma f32_fraction_up:
  assumes "0 < p" "0 < d" and "(real N + 1 / 2) * 2 powi ulp_exponent p d < real p / real d"
  shows "real (N + 1) * 2 powi ulp_exponent p d \<le> f32_val (f32_of_fraction p d)"
proof -
  from assms have "N + 1 \<le> round_half_even (scaled_num p (ulp_exponent p d)) (scaled_den d (ulp_exponent p d))"
    by (intro round_half_even_up) (simp_all add: ulp_unit pos_less_divide_eq mult_ac)
  then have "real (N + 1) \<le> real (round_half_even (scaled_num p (ulp_exponent p d)) (scaled_den d (ulp_exponent p d)))"
    by (simp only: of_nat_le_iff)
  with assms(1) show ?thesis by (simp add: f32_of_fraction_def Let_def f32_val_def)
qed

text \<open>Sizes below \<open>2 ^ 24\<close> are converted exactly.\<close>

lemma f32_of_size_exact:
  assumes "0 < n" and "n < 2 ^ 24"
  shows "f32_val (f32_of_size n) = real n"
proof -
  let ?e = "ulp_exponent n 1"
  have "2 powi (?e + 23) \<le> real n" using ulp_exponent_bounds(1) [OF assms(1), of 1] by simp
  also have "real n < real (2 ^ 24)" using assms(2) by (simp only: of_nat_less_iff)
  finally have "(2 :: real) powi (?e + 23) < 2 powi 24" by simp
  then have e: "?e \<le> 0"
    using power_int_increasing [of 24 "?e + 23" "2 :: real"] by linarith
  define N where "N = n * 2 ^ nat (- ?e)"
  have "real N * 2 powi ?e = real n"
    using e by (simp add: N_def power_int_def field_simps)
  with assms(1) show ?thesis
    using f32_fraction_ge [of n 1 N] f32_fraction_le [of n 1 N] by (simp add: f32_of_size_def)
qed

lemma f32_less_iff: "f32_less x y \<longleftrightarrow> f32_val x < f32_val y"
proof -
  define e where "e = min (exponent x) (exponent y)"
  have shift: "f32_val z = real_of_int (mantissa z * 2 ^ nat (exponent z - e)) * 2 powi e"
    if "e \<le> exponent z" for z
  proof -
    have "(2 :: real) powi exponent z = 2 ^ nat (exponent z - e) * 2 powi e"
      using that by (simp add: power_int_add [symmetric] flip: power_int_of_nat)
    then show ?thesis by (simp add: f32_val_def)
  qed
  have "f32_val x < f32_val y \<longleftrightarrow>
      real_of_int (mantissa x * 2 ^ nat (exponent x - e)) < real_of_int (mantissa y * 2 ^ nat (exponent y - e))"
    using shift [of x] shift [of y] by (simp add: e_def)
  then show ?thesis by (simp only: of_int_less_iff f32_less_def Let_def e_def)
qed

lemma f32_div_fraction:
  assumes "0 < mantissa x" and "0 < mantissa y"
  obtains p d where "0 < p" "0 < d" and "real p / real d = f32_val x / f32_val y"
    and "f32_div x y = f32_of_fraction p d"
proof -
  define e where "e = exponent x - exponent y"
  define p where "p = scaled_num (nat (mantissa x)) (- e)"
  define d where "d = scaled_den (nat (mantissa y)) (- e)"
  have "real p / real d = real (nat (mantissa x)) / real (nat (mantissa y)) * 2 powi e"
    unfolding p_def d_def scaled_ratio by simp
  also have "\<dots> = f32_val x / f32_val y"
    using assms by (simp add: f32_val_def e_def power_int_diff)
  finally show thesis
    using assms by (intro that [of p d]) (simp_all add: p_def d_def e_def f32_div_def Let_def)
qed

lemma f32_of_size_pos:
  assumes "0 < n" and "n < 2 ^ 24"
  shows "0 < mantissa (f32_of_size n)"
proof -
  have "0 < f32_val (f32_of_size n)" using assms by (simp add: f32_of_size_exact)
  then have "0 < real_of_int (mantissa (f32_of_size n))"
    unfolding f32_val_def by (rule zero_less_mult_pos2) simp
  then show ?thesis by simp
qed

lemma power_int_24: "2 powi - 24 = (1 / 16777216 :: real)"
  using power_int_minus [of "2 :: real" 24] by simp

lemma quotient_at_most_three_quarters:
  assumes "0 < p" "0 < d" and "real p / real d \<le> 3 / 4"
  shows "f32_val (f32_of_fraction p d) \<le> 3 / 4"
proof -
  define e where "e = ulp_exponent p d"
  note bounds = ulp_exponent_bounds [OF assms(1,2), folded e_def]
  have e: "e \<le> - 24"
  proof (rule ccontr)
    assume "\<not> e \<le> - 24"
    then have "2 powi 0 \<le> (2 :: real) powi (e + 23)" by (intro power_int_increasing) auto
    then have "1 \<le> (2 :: real) powi (e + 23)" by simp
    with bounds(1) assms(3) show False by linarith
  qed
  show ?thesis
  proof (cases "e = - 24")
    case True
    with assms f32_fraction_le [of p d "3 * 2 ^ 22"] show ?thesis
      by (simp add: e_def power_int_24)
  next
    case False
    with e have "2 powi (e + 24) \<le> (2 :: real) powi - 1" by (intro power_int_increasing) auto
    moreover have "2 powi (e + 24) = real (2 ^ 24) * 2 powi e" by (simp add: power_int_add)
    ultimately show ?thesis
      using bounds(2) f32_fraction_le [of p d "2 ^ 24"] assms(1,2) by (simp add: e_def power_int_minus)
  qed
qed

lemma quotient_above_three_quarters:
  assumes "0 < p" "0 < d" and "3 / 4 + 1 / 2 ^ 25 < real p / real d"
  shows "3 / 4 < f32_val (f32_of_fraction p d)"
proof -
  define e where "e = ulp_exponent p d"
  note bounds = ulp_exponent_bounds [OF assms(1,2), folded e_def]
  show ?thesis
  proof (cases "0 \<le> e + 23")
    case True
    then have "2 powi 0 \<le> (2 :: real) powi (e + 23)" by (intro power_int_increasing) auto
    moreover have "2 powi (e + 23) = real (2 ^ 23) * 2 powi e" by (simp add: power_int_add)
    ultimately show ?thesis
      using bounds(1) f32_fraction_ge [of p d "2 ^ 23"] assms(1,2) by (simp add: e_def)
  next
    case False
    have "- 24 \<le> e"
    proof (rule ccontr)
      assume "\<not> - 24 \<le> e"
      then have "2 powi (e + 24) \<le> (2 :: real) powi - 1" by (intro power_int_increasing) auto
      then have "2 powi (e + 24) \<le> (1 / 2 :: real)" by (simp add: power_int_minus)
      moreover have "1 / 2 < real p / real d" by (rule less_trans [OF _ assms(3)]) simp
      ultimately show False using bounds(2) by linarith
    qed
    with False have e: "e = - 24" by simp
    have "(real (3 * 2 ^ 22) + 1 / 2) * 2 powi e = 3 / 4 + 1 / 2 ^ 25"
      by (simp add: e power_int_24)
    then have "real (3 * 2 ^ 22 + 1) * 2 powi e \<le> f32_val (f32_of_fraction p d)"
      using f32_fraction_up [OF assms(1,2), of "3 * 2 ^ 22"] assms(3) by (simp only: e_def)
    then show ?thesis by (simp add: e power_int_24)
  qed
qed

text \<open>
  The load test of the default load factor on tables of at most \<open>2 ^ 22\<close> buckets: the rounded
  comparison decides the exact one.
\<close>

theorem three_quarters_test:
  assumes "0 < n" and "n < 2 ^ 24" and "0 < b" and "b \<le> 2 ^ 22"
  shows "f32_less f32_three_quarters (f32_div (f32_of_size n) (f32_of_size b)) \<longleftrightarrow> 3 * b < 4 * n"
proof -
  have b: "b < 2 ^ 24" using assms(4) by simp
  obtain p d where pd: "0 < p" "0 < d" "real p / real d = real n / real b"
    and div: "f32_div (f32_of_size n) (f32_of_size b) = f32_of_fraction p d"
    using f32_div_fraction [of "f32_of_size n" "f32_of_size b"] assms b
    by (metis f32_of_size_pos f32_of_size_exact)
  have val: "f32_val f32_three_quarters = 3 / 4"
    by (simp add: f32_val_def f32_three_quarters_def power_int_minus)
  show ?thesis
  proof (cases "3 * b < 4 * n")
    case True
    then have "3 * real b + 1 \<le> 4 * real n" by linarith
    then have "(3 * real b + 1) / (4 * real b) \<le> (4 * real n) / (4 * real b)"
      by (intro divide_right_mono) simp_all
    then have "3 / 4 + 1 / (4 * real b) \<le> real n / real b"
      using assms(3) by (simp add: add_divide_distrib)
    moreover have "1 / (2 :: real) ^ 25 < 1 / (4 * real b)"
      using assms(3,4) by (intro divide_strict_left_mono) auto
    ultimately have "3 / 4 + 1 / 2 ^ 25 < real p / real d" unfolding pd(3) by linarith
    with pd True show ?thesis
      using quotient_above_three_quarters [of p d] by (simp add: f32_less_iff val div)
  next
    case False
    then have "4 * real n \<le> 3 * real b" by linarith
    then have "real p / real d \<le> 3 / 4"
      unfolding pd(3) using assms(3) by (simp add: field_simps)
    with pd False show ?thesis
      using quotient_at_most_three_quarters [of p d] by (simp add: f32_less_iff val div)
  qed
qed

end
