(* ===== verification/Hash_Map.thy ===== *)
theory Hash_Map
  imports Interfaces Float32 "HOL-Library.Multiset"
begin

text \<open>
  The hash table with separate chaining of \<^verbatim>\<open>src/data_structures/HashMap.hpp\<close>. The functor
  \<^verbatim>\<open>Hash\<close> (\<^verbatim>\<open>std::hash<Key>\<close> everywhere in the program) is the first argument of every operation
  that hashes; nothing is assumed about it. The table is a datatype with the class's data members
  as selectors rather than a record, since the trie's nodes contain tables of nodes.

  A pointer or reference into the table (\<^verbatim>\<open>find\<close>, \<^verbatim>\<open>operator[]\<close>, \<^verbatim>\<open>at\<close>) is modelled by the value
  it points to; writing through it is \<open>HashMap_replace\<close>, which is what \<^verbatim>\<open>replace\<close> does with the
  entry it has found.
\<close>

section \<open>Representation and constructors\<close>

text \<open>The \<^verbatim>\<open>std::list\<close> of a bucket.\<close>

type_synonym ('k, 'v) bucket = "('k \<times> 'v) list"

datatype (dead 'k, 'v) hashmap =
  HashMap (buckets: "('k, 'v) bucket list") (num_elements: nat) (max_load: f32)

type_synonym 'k hasher = "'k \<Rightarrow> nat"

definition HashMap_new :: "nat \<Rightarrow> f32 \<Rightarrow> ('k, 'v) hashmap" where
  "HashMap_new initial_capacity mlf =
     HashMap (replicate (if initial_capacity > 0 then initial_capacity else 16) []) 0
       (if f32_less f32_zero mlf then mlf else f32_three_quarters)"

text \<open>The default arguments: 16 buckets, load factor \<^verbatim>\<open>0.75f\<close>.\<close>

abbreviation HashMap_default :: "('k, 'v) hashmap" where
  "HashMap_default \<equiv> HashMap_new 16 f32_three_quarters"

definition HashMap_size :: "('k, 'v) hashmap \<Rightarrow> nat" where
  "HashMap_size m = num_elements m"

definition HashMap_empty :: "('k, 'v) hashmap \<Rightarrow> bool" where
  "HashMap_empty m \<longleftrightarrow> num_elements m = 0"

definition HashMap_bucket_count :: "('k, 'v) hashmap \<Rightarrow> nat" where
  "HashMap_bucket_count m = length (buckets m)"

definition HashMap_load_factor :: "('k, 'v) hashmap \<Rightarrow> f32" where
  "HashMap_load_factor m = f32_div (f32_of_size (num_elements m)) (f32_of_size (length (buckets m)))"

definition HashMap_max_load_factor :: "('k, 'v) hashmap \<Rightarrow> f32" where
  "HashMap_max_load_factor m = max_load m"

text \<open>
  Moving: the new table takes the members of \<open>other\<close>; \<^verbatim>\<open>other.buckets_\<close>, left empty by the move of
  the vector, is resized to one empty bucket. The move assignment (of two distinct objects) leaves
  the load factor of the target as it was.
\<close>

definition HashMap_move :: "('k, 'v) hashmap \<Rightarrow> ('k, 'v) hashmap \<times> ('k, 'v) hashmap" where
  "HashMap_move other = (other, HashMap [[]] 0 (max_load other))"

definition HashMap_move_assign ::
    "('k, 'v) hashmap \<Rightarrow> ('k, 'v) hashmap \<Rightarrow> ('k, 'v) hashmap \<times> ('k, 'v) hashmap" where
  "HashMap_move_assign self other =
     (HashMap (buckets other) (num_elements other) (max_load self),
      HashMap [[]] 0 (max_load other))"

section \<open>Lookup\<close>

definition get_index :: "'k hasher \<Rightarrow> ('k, 'v) hashmap \<Rightarrow> 'k \<Rightarrow> nat" where
  "get_index h m k = h k mod length (buckets m)"

primrec find_in_bucket :: "'k \<Rightarrow> ('k, 'v) bucket \<Rightarrow> 'v option" where
  "find_in_bucket k [] = None"
| "find_in_bucket k (entry # rest) =
     (if fst entry = k then Some (snd entry) else find_in_bucket k rest)"

definition find_entry :: "'k hasher \<Rightarrow> ('k, 'v) hashmap \<Rightarrow> 'k \<Rightarrow> 'v option" where
  "find_entry h m k = find_in_bucket k (buckets m ! get_index h m k)"

definition HashMap_find :: "'k hasher \<Rightarrow> ('k, 'v) hashmap \<Rightarrow> 'k \<Rightarrow> 'v option" where
  "HashMap_find h m k = find_entry h m k"

definition HashMap_contains :: "'k hasher \<Rightarrow> ('k, 'v) hashmap \<Rightarrow> 'k \<Rightarrow> bool" where
  "HashMap_contains h m k \<longleftrightarrow> HashMap_find h m k \<noteq> None"

datatype map_error = Out_of_range

definition HashMap_at :: "'k hasher \<Rightarrow> ('k, 'v) hashmap \<Rightarrow> 'k \<Rightarrow> map_error + 'v" where
  "HashMap_at h m k =
     (case find_in_bucket k (buckets m ! get_index h m k) of
        Some v \<Rightarrow> Inr v | None \<Rightarrow> Inl Out_of_range)"

section \<open>Rehashing and insertion\<close>

primrec rehash_bucket ::
    "'k hasher \<Rightarrow> nat \<Rightarrow> ('k, 'v) bucket \<Rightarrow> ('k, 'v) bucket list \<Rightarrow> ('k, 'v) bucket list" where
  "rehash_bucket h new_capacity [] new_buckets = new_buckets"
| "rehash_bucket h new_capacity (entry # rest) new_buckets =
     (let new_idx = h (fst entry) mod new_capacity
      in rehash_bucket h new_capacity rest
           (new_buckets[new_idx := new_buckets ! new_idx @ [entry]]))"

primrec rehash_buckets ::
    "'k hasher \<Rightarrow> nat \<Rightarrow> ('k, 'v) bucket list \<Rightarrow> ('k, 'v) bucket list \<Rightarrow> ('k, 'v) bucket list" where
  "rehash_buckets h new_capacity [] new_buckets = new_buckets"
| "rehash_buckets h new_capacity (old_bucket # rest) new_buckets =
     rehash_buckets h new_capacity rest (rehash_bucket h new_capacity old_bucket new_buckets)"

definition HashMap_rehash :: "'k hasher \<Rightarrow> ('k, 'v) hashmap \<Rightarrow> nat \<Rightarrow> ('k, 'v) hashmap" where
  "HashMap_rehash h m new_capacity =
     HashMap (rehash_buckets h new_capacity (buckets m) (replicate new_capacity []))
       (num_elements m) (max_load m)"

text \<open>
  The test \<^verbatim>\<open>static_cast<float>(num_elements_ + 1) / static_cast<float>(buckets_.size()) > max_load_factor_\<close>.
\<close>

definition load_exceeded :: "('k, 'v) hashmap \<Rightarrow> bool" where
  "load_exceeded m \<longleftrightarrow>
     f32_less (max_load m)
       (f32_div (f32_of_size (num_elements m + 1)) (f32_of_size (length (buckets m))))"

definition push_back_entry :: "nat \<Rightarrow> 'k \<times> 'v \<Rightarrow> ('k, 'v) hashmap \<Rightarrow> ('k, 'v) hashmap" where
  "push_back_entry idx entry m =
     HashMap ((buckets m)[idx := buckets m ! idx @ [entry]]) (num_elements m + 1) (max_load m)"

definition safe_insert :: "'k hasher \<Rightarrow> ('k, 'v) hashmap \<Rightarrow> 'k \<Rightarrow> 'v \<Rightarrow> ('k, 'v) hashmap" where
  "safe_insert h m k v =
     (let m = (if load_exceeded m then HashMap_rehash h m (length (buckets m) * 2) else m)
      in push_back_entry (get_index h m k) (k, v) m)"

primrec assign_in_bucket :: "'k \<Rightarrow> 'v \<Rightarrow> ('k, 'v) bucket \<Rightarrow> ('k, 'v) bucket" where
  "assign_in_bucket k v [] = []"
| "assign_in_bucket k v (entry # rest) =
     (if fst entry = k then (fst entry, v) # rest else entry # assign_in_bucket k v rest)"

definition HashMap_replace ::
    "'k hasher \<Rightarrow> ('k, 'v) hashmap \<Rightarrow> 'k \<Rightarrow> 'v \<Rightarrow> bool \<times> ('k, 'v) hashmap" where
  "HashMap_replace h m k v =
     (if find_entry h m k = None then (False, m)
      else let idx = get_index h m k
           in (True, HashMap ((buckets m)[idx := assign_in_bucket k v (buckets m ! idx)])
                      (num_elements m) (max_load m)))"

definition HashMap_insert ::
    "'k hasher \<Rightarrow> ('k, 'v) hashmap \<Rightarrow> 'k \<Rightarrow> 'v \<Rightarrow> bool \<times> ('k, 'v) hashmap" where
  "HashMap_insert h m k v =
     (if find_entry h m k \<noteq> None then (False, m) else (True, safe_insert h m k v))"

definition HashMap_insert_or_assign ::
    "'k hasher \<Rightarrow> ('k, 'v) hashmap \<Rightarrow> 'k \<Rightarrow> 'v \<Rightarrow> bool \<times> ('k, 'v) hashmap" where
  "HashMap_insert_or_assign h m k v =
     (case HashMap_replace h m k v of
        (True, m') \<Rightarrow> (False, m')
      | (False, _) \<Rightarrow> (True, safe_insert h m k v))"

definition HashMap_reserve :: "'k hasher \<Rightarrow> ('k, 'v) hashmap \<Rightarrow> nat \<Rightarrow> ('k, 'v) hashmap" where
  "HashMap_reserve h m n =
     (let required_buckets = f32_ceil (f32_div (f32_of_size n) (max_load m))
      in if required_buckets > length (buckets m) then HashMap_rehash h m required_buckets else m)"

text \<open>
  The loop of the two bulk insertions; both reserve room first. An input iterator that is only
  single-pass skips the reservation (\<open>forward = False\<close>).
\<close>

primrec insert_each :: "'k hasher \<Rightarrow> ('k, 'v) bucket \<Rightarrow> ('k, 'v) hashmap \<Rightarrow> ('k, 'v) hashmap" where
  "insert_each h [] m = m"
| "insert_each h (entry # rest) m =
     insert_each h rest (snd (HashMap_insert h m (fst entry) (snd entry)))"

definition HashMap_insert_range ::
    "'k hasher \<Rightarrow> bool \<Rightarrow> ('k, 'v) hashmap \<Rightarrow> ('k, 'v) bucket \<Rightarrow> ('k, 'v) hashmap" where
  "HashMap_insert_range h forward m es =
     insert_each h es (if forward then HashMap_reserve h m (num_elements m + length es) else m)"

definition HashMap_insert_list ::
    "'k hasher \<Rightarrow> ('k, 'v) hashmap \<Rightarrow> ('k, 'v) bucket \<Rightarrow> ('k, 'v) hashmap" where
  "HashMap_insert_list h m es =
     insert_each h es (HashMap_reserve h m (num_elements m + length es))"

definition calculate_initial_capacity :: "nat \<Rightarrow> f32 \<Rightarrow> nat" where
  "calculate_initial_capacity elements mlf =
     (let factor = (if f32_less f32_zero mlf then mlf else f32_three_quarters)
      in max 16 (f32_ceil (f32_div (f32_of_size elements) factor)))"

definition HashMap_of_list :: "'k hasher \<Rightarrow> ('k, 'v) bucket \<Rightarrow> f32 \<Rightarrow> ('k, 'v) hashmap" where
  "HashMap_of_list h init_list mlf =
     HashMap_insert_list h
       (HashMap_new (calculate_initial_capacity (length init_list) mlf) mlf) init_list"

text \<open>\<^verbatim>\<open>operator[]\<close>: the value found or inserted, and the table; \<open>dflt\<close> is \<^verbatim>\<open>Value{}\<close>.\<close>

definition HashMap_subscript ::
    "'k hasher \<Rightarrow> 'v \<Rightarrow> ('k, 'v) hashmap \<Rightarrow> 'k \<Rightarrow> 'v \<times> ('k, 'v) hashmap" where
  "HashMap_subscript h dflt m k =
     (case find_in_bucket k (buckets m ! get_index h m k) of
        Some v \<Rightarrow> (v, m)
      | None \<Rightarrow>
          let m = (if load_exceeded m then HashMap_rehash h m (length (buckets m) * 2) else m)
          in (dflt, push_back_entry (get_index h m k) (k, dflt) m))"

section \<open>Removal\<close>

primrec erase_in_bucket :: "'k \<Rightarrow> ('k, 'v) bucket \<Rightarrow> ('k, 'v) bucket" where
  "erase_in_bucket k [] = []"
| "erase_in_bucket k (entry # rest) =
     (if fst entry = k then rest else entry # erase_in_bucket k rest)"

definition HashMap_erase ::
    "'k hasher \<Rightarrow> ('k, 'v) hashmap \<Rightarrow> 'k \<Rightarrow> bool \<times> ('k, 'v) hashmap" where
  "HashMap_erase h m k =
     (let idx = get_index h m k; bucket = buckets m ! idx
      in if find_in_bucket k bucket = None then (False, m)
         else (True, HashMap ((buckets m)[idx := erase_in_bucket k bucket])
                       (num_elements m - 1) (max_load m)))"

definition HashMap_clear :: "('k, 'v) hashmap \<Rightarrow> ('k, 'v) hashmap" where
  "HashMap_clear m = HashMap (map (\<lambda>_. []) (buckets m)) 0 (max_load m)"

section \<open>Iterators\<close>

text \<open>
  An iterator is a bucket index and a position in that bucket's list (\<open>0\<close> when it is the
  default-constructed list iterator). \<open>HashMap_iterate\<close> is the loop of a range-based \<^verbatim>\<open>for\<close>:
  the entries it visits, \<open>None\<close> if it would never meet \<^verbatim>\<open>end()\<close>.
\<close>

record map_iterator =
  bucket_idx :: nat
  list_it :: nat

function advance_to_next_valid_bucket :: "'e list list \<Rightarrow> map_iterator \<Rightarrow> map_iterator" where
  "advance_to_next_valid_bucket bs it =
     (if bucket_idx it < length bs
      then if bs ! bucket_idx it = []
           then advance_to_next_valid_bucket bs (it\<lparr>bucket_idx := bucket_idx it + 1\<rparr>)
           else it\<lparr>list_it := 0\<rparr>
      else it)"
  by pat_completeness auto
termination
  by (relation "measure (\<lambda>(bs, it). length bs - bucket_idx it)") auto

declare advance_to_next_valid_bucket.simps [simp del]

definition HashMap_begin :: "('k, 'v) hashmap \<Rightarrow> map_iterator" where
  "HashMap_begin m = advance_to_next_valid_bucket (buckets m) \<lparr>bucket_idx = 0, list_it = 0\<rparr>"

definition HashMap_end :: "('k, 'v) hashmap \<Rightarrow> map_iterator" where
  "HashMap_end m =
     advance_to_next_valid_bucket (buckets m) \<lparr>bucket_idx = length (buckets m), list_it = 0\<rparr>"

definition iterator_next :: "'e list list \<Rightarrow> map_iterator \<Rightarrow> map_iterator" where
  "iterator_next bs it =
     (let it = it\<lparr>list_it := list_it it + 1\<rparr>
      in if list_it it = length (bs ! bucket_idx it)
         then advance_to_next_valid_bucket bs (it\<lparr>bucket_idx := bucket_idx it + 1\<rparr>)
         else it)"

definition iterator_eq :: "'e list list \<Rightarrow> map_iterator \<Rightarrow> map_iterator \<Rightarrow> bool" where
  "iterator_eq bs a b \<longleftrightarrow>
     (if bucket_idx a \<ge> length bs \<and> bucket_idx b \<ge> length bs then True
      else bucket_idx a = bucket_idx b \<and> list_it a = list_it b)"

definition iterator_neq :: "'e list list \<Rightarrow> map_iterator \<Rightarrow> map_iterator \<Rightarrow> bool" where
  "iterator_neq bs a b \<longleftrightarrow> \<not> iterator_eq bs a b"

text \<open>The postfix operator: what it returns and what becomes of the iterator.\<close>

definition iterator_next_post :: "'e list list \<Rightarrow> map_iterator \<Rightarrow> map_iterator \<times> map_iterator" where
  "iterator_next_post bs it = (let temp = it; it = iterator_next bs it in (temp, it))"

text \<open>A \<^verbatim>\<open>ConstIterator\<close> made of an \<^verbatim>\<open>Iterator\<close> copies its fields; the constant bounds are the same.\<close>

definition const_iterator :: "map_iterator \<Rightarrow> map_iterator" where
  "const_iterator other = \<lparr>bucket_idx = bucket_idx other, list_it = list_it other\<rparr>"

definition HashMap_cbegin :: "('k, 'v) hashmap \<Rightarrow> map_iterator" where
  "HashMap_cbegin m = HashMap_begin m"

definition HashMap_cend :: "('k, 'v) hashmap \<Rightarrow> map_iterator" where
  "HashMap_cend m = HashMap_end m"

definition iterator_deref :: "'e list list \<Rightarrow> map_iterator \<Rightarrow> 'e" where
  "iterator_deref bs it = bs ! bucket_idx it ! list_it it"

partial_function (option) iterate_until ::
    "'e list list \<Rightarrow> map_iterator \<Rightarrow> map_iterator \<Rightarrow> 'e list option" where
  "iterate_until bs it stop =
     (if iterator_neq bs it stop then do {
        rest \<leftarrow> iterate_until bs (iterator_next bs it) stop;
        Some (iterator_deref bs it # rest) }
      else Some [])"

definition HashMap_iterate :: "('k, 'v) hashmap \<Rightarrow> ('k, 'v) bucket option" where
  "HashMap_iterate m = iterate_until (buckets m) (HashMap_begin m) (HashMap_end m)"

text \<open>The entries in iteration order; \<open>HashMap_iterate\<close> visits exactly these (see below).\<close>

definition HashMap_entries :: "('k, 'v) hashmap \<Rightarrow> ('k, 'v) bucket" where
  "HashMap_entries m = concat (buckets m)"

text \<open>
  A loop \<^verbatim>\<open>for (auto& pair : m)\<close> whose body may change \<^verbatim>\<open>pair.second\<close> and an outer state, and may
  have undefined behaviour.
\<close>

fun for_bucket ::
    "('k \<Rightarrow> 'v \<Rightarrow> 's \<Rightarrow> ('v \<times> 's) option) \<Rightarrow> ('k, 'v) bucket \<Rightarrow> 's \<Rightarrow> (('k, 'v) bucket \<times> 's) option"
where
  "for_bucket body [] s = Some ([], s)"
| "for_bucket body ((k, v) # rest) s = do {
     (v, s) \<leftarrow> body k v s;
     (rest, s) \<leftarrow> for_bucket body rest s;
     Some ((k, v) # rest, s) }"

fun for_buckets ::
    "('k \<Rightarrow> 'v \<Rightarrow> 's \<Rightarrow> ('v \<times> 's) option) \<Rightarrow> ('k, 'v) bucket list \<Rightarrow> 's
       \<Rightarrow> (('k, 'v) bucket list \<times> 's) option"
where
  "for_buckets body [] s = Some ([], s)"
| "for_buckets body (b # bs) s = do {
     (b, s) \<leftarrow> for_bucket body b s;
     (bs, s) \<leftarrow> for_buckets body bs s;
     Some (b # bs, s) }"

definition HashMap_for_each ::
    "('k \<Rightarrow> 'v \<Rightarrow> 's \<Rightarrow> ('v \<times> 's) option) \<Rightarrow> ('k, 'v) hashmap \<Rightarrow> 's
       \<Rightarrow> (('k, 'v) hashmap \<times> 's) option"
where
  "HashMap_for_each body m s = do {
     (bs, s) \<leftarrow> for_buckets body (buckets m) s;
     Some (HashMap bs (num_elements m) (max_load m), s) }"

section \<open>The invariant\<close>

text \<open>Every entry is in the bucket its hash names, no key occurs twice, the count is right.\<close>

definition placed :: "'k hasher \<Rightarrow> ('k, 'v) bucket list \<Rightarrow> bool" where
  "placed h bs \<longleftrightarrow> (\<forall>i < length bs. \<forall>e \<in> set (bs ! i). h (fst e) mod length bs = i)"

definition hm_inv :: "'k hasher \<Rightarrow> ('k, 'v) hashmap \<Rightarrow> bool" where
  "hm_inv h m \<longleftrightarrow> buckets m \<noteq> [] \<and> placed h (buckets m)
     \<and> distinct (map fst (concat (buckets m)))
     \<and> num_elements m = length (concat (buckets m))"

lemma find_in_bucket_map_of [simp]: "find_in_bucket k b = map_of b k"
  by (induction b) auto

lemma concat_update_mset:
  "i < length bs \<Longrightarrow> mset (concat (bs[i := b])) + mset (bs ! i) = mset (concat bs) + mset b"
proof (induction bs arbitrary: i)
  case (Cons c bs)
  then show ?case by (cases i) (auto simp: union_assoc)
qed simp

lemma placedD: "placed h bs \<Longrightarrow> i < length bs \<Longrightarrow> e \<in> set (bs ! i) \<Longrightarrow> h (fst e) mod length bs = i"
  by (simp add: placed_def)

lemma placed_update:
  assumes "placed h bs" and "\<And>e. e \<in> set b \<Longrightarrow> h (fst e) mod length bs = i"
  shows "placed h (bs[i := b])"
proof (cases "i < length bs")
  case True
  with assms show ?thesis by (auto simp: placed_def nth_list_update split: if_splits)
next
  case False
  with assms(1) show ?thesis by (simp add: list_update_beyond)
qed

lemma placed_key_bucket:
  assumes "placed h bs" and "(k, v) \<in> set (concat bs)"
  shows "(k, v) \<in> set (bs ! (h k mod length bs))"
proof -
  from assms(2) obtain i where "i < length bs" "(k, v) \<in> set (bs ! i)"
    by (auto simp: in_set_conv_nth [of _ bs])
  with placedD [OF assms(1) this] show ?thesis by simp
qed

lemma map_of_concat:
  assumes "placed h bs" and "bs \<noteq> []" and "distinct (map fst (concat bs))"
  shows "map_of (bs ! (h k mod length bs)) k = map_of (concat bs) k"
proof -
  let ?i = "h k mod length bs"
  have i: "?i < length bs" using assms(2) by simp
  then have split: "bs = take ?i bs @ bs ! ?i # drop (Suc ?i) bs" by (rule id_take_nth_drop)
  have "distinct (map fst (concat (take ?i bs @ bs ! ?i # drop (Suc ?i) bs)))"
    using assms(3) split by simp
  then have d: "distinct (map fst (bs ! ?i))" by simp
  have "(k, v) \<in> set (bs ! ?i) \<longleftrightarrow> (k, v) \<in> set (concat bs)" for v
    using placed_key_bucket [OF assms(1)] i by auto
  then have "map_of (bs ! ?i) k = Some v \<longleftrightarrow> map_of (concat bs) k = Some v" for v
    using d assms(3) by (simp add: map_of_eq_Some_iff)
  then show ?thesis by (metis option.exhaust)
qed

lemma find_concat: "hm_inv h m \<Longrightarrow> HashMap_find h m k = map_of (concat (buckets m)) k"
  unfolding HashMap_find_def find_entry_def get_index_def hm_inv_def
  by (simp add: map_of_concat)

lemma get_index_less: "hm_inv h m \<Longrightarrow> get_index h m k < length (buckets m)"
  by (simp add: hm_inv_def get_index_def)

lemma keys_mset_eq: "mset xs = mset ys \<Longrightarrow> mset (map fst xs) = mset (map fst ys)"
  by (simp only: mset_map)

lemma distinct_keys_mset_eq:
  "mset xs = mset ys \<Longrightarrow> distinct (map fst xs) \<longleftrightarrow> distinct (map fst ys)"
  by (rule mset_eq_imp_distinct_iff) (rule keys_mset_eq)

lemma map_of_mset_eq:
  assumes "mset xs = mset ys" and "distinct (map fst xs)"
  shows "map_of xs = map_of ys"
proof
  fix k
  have d: "distinct (map fst ys)"
    using assms distinct_keys_mset_eq by blast
  have "set xs = set ys" using assms(1) by (rule mset_eq_setD)
  then have "map_of xs k = Some v \<longleftrightarrow> map_of ys k = Some v" for v
    using assms(2) d by simp
  then show "map_of xs k = map_of ys k" by (metis option.exhaust)
qed

section \<open>The operations keep the invariant and update the map\<close>

subsection \<open>Constructors\<close>

lemma hm_inv_new [simp]: "hm_inv h (HashMap_new c mlf)"
  by (simp add: hm_inv_def HashMap_new_def placed_def)

lemma find_new [simp]: "HashMap_find h (HashMap_new c mlf) k = None"
  using find_concat [OF hm_inv_new, of h c mlf k] by (simp add: HashMap_new_def split: if_splits)

lemma entries_new [simp]: "HashMap_entries (HashMap_new c mlf) = []"
  by (simp add: HashMap_entries_def HashMap_new_def)

lemma hm_inv_clear: "hm_inv h m \<Longrightarrow> hm_inv h (HashMap_clear m)"
  by (simp add: hm_inv_def HashMap_clear_def placed_def map_replicate_const)

lemma find_clear: "hm_inv h m \<Longrightarrow> HashMap_find h (HashMap_clear m) = Map.empty"
  by (rule ext, subst find_concat [OF hm_inv_clear])
    (simp_all add: HashMap_clear_def map_replicate_const)

subsection \<open>Rehashing\<close>

lemma length_rehash_bucket [simp]: "length (rehash_bucket h n es bs) = length bs"
  by (induction es arbitrary: bs) (simp_all add: Let_def)

lemma length_rehash_buckets [simp]: "length (rehash_buckets h n old bs) = length bs"
  by (induction old arbitrary: bs) simp_all

lemma mset_push:
  "i < length bs \<Longrightarrow> mset (concat (bs[i := bs ! i @ [e]])) = add_mset e (mset (concat bs))"
  using concat_update_mset [of i bs "bs ! i @ [e]"] by simp

lemma mset_rehash_bucket:
  "0 < length bs \<Longrightarrow> mset (concat (rehash_bucket h (length bs) es bs)) = mset es + mset (concat bs)"
proof (induction es arbitrary: bs)
  case (Cons e es)
  let ?i = "h (fst e) mod length bs"
  from Cons.prems have "?i < length bs" by simp
  then show ?case
    using Cons.IH [of "bs[?i := bs ! ?i @ [e]]"] Cons.prems by (simp add: Let_def mset_push)
qed simp

lemma mset_rehash_buckets:
  "0 < length bs \<Longrightarrow>
     mset (concat (rehash_buckets h (length bs) old bs)) = mset (concat old) + mset (concat bs)"
proof (induction old arbitrary: bs)
  case (Cons b old)
  then show ?case
    using Cons.IH [of "rehash_bucket h (length bs) b bs"] by (simp add: mset_rehash_bucket)
qed simp

lemma placed_push: "placed h bs \<Longrightarrow> bs \<noteq> [] \<Longrightarrow> i = h (fst e) mod length bs \<Longrightarrow>
    placed h (bs[i := bs ! i @ [e]])"
  using placedD [of h bs i] by (intro placed_update) force+

lemma placed_rehash_bucket:
  "bs \<noteq> [] \<Longrightarrow> placed h bs \<Longrightarrow> placed h (rehash_bucket h (length bs) es bs)"
proof (induction es arbitrary: bs)
  case (Cons e es)
  let ?i = "h (fst e) mod length bs"
  have "placed h (bs[?i := bs ! ?i @ [e]])" using Cons.prems by (intro placed_push) simp_all
  then show ?case
    using Cons.IH [of "bs[?i := bs ! ?i @ [e]]"] Cons.prems by (simp add: Let_def)
qed simp

lemma placed_rehash_buckets:
  "bs \<noteq> [] \<Longrightarrow> placed h bs \<Longrightarrow> placed h (rehash_buckets h (length bs) old bs)"
proof (induction old arbitrary: bs)
  case (Cons b old)
  then show ?case
    using Cons.IH [of "rehash_bucket h (length bs) b bs"] placed_rehash_bucket [of bs h b]
    by (metis length_rehash_bucket length_0_conv rehash_buckets.simps(2))
qed simp

lemma mset_rehash:
  "0 < n \<Longrightarrow> mset (concat (buckets (HashMap_rehash h m n))) = mset (concat (buckets m))"
  using mset_rehash_buckets [of "replicate n []" h "buckets m"] by (simp add: HashMap_rehash_def)

lemma hm_inv_rehash: "hm_inv h m \<Longrightarrow> 0 < n \<Longrightarrow> hm_inv h (HashMap_rehash h m n)"
proof -
  assume inv: "hm_inv h m" and n: "0 < n"
  have "placed h (rehash_buckets h n (buckets m) (replicate n []))"
    using placed_rehash_buckets [of "replicate n []" h "buckets m"] n by (simp add: placed_def)
  moreover have "distinct (map fst (concat (buckets (HashMap_rehash h m n))))"
    using distinct_keys_mset_eq [OF mset_rehash [OF n, of h m]] inv by (simp add: hm_inv_def)
  moreover have "num_elements m = length (concat (buckets (HashMap_rehash h m n)))"
    using arg_cong [OF mset_rehash [OF n, of h m], of size] inv by (simp add: hm_inv_def)
  moreover have "rehash_buckets h n (buckets m) (replicate n []) \<noteq> []"
    by (rule length_greater_0_conv [THEN iffD1]) (simp add: n)
  ultimately show ?thesis
    unfolding hm_inv_def HashMap_rehash_def hashmap.sel by blast
qed

lemma find_rehash:
  "hm_inv h m \<Longrightarrow> 0 < n \<Longrightarrow> HashMap_find h (HashMap_rehash h m n) k = HashMap_find h m k"
  using map_of_mset_eq [OF mset_rehash [of n h m]] hm_inv_rehash [of h m n]
  by (simp add: find_concat hm_inv_def)

lemma rehash_sizes [simp]:
  "num_elements (HashMap_rehash h m n) = num_elements m"
  "length (buckets (HashMap_rehash h m n)) = n"
  "max_load (HashMap_rehash h m n) = max_load m"
  by (simp_all add: HashMap_rehash_def)

subsection \<open>Insertion and assignment\<close>

lemma hm_inv_push:
  assumes inv: "hm_inv h m" and new: "HashMap_find h m k = None"
  shows "hm_inv h (push_back_entry (get_index h m k) (k, v) m)"
    and "HashMap_find h (push_back_entry (get_index h m k) (k, v) m) = (HashMap_find h m)(k \<mapsto> v)"
proof -
  let ?i = "get_index h m k"
  let ?bs = "(buckets m)[?i := buckets m ! ?i @ [(k, v)]]"
  have i: "?i < length (buckets m)" using inv by (rule get_index_less)
  have ms: "mset (concat ?bs) = add_mset (k, v) (mset (concat (buckets m)))"
    using i by (rule mset_push)
  have "placed h ?bs"
    using inv by (intro placed_push) (simp_all add: hm_inv_def get_index_def)
  moreover have fresh: "k \<notin> fst ` set (concat (buckets m))"
    using new inv by (simp add: find_concat map_of_eq_None_iff)
  moreover have perm: "mset (concat ?bs) = mset ((k, v) # concat (buckets m))"
    using ms by simp
  then have "distinct (map fst (concat ?bs))"
    using fresh inv distinct_keys_mset_eq [OF perm] by (simp add: hm_inv_def)
  moreover have "length (concat ?bs) = num_elements m + 1"
    using arg_cong [OF ms, of size] inv by (simp add: hm_inv_def)
  ultimately show inv': "hm_inv h (push_back_entry ?i (k, v) m)"
    using inv by (simp add: hm_inv_def push_back_entry_def)
  show "HashMap_find h (push_back_entry ?i (k, v) m) = (HashMap_find h m)(k \<mapsto> v)"
    unfolding fun_eq_iff find_concat [OF inv'] find_concat [OF inv, abs_def]
    using map_of_mset_eq [of "(k, v) # concat (buckets m)" "concat ?bs"] ms fresh inv
    by (auto simp: push_back_entry_def hm_inv_def find_concat [OF inv])
qed

lemma safe_insert_correct:
  assumes "hm_inv h m" and "HashMap_find h m k = None"
  shows "hm_inv h (safe_insert h m k v)"
    and "HashMap_find h (safe_insert h m k v) = (HashMap_find h m)(k \<mapsto> v)"
proof -
  have "0 < length (buckets m) * 2" using assms(1) by (simp add: hm_inv_def)
  note re = hm_inv_rehash [OF assms(1) this] find_rehash [OF assms(1) this]
  show "hm_inv h (safe_insert h m k v)"
    using assms re by (simp add: safe_insert_def Let_def hm_inv_push)
  have "HashMap_find h (HashMap_rehash h m (length (buckets m) * 2)) = HashMap_find h m"
    using re(2) by (simp add: fun_eq_iff)
  then show "HashMap_find h (safe_insert h m k v) = (HashMap_find h m)(k \<mapsto> v)"
    using assms re by (simp add: safe_insert_def Let_def hm_inv_push)
qed

lemma keys_assign_in_bucket [simp]: "map fst (assign_in_bucket k v b) = map fst b"
  by (induction b) auto

lemma length_assign_in_bucket [simp]: "length (assign_in_bucket k v b) = length b"
  by (induction b) auto

lemma map_of_assign_in_bucket:
  "map_of (assign_in_bucket k v b) k' =
     (if k' = k \<and> map_of b k \<noteq> None then Some v else map_of b k')"
  by (induction b) auto

lemma find_entry_find: "find_entry h m k = HashMap_find h m k"
  by (simp add: HashMap_find_def)

lemma find_bucket: "HashMap_find h m k = map_of (buckets m ! (h k mod length (buckets m))) k"
  by (simp add: HashMap_find_def find_entry_def get_index_def)

lemma update_map_concat:
  "map f (b ! i) = map f c \<Longrightarrow> map f (concat (b[i := c])) = map f (concat b)"
proof (induction b arbitrary: i)
  case (Cons a b)
  then show ?case by (cases i) auto
qed simp

lemma replace_correct:
  assumes inv: "hm_inv h m"
  shows "hm_inv h (snd (HashMap_replace h m k v))"
    and "fst (HashMap_replace h m k v) \<longleftrightarrow> HashMap_find h m k \<noteq> None"
    and "HashMap_find h (snd (HashMap_replace h m k v)) =
      (if HashMap_find h m k = None then HashMap_find h m else (HashMap_find h m)(k \<mapsto> v))"
proof -
  let ?i = "get_index h m k"
  let ?bs = "(buckets m)[?i := assign_in_bucket k v (buckets m ! ?i)]"
  have i: "?i < length (buckets m)" using inv by (rule get_index_less)
  have keys: "map fst (concat ?bs) = map fst (concat (buckets m))"
    by (rule update_map_concat) simp
  have "h (fst e) mod length (buckets m) = ?i"
    if "e \<in> set (assign_in_bucket k v (buckets m ! ?i))" for e
  proof -
    have "fst e \<in> set (map fst (buckets m ! ?i))"
      using that by (metis image_eqI keys_assign_in_bucket set_map)
    then show ?thesis using inv placedD [OF _ i] by (auto simp: hm_inv_def)
  qed
  then have "placed h ?bs" using inv by (intro placed_update) (auto simp: hm_inv_def)
  moreover have "length (concat ?bs) = num_elements m"
    using arg_cong [OF keys, of length] inv by (simp add: hm_inv_def)
  ultimately show "hm_inv h (snd (HashMap_replace h m k v))"
    using inv keys by (simp add: HashMap_replace_def Let_def hm_inv_def)
  show "fst (HashMap_replace h m k v) \<longleftrightarrow> HashMap_find h m k \<noteq> None"
    by (simp add: HashMap_replace_def Let_def find_entry_find)
  show "HashMap_find h (snd (HashMap_replace h m k v)) =
      (if HashMap_find h m k = None then HashMap_find h m else (HashMap_find h m)(k \<mapsto> v))"
    using i by (auto simp: HashMap_replace_def Let_def find_entry_find fun_eq_iff find_bucket
        get_index_def nth_list_update map_of_assign_in_bucket)
qed

lemma insert_correct:
  assumes "hm_inv h m"
  shows "hm_inv h (snd (HashMap_insert h m k v))"
    and "fst (HashMap_insert h m k v) \<longleftrightarrow> HashMap_find h m k = None"
    and "HashMap_find h (snd (HashMap_insert h m k v)) =
      (if HashMap_find h m k = None then (HashMap_find h m)(k \<mapsto> v) else HashMap_find h m)"
  using assms safe_insert_correct [OF assms]
  by (auto simp: HashMap_insert_def find_entry_find)

lemma insert_or_assign_correct:
  assumes "hm_inv h m"
  shows "hm_inv h (snd (HashMap_insert_or_assign h m k v))"
    and "fst (HashMap_insert_or_assign h m k v) \<longleftrightarrow> HashMap_find h m k = None"
    and "HashMap_find h (snd (HashMap_insert_or_assign h m k v)) = (HashMap_find h m)(k \<mapsto> v)"
  using replace_correct [OF assms, of k v] safe_insert_correct [OF assms, of k v]
  by (auto simp: HashMap_insert_or_assign_def split: prod.split bool.split)

lemma subscript_correct:
  assumes "hm_inv h m"
  shows "hm_inv h (snd (HashMap_subscript h d m k))"
    and "fst (HashMap_subscript h d m k) = (case HashMap_find h m k of Some v \<Rightarrow> v | None \<Rightarrow> d)"
    and "HashMap_find h (snd (HashMap_subscript h d m k)) =
      (if HashMap_find h m k = None then (HashMap_find h m)(k \<mapsto> d) else HashMap_find h m)"
proof -
  have eq: "HashMap_subscript h d m k = (case HashMap_find h m k of
      Some v \<Rightarrow> (v, m) | None \<Rightarrow> (d, safe_insert h m k d))"
    by (simp add: HashMap_subscript_def safe_insert_def find_bucket get_index_def Let_def
        split: option.split)
  show "hm_inv h (snd (HashMap_subscript h d m k))"
    and "fst (HashMap_subscript h d m k) = (case HashMap_find h m k of Some v \<Rightarrow> v | None \<Rightarrow> d)"
    and "HashMap_find h (snd (HashMap_subscript h d m k)) =
      (if HashMap_find h m k = None then (HashMap_find h m)(k \<mapsto> d) else HashMap_find h m)"
    using assms safe_insert_correct [OF assms, of k d] unfolding eq
    by (simp_all split: option.split)
qed

subsection \<open>Removal\<close>

lemma mset_erase_in_bucket:
  "map_of b k = Some v \<Longrightarrow> mset b = add_mset (k, v) (mset (erase_in_bucket k b))"
  by (induction b) (auto split: if_splits)

lemma set_erase_in_bucket: "set (erase_in_bucket k b) \<subseteq> set b"
  by (induction b) auto

lemma map_of_erase_in_bucket:
  "distinct (map fst b) \<Longrightarrow> map_of (erase_in_bucket k b) = (map_of b)(k := None)"
  by (induction b) (auto simp: fun_eq_iff map_of_eq_None_iff)

lemma distinct_bucket: "distinct (map f (concat bs)) \<Longrightarrow> i < length bs \<Longrightarrow> distinct (map f (bs ! i))"
proof (induction bs arbitrary: i)
  case (Cons b bs)
  then show ?case by (cases i) auto
qed simp

lemma erase_correct:
  assumes inv: "hm_inv h m"
  shows "hm_inv h (snd (HashMap_erase h m k))"
    and "fst (HashMap_erase h m k) \<longleftrightarrow> HashMap_find h m k \<noteq> None"
    and "HashMap_find h (snd (HashMap_erase h m k)) = (HashMap_find h m)(k := None)"
proof -
  let ?i = "get_index h m k"
  let ?bs = "(buckets m)[?i := erase_in_bucket k (buckets m ! ?i)]"
  have i: "?i < length (buckets m)" using inv by (rule get_index_less)
  have d: "distinct (map fst (buckets m ! ?i))"
    using inv i by (auto simp: hm_inv_def intro: distinct_bucket)
  have find: "HashMap_find h m k = map_of (buckets m ! ?i) k"
    by (simp add: find_bucket get_index_def)
  show "fst (HashMap_erase h m k) \<longleftrightarrow> HashMap_find h m k \<noteq> None"
    by (simp add: HashMap_erase_def Let_def find)
  have placed: "placed h ?bs"
    using inv placedD [OF _ i] set_erase_in_bucket [of k "buckets m ! ?i"]
    by (intro placed_update) (auto simp: hm_inv_def get_index_def)
  show "hm_inv h (snd (HashMap_erase h m k))"
  proof (cases "map_of (buckets m ! ?i) k")
    case (Some v)
    have "mset (concat (buckets m)) = mset ((k, v) # concat ?bs)"
      using concat_update_mset [OF i, of "erase_in_bucket k (buckets m ! ?i)"]
        mset_erase_in_bucket [OF Some] by simp
    from distinct_keys_mset_eq [OF this] arg_cong [OF this, of size]
    have "distinct (map fst (concat ?bs))" and "length (concat ?bs) = num_elements m - 1"
      using inv by (simp_all add: hm_inv_def)
    with Some placed inv show ?thesis
      by (simp add: HashMap_erase_def Let_def hm_inv_def)
  qed (use inv in \<open>simp add: HashMap_erase_def Let_def\<close>)
  show "HashMap_find h (snd (HashMap_erase h m k)) = (HashMap_find h m)(k := None)"
    using i d find
    by (auto simp: HashMap_erase_def Let_def fun_eq_iff find_bucket get_index_def nth_list_update
        map_of_erase_in_bucket)
qed

subsection \<open>Bulk insertion, moves\<close>

lemma reserve_correct:
  assumes "hm_inv h m"
  shows "hm_inv h (HashMap_reserve h m n)" and "HashMap_find h (HashMap_reserve h m n) = HashMap_find h m"
  using assms hm_inv_rehash [OF assms] find_rehash [OF assms]
  by (auto simp: HashMap_reserve_def Let_def fun_eq_iff)

lemma insert_each_correct:
  "hm_inv h m \<Longrightarrow> hm_inv h (insert_each h es m)
     \<and> HashMap_find h (insert_each h es m) = (\<lambda>k. case HashMap_find h m k of
         Some v \<Rightarrow> Some v | None \<Rightarrow> map_of es k)"
proof (induction es arbitrary: m)
  case Nil
  then show ?case by (auto simp: fun_eq_iff split: option.split)
next
  case (Cons e es)
  show ?case
    using Cons.IH [OF insert_correct(1) [OF Cons.prems]] insert_correct(3) [OF Cons.prems]
    by (cases e) (auto simp: fun_eq_iff split: option.split)
qed

lemma of_list_correct:
  "hm_inv h (HashMap_of_list h es mlf)"
  "HashMap_find h (HashMap_of_list h es mlf) = map_of es"
proof -
  let ?m = "HashMap_new (calculate_initial_capacity (length es) mlf) mlf"
  have "hm_inv h (HashMap_reserve h ?m n)" for n by (simp add: reserve_correct)
  then show "hm_inv h (HashMap_of_list h es mlf)"
    and "HashMap_find h (HashMap_of_list h es mlf) = map_of es"
    by (auto simp: HashMap_of_list_def HashMap_insert_list_def insert_each_correct
        reserve_correct fun_eq_iff)
qed

lemma move_correct:
  assumes "hm_inv h m"
  shows "hm_inv h (snd (HashMap_move m))" and "fst (HashMap_move m) = m"
    and "HashMap_find h (snd (HashMap_move m)) = Map.empty"
    and "hm_inv h (fst (HashMap_move_assign s m))"
    and "HashMap_find h (fst (HashMap_move_assign s m)) = HashMap_find h m"
  using assms
  by (auto simp: HashMap_move_def HashMap_move_assign_def hm_inv_def placed_def fun_eq_iff
      find_bucket)

section \<open>The interface\<close>

interpretation hm: map_adt "hm_inv h" "HashMap_find h" HashMap_entries HashMap_size
  "\<lambda>m k v. snd (HashMap_insert_or_assign h m k v)" "\<lambda>m k. snd (HashMap_erase h m k)" HashMap_clear
  for h :: "'k hasher"
  by unfold_locales
    (auto simp: HashMap_entries_def HashMap_size_def find_concat hm_inv_clear find_clear
      erase_correct insert_or_assign_correct, auto simp: hm_inv_def)

lemma HashMap_empty_iff: "hm_inv h m \<Longrightarrow> HashMap_empty m \<longleftrightarrow> HashMap_find h m = Map.empty"
  using hm.count_0_iff [of h m] by (simp add: HashMap_empty_def HashMap_size_def)

section \<open>Iteration visits every entry once\<close>

definition remaining :: "'e list list \<Rightarrow> map_iterator \<Rightarrow> 'e list" where
  "remaining bs it =
     (if bucket_idx it < length bs
      then drop (list_it it) (bs ! bucket_idx it) @ concat (drop (bucket_idx it + 1) bs) else [])"

definition iterator_ok :: "'e list list \<Rightarrow> map_iterator \<Rightarrow> bool" where
  "iterator_ok bs it \<longleftrightarrow>
     (bucket_idx it < length bs \<longrightarrow> list_it it < length (bs ! bucket_idx it))"

lemma advance_correct:
  "iterator_ok bs (advance_to_next_valid_bucket bs it)
     \<and> remaining bs (advance_to_next_valid_bucket bs it) = concat (drop (bucket_idx it) bs)"
proof (induction bs it rule: advance_to_next_valid_bucket.induct)
  case (1 bs it)
  show ?case
  proof (cases "bucket_idx it < length bs")
    case True
    then have "concat (drop (bucket_idx it) bs)
        = bs ! bucket_idx it @ concat (drop (bucket_idx it + 1) bs)"
      by (simp flip: Cons_nth_drop_Suc)
    with True 1 show ?thesis
      by (cases "bs ! bucket_idx it = []")
        (simp_all add: advance_to_next_valid_bucket.simps [of bs it] iterator_ok_def remaining_def)
  next
    case False
    then show ?thesis
      by (simp add: advance_to_next_valid_bucket.simps [of bs it] iterator_ok_def remaining_def)
  qed
qed

lemma iterator_next_correct:
  assumes "iterator_ok bs it" and "bucket_idx it < length bs"
  shows "iterator_ok bs (iterator_next bs it)"
    and "remaining bs it = iterator_deref bs it # remaining bs (iterator_next bs it)"
proof -
  have p: "list_it it < length (bs ! bucket_idx it)" using assms by (simp add: iterator_ok_def)
  show "iterator_ok bs (iterator_next bs it)"
    using assms p advance_correct [of bs] by (auto simp: iterator_next_def Let_def iterator_ok_def)
  show "remaining bs it = iterator_deref bs it # remaining bs (iterator_next bs it)"
  proof (cases "list_it it + 1 = length (bs ! bucket_idx it)")
    case True
    then have "remaining bs (iterator_next bs it) = concat (drop (bucket_idx it + 1) bs)"
      using advance_correct [of bs] by (simp add: iterator_next_def Let_def)
    moreover have "drop (list_it it) (bs ! bucket_idx it) = [iterator_deref bs it]"
      using True p by (simp add: iterator_deref_def flip: Cons_nth_drop_Suc)
    ultimately show ?thesis using assms(2) by (simp add: remaining_def [of bs it])
  next
    case False
    with assms(2) p show ?thesis
      by (simp add: iterator_next_def Let_def iterator_deref_def remaining_def Cons_nth_drop_Suc)
  qed
qed

lemma iterate_until_correct:
  assumes "iterator_ok bs it" and "length bs \<le> bucket_idx last_it"
  shows "iterate_until bs it last_it = Some (remaining bs it)"
  using assms
proof (induction "remaining bs it" arbitrary: it)
  case Nil
  then have "\<not> bucket_idx it < length bs" by (auto simp: remaining_def iterator_ok_def)
  with Nil show ?case by (simp add: iterate_until.simps [of bs it] iterator_neq_def iterator_eq_def)
next
  case (Cons x xs)
  then have i: "bucket_idx it < length bs" by (auto simp: remaining_def split: if_splits)
  note next_it = iterator_next_correct [OF Cons.prems(1) i]
  have "iterate_until bs (iterator_next bs it) last_it = Some (remaining bs (iterator_next bs it))"
    using Cons.hyps(2) Cons.prems next_it by (intro Cons.hyps(1)) simp_all
  with next_it(2) i Cons.prems(2) show ?case
    by (simp add: iterate_until.simps [of bs it] iterator_neq_def iterator_eq_def)
qed

text \<open>A constant iterator is where the other is, and a postfix increment returns where it was.\<close>

lemma const_iterator [simp]: "const_iterator it = it"
  by (simp add: const_iterator_def)

lemma iterator_next_post_correct:
  assumes "iterator_ok bs it" and "bucket_idx it < length bs"
  shows "case iterator_next_post bs it of (old, new) \<Rightarrow> iterator_ok bs new
    \<and> remaining bs it = iterator_deref bs old # remaining bs new"
  using iterator_next_correct [OF assms] by (simp add: iterator_next_post_def)

lemma iterate_entries: "HashMap_iterate m = Some (HashMap_entries m)"
proof -
  have "bucket_idx (HashMap_end m) = length (buckets m)"
    by (simp add: HashMap_end_def advance_to_next_valid_bucket.simps)
  then show ?thesis
    using advance_correct [of "buckets m" "\<lparr>bucket_idx = 0, list_it = 0\<rparr>"]
    by (simp add: HashMap_iterate_def HashMap_begin_def iterate_until_correct HashMap_entries_def)
qed

text \<open>The loop over the entries is the loop over the list of entries.\<close>

lemma for_bucket_append:
  "for_bucket body (xs @ ys) s = do {
     (xs', s) \<leftarrow> for_bucket body xs s;
     (ys', s) \<leftarrow> for_bucket body ys s;
     Some (xs' @ ys', s) }"
proof (induction xs arbitrary: s)
  case Nil
  then show ?case by (cases "for_bucket body ys s") auto
next
  case (Cons e xs)
  obtain k v where e: "e = (k, v)" by fastforce
  show ?case
  proof (cases "body k v s")
    case (Some r)
    then obtain v' s1 where r: "body k v s = Some (v', s1)" by fastforce
    show ?thesis
      using Cons.IH [of s1] by (cases "for_bucket body xs s1"; cases "for_bucket body ys (snd (the (for_bucket body xs s1)))")
        (auto simp: e r)
  qed (simp add: e)
qed

lemma for_bucket_keys: "for_bucket body xs s = Some (ys, s') \<Longrightarrow> map fst ys = map fst xs"
proof (induction xs arbitrary: ys s)
  case (Cons e xs)
  then show ?case by (cases e) (auto simp: bind_eq_Some_conv)
qed simp

lemma for_buckets_concat:
  "map_option (\<lambda>(bs', s'). (concat bs', s')) (for_buckets body bs s) = for_bucket body (concat bs) s"
proof (induction bs arbitrary: s)
  case (Cons b bs)
  show ?case
  proof (cases "for_bucket body b s")
    case (Some r)
    then obtain b' s1 where r: "for_bucket body b s = Some (b', s1)" by fastforce
    show ?thesis
      using Cons.IH [of s1, symmetric] by (cases "for_buckets body bs s1") (auto simp: r for_bucket_append)
  qed (simp add: for_bucket_append)
qed simp

lemma for_buckets_keys:
  "for_buckets body bs s = Some (bs', s') \<Longrightarrow> map (map fst) bs' = map (map fst) bs"
proof (induction bs arbitrary: bs' s)
  case (Cons b bs)
  then show ?case by (auto simp: bind_eq_Some_conv dest: for_bucket_keys)
qed simp

lemma placed_keys: "map (map fst) bs' = map (map fst) bs \<Longrightarrow> placed h bs' \<longleftrightarrow> placed h bs"
proof -
  assume eq: "map (map fst) bs' = map (map fst) bs"
  then have len: "length bs' = length bs" by (metis length_map)
  have "fst ` set (bs' ! i) = fst ` set (bs ! i)" if "i < length bs" for i
  proof -
    have "map fst (bs' ! i) = map fst (bs ! i)"
      using that len arg_cong [OF eq, of "\<lambda>l. l ! i"] by simp
    then show ?thesis by (metis set_map)
  qed
  then have "(\<forall>k \<in> fst ` set (bs' ! i). h k mod length bs = i)
      \<longleftrightarrow> (\<forall>k \<in> fst ` set (bs ! i). h k mod length bs = i)" if "i < length bs" for i
    using that by simp
  then show ?thesis by (simp add: placed_def len)
qed

lemma for_each_correct:
  assumes "HashMap_for_each body m s = Some (m', s')"
  shows "for_bucket body (HashMap_entries m) s = Some (HashMap_entries m', s')"
    and "hm_inv h m' \<longleftrightarrow> hm_inv h m"
    and "map fst (HashMap_entries m') = map fst (HashMap_entries m)"
proof -
  from assms obtain bs where bs: "for_buckets body (buckets m) s = Some (bs, s')"
    and m': "m' = HashMap bs (num_elements m) (max_load m)"
    by (auto simp: HashMap_for_each_def bind_eq_Some_conv)
  show loop: "for_bucket body (HashMap_entries m) s = Some (HashMap_entries m', s')"
    using for_buckets_concat [of body "buckets m" s] by (simp add: HashMap_entries_def bs m')
  note keys = for_buckets_keys [OF bs]
  have "map fst (concat bs) = map fst (concat (buckets m))"
    using arg_cong [OF keys, of concat] by (simp add: map_concat)
  moreover from arg_cong [OF this, of length]
  have "length (concat bs) = length (concat (buckets m))" by (simp only: length_map)
  moreover have "bs = [] \<longleftrightarrow> buckets m = []" using keys by (metis map_is_Nil_conv)
  ultimately show "hm_inv h m' \<longleftrightarrow> hm_inv h m"
    using placed_keys [OF keys] by (simp add: hm_inv_def m')
  show "map fst (HashMap_entries m') = map fst (HashMap_entries m)"
    using loop by (rule for_bucket_keys)
qed

lemma for_each_Some:
  assumes "for_bucket body (HashMap_entries m) s = Some (es, s')"
  shows "\<exists>m'. HashMap_for_each body m s = Some (m', s')"
  using for_buckets_concat [of body "buckets m" s] assms
  by (auto simp: HashMap_for_each_def HashMap_entries_def)

text \<open>A loop whose body changes nothing.\<close>

lemma for_each_same:
  assumes "\<And>k v. (k, v) \<in> set (HashMap_entries m) \<Longrightarrow> body k v s = Some (v, s)"
  shows "HashMap_for_each body m s = Some (m, s)"
proof -
  have one: "for_bucket body b s = Some (b, s)" if "\<And>k v. (k, v) \<in> set b \<Longrightarrow> body k v s = Some (v, s)" for b
    using that by (induction b) auto
  have "for_buckets body bs s = Some (bs, s)" if "\<And>k v. (k, v) \<in> set (concat bs) \<Longrightarrow> body k v s = Some (v, s)" for bs
    using that by (induction bs) (auto simp: one)
  with assms show ?thesis by (cases m) (simp add: HashMap_for_each_def HashMap_entries_def)
qed

text \<open>The rule for such a loop: what its body does to each value, with a result for every entry.\<close>

lemma for_bucket_rel:
  assumes "\<And>k v s. (k, v) \<in> set es \<Longrightarrow> \<exists>v' s'. body k v s = Some (v', s') \<and> R k v v'"
  shows "\<exists>es' s'. for_bucket body es s = Some (es', s')
    \<and> (\<forall>k. rel_option (R k) (map_of es k) (map_of es' k))"
  using assms
proof (induction es arbitrary: s)
  case (Cons e es)
  obtain k v where e: "e = (k, v)" by fastforce
  then obtain v' s1 where v': "body k v s = Some (v', s1)" "R k v v'"
    using Cons.prems [of k v s] by auto
  have "\<exists>es' s'. for_bucket body es s1 = Some (es', s')
      \<and> (\<forall>k. rel_option (R k) (map_of es k) (map_of es' k))"
    by (rule Cons.IH, rule Cons.prems) simp
  with e v' show ?case by auto
qed simp

lemma for_each_rel:
  assumes inv: "hm_inv h m"
    and body: "\<And>k v s. HashMap_find h m k = Some v \<Longrightarrow> \<exists>v' s'. body k v s = Some (v', s') \<and> R k v v'"
  shows "\<exists>m' s'. HashMap_for_each body m s = Some (m', s') \<and> hm_inv h m'
    \<and> (\<forall>k. rel_option (R k) (HashMap_find h m k) (HashMap_find h m' k))"
proof -
  have "\<exists>es' s'. for_bucket body (HashMap_entries m) s = Some (es', s')
      \<and> (\<forall>k. rel_option (R k) (map_of (HashMap_entries m) k) (map_of es' k))"
    by (rule for_bucket_rel, rule body) (simp add: hm.in_entries [OF inv])
  then obtain es' s' where loop: "for_bucket body (HashMap_entries m) s = Some (es', s')"
    and rel: "\<And>k. rel_option (R k) (map_of (HashMap_entries m) k) (map_of es' k)" by blast
  from for_each_Some [OF loop] obtain m' where each: "HashMap_for_each body m s = Some (m', s')" by blast
  have inv': "hm_inv h m'" using for_each_correct(2) [OF each] inv by blast
  have "HashMap_entries m' = es'" using for_each_correct(1) [OF each] loop by simp
  with each inv' rel show ?thesis by (simp add: hm.find_entries [OF inv] hm.find_entries [OF inv'])
qed

text \<open>
  The loop as a sequence of lookups and replacements: each key in turn, in iteration order. In a
  sound table that is the same, to the last bucket.
\<close>

fun replace_each ::
    "'k hasher \<Rightarrow> ('k \<Rightarrow> 'v \<Rightarrow> 's \<Rightarrow> ('v \<times> 's) option) \<Rightarrow> 'k list \<Rightarrow> ('k, 'v) hashmap \<Rightarrow> 's
       \<Rightarrow> (('k, 'v) hashmap \<times> 's) option"
where
  "replace_each h body [] m s = Some (m, s)"
| "replace_each h body (k # ks) m s =
     (case HashMap_find h m k of
        None \<Rightarrow> None
      | Some v \<Rightarrow> do {
          (v, s) \<leftarrow> body k v s;
          replace_each h body ks (snd (HashMap_replace h m k v)) s })"

lemma assign_in_bucket_append:
  "assign_in_bucket k v (xs @ ys) = (if k \<in> fst ` set xs then assign_in_bucket k v xs @ ys else xs @ assign_in_bucket k v ys)"
  by (induction xs) auto

lemma assign_in_bucket_absent: "k \<notin> fst ` set b \<Longrightarrow> assign_in_bucket k v b = b"
  by (induction b) auto

lemma assign_in_bucket_twice: "assign_in_bucket k v (assign_in_bucket k w b) = assign_in_bucket k v b"
  by (induction b) auto

lemma replace_twice:
  assumes "hm_inv h m"
  shows "snd (HashMap_replace h (snd (HashMap_replace h m k w)) k v) = snd (HashMap_replace h m k v)"
proof (cases "HashMap_find h m k")
  case (Some u)
  let ?i = "get_index h m k"
  have "?i < length (buckets m)" using assms by (rule get_index_less)
  moreover have "get_index h (snd (HashMap_replace h m k w)) k = ?i"
    by (simp add: get_index_def HashMap_replace_def Let_def)
  moreover have "HashMap_find h (snd (HashMap_replace h m k w)) k \<noteq> None"
    using Some by (simp add: replace_correct(3) [OF assms])
  ultimately show ?thesis
    using Some by (simp add: HashMap_replace_def [of h _ k v] find_entry_find Let_def)
      (auto simp: HashMap_replace_def find_entry_find Let_def assign_in_bucket_twice)
qed (simp add: HashMap_replace_def find_entry_find)

lemma replace_same:
  assumes "HashMap_find h m k = Some v"
  shows "snd (HashMap_replace h m k v) = m"
proof -
  have "assign_in_bucket k v b = b" if "map_of b k = Some v" for b
    using that by (induction b) auto
  with assms show ?thesis by (cases m) (simp add: HashMap_replace_def Let_def HashMap_find_def find_entry_def)
qed

text \<open>What a table is besides its entries.\<close>

definition table_shape :: "('k, 'v) hashmap \<Rightarrow> 'k list list \<times> nat \<times> f32" where
  "table_shape m = (map (map fst) (buckets m), num_elements m, max_load m)"

lemma table_determined:
  assumes "table_shape m = table_shape m'" and "HashMap_entries m = HashMap_entries m'"
  shows "m = m'"
proof -
  have keys: "map (map fst) (buckets m) = map (map fst) (buckets m')" using assms(1) by (simp add: table_shape_def)
  then have "length (buckets m) = length (buckets m')" by (metis length_map)
  moreover have "\<forall>(x, y) \<in> set (zip (buckets m) (buckets m')). length x = length y"
  proof clarify
    fix x y assume "(x, y) \<in> set (zip (buckets m) (buckets m'))"
    then obtain i where "i < length (buckets m)" "i < length (buckets m')" "x = buckets m ! i" "y = buckets m' ! i"
      by (auto simp: set_zip)
    with arg_cong [OF keys, of "\<lambda>l. length (l ! i)"] show "length x = length y" by simp
  qed
  ultimately have "buckets m = buckets m'"
    using assms(2) concat_injective [of "buckets m" "buckets m'"] by (simp add: HashMap_entries_def)
  with assms(1) show ?thesis by (cases m; cases m') (simp add: table_shape_def)
qed

lemma replace_shape: 
  assumes "hm_inv h m"
  shows "table_shape (snd (HashMap_replace h m k v)) = table_shape m"
  using get_index_less [OF assms, of k]
  by (simp add: table_shape_def HashMap_replace_def Let_def map_update) (metis list_update_id map_update)

lemma replace_entries:
  assumes inv: "hm_inv h m" and "HashMap_find h m k \<noteq> None"
  shows "HashMap_entries (snd (HashMap_replace h m k v)) = assign_in_bucket k v (HashMap_entries m)"
proof -
  let ?bs = "buckets m" and ?i = "get_index h m k"
  have i: "?i < length ?bs" using inv by (rule get_index_less)
  have "k \<notin> fst ` set (concat (take ?i ?bs))"
  proof
    assume "k \<in> fst ` set (concat (take ?i ?bs))"
    then obtain j v where "j < ?i" "(k, v) \<in> set (?bs ! j)" by (auto simp: in_set_conv_nth [of _ "take ?i ?bs"])
    with placedD [of h ?bs j "(k, v)"] inv i show False by (auto simp: hm_inv_def get_index_def)
  qed
  moreover have "k \<in> fst ` set (?bs ! ?i)"
    using assms(2) by (metis HashMap_find_def find_entry_def find_in_bucket_map_of map_of_eq_None_iff)
  moreover have "concat ?bs = concat (take ?i ?bs) @ ?bs ! ?i @ concat (drop (Suc ?i) ?bs)"
    using id_take_nth_drop [OF i] by (metis concat.simps(2) concat_append)
  moreover have "concat (?bs[?i := b]) = concat (take ?i ?bs) @ b @ concat (drop (Suc ?i) ?bs)" for b
    using i by (simp add: upd_conv_take_nth_drop)
  ultimately show ?thesis
    using assms(2) by (auto simp: HashMap_entries_def HashMap_replace_def find_entry_find Let_def assign_in_bucket_append)
qed

lemma replace_each_loop:
  assumes "hm_inv h m" and "HashMap_entries m = pre @ rest"
  shows "(case replace_each h body (map fst rest) m s of None \<Rightarrow> for_bucket body rest s = None
    | Some (m', s') \<Rightarrow> table_shape m' = table_shape m \<and> (\<exists>rest'. for_bucket body rest s = Some (rest', s')
        \<and> HashMap_entries m' = pre @ rest'))"
  using assms
proof (induction rest arbitrary: m pre s)
  case (Cons e rest)
  obtain k v where e: "e = (k, v)" by fastforce
  have distinct: "distinct (map fst (pre @ (k, v) # rest))"
    using Cons.prems by (simp add: e hm_inv_def HashMap_entries_def)
  have find: "HashMap_find h m k = Some v"
    using Cons.prems distinct by (simp add: hm.find_entries [OF Cons.prems(1)] e map_add_def split: option.split)
      (auto simp: map_of_eq_None_iff image_iff dest: map_of_SomeD)
  show ?case
  proof (cases "body k v s")
    case (Some r)
    then obtain v' s1 where r: "body k v s = Some (v', s1)" by fastforce
    let ?m = "snd (HashMap_replace h m k v')"
    have "HashMap_entries ?m = (pre @ [(k, v')]) @ rest"
      using distinct Cons.prems(2) find
      by (simp add: replace_entries [OF Cons.prems(1)] e assign_in_bucket_append)
    from Cons.IH [OF replace_correct(1) [OF Cons.prems(1)] this, of s1] show ?thesis
      by (auto simp: e find r replace_shape [OF Cons.prems(1)] split: option.splits)
  qed (simp add: e find)
qed simp

theorem for_each_replaces:
  assumes "hm_inv h m"
  shows "HashMap_for_each body m s = replace_each h body (map fst (HashMap_entries m)) m s"
proof (cases "replace_each h body (map fst (HashMap_entries m)) m s")
  case None
  with replace_each_loop [OF assms, of "[]" "HashMap_entries m" body s] for_each_correct(1) [of body m s]
  show ?thesis by (cases "HashMap_for_each body m s") auto
next
  case (Some r)
  then obtain m' s' where r: "replace_each h body (map fst (HashMap_entries m)) m s = Some (m', s')" by fastforce
  with replace_each_loop [OF assms, of "[]" "HashMap_entries m" body s]
  have loop: "for_bucket body (HashMap_entries m) s = Some (HashMap_entries m', s')" and shape: "table_shape m' = table_shape m"
    by auto
  from for_each_Some [OF loop] obtain m2 where each: "HashMap_for_each body m s = Some (m2, s')" by blast
  then have "HashMap_entries m2 = HashMap_entries m'" using for_each_correct(1) [OF each] loop by simp
  moreover have "table_shape m2 = table_shape m"
    using each by (auto simp: HashMap_for_each_def bind_eq_Some_conv table_shape_def dest: for_buckets_keys)
  ultimately have "m2 = m'" using shape by (intro table_determined) simp_all
  with each r show ?thesis by simp
qed

section \<open>The load factor\<close>

lemma load_exceeded_default:
  assumes "max_load m = f32_three_quarters" and "num_elements m < 2 ^ 23"
    and "0 < length (buckets m)" and "length (buckets m) \<le> 2 ^ 22"
  shows "load_exceeded m \<longleftrightarrow> 3 * length (buckets m) < 4 * (num_elements m + 1)"
  using three_quarters_test [of "num_elements m + 1" "length (buckets m)"] assms
  by (simp add: load_exceeded_def)

text \<open>
  With the default factor the table keeps at most three entries for four buckets: \<open>safe_insert\<close>
  doubles the buckets before the bound would be exceeded.
\<close>

definition three_quarters_full :: "('k, 'v) hashmap \<Rightarrow> bool" where
  "three_quarters_full m \<longleftrightarrow> max_load m = f32_three_quarters \<and> 2 \<le> length (buckets m)
     \<and> 4 * num_elements m \<le> 3 * length (buckets m)"

lemma load_exact:
  assumes "three_quarters_full m" and "num_elements m < 2 ^ 21" and "length (buckets m) \<le> 2 ^ 22"
  shows "load_exceeded m \<longleftrightarrow> 3 * length (buckets m) < 4 * (num_elements m + 1)"
  using assms by (intro load_exceeded_default) (auto simp: three_quarters_full_def)

lemma safe_insert_buckets:
  "length (buckets (safe_insert h m k v)) = (if load_exceeded m then 2 * length (buckets m) else length (buckets m))"
  by (simp add: safe_insert_def Let_def push_back_entry_def HashMap_rehash_def)

lemma safe_insert_load:
  assumes "three_quarters_full m" and "num_elements m < 2 ^ 21" and "length (buckets m) \<le> 2 ^ 22"
  shows "three_quarters_full (safe_insert h m k v)"
  using assms(1) load_exact [OF assms]
  by (auto simp: three_quarters_full_def safe_insert_def Let_def push_back_entry_def HashMap_rehash_def)

section \<open>Properties\<close>

text \<open>
  C34: \<^verbatim>\<open>insert_or_assign\<close> binds the key to the value, leaves every other key alone, keeps the
  table sound, counts a new key once, and answers whether the key was new.
\<close>

theorem HashMap_insert_or_assign_spec:
  assumes "hm_inv h m"
  shows "case HashMap_insert_or_assign h m k v of (is_new, m') \<Rightarrow>
    hm_inv h m' \<and> HashMap_find h m' = (HashMap_find h m)(k \<mapsto> v)
    \<and> is_new = (HashMap_find h m k = None)
    \<and> HashMap_size m' = (if is_new then Suc (HashMap_size m) else HashMap_size m)"
  using insert_or_assign_correct [OF assms, of k v] hm.count_assign [OF assms, of k v]
  by (auto split: prod.split)

theorem HashMap_insert_or_assign_witness:
  "hm_inv unat (HashMap_default :: (u32, bool) hashmap)
   \<and> HashMap_find unat (snd (HashMap_insert_or_assign unat HashMap_default (21 :: u32) True)) 21 = Some True"
  using HashMap_insert_or_assign_spec [of unat "HashMap_default :: (u32, bool) hashmap" 21 True]
  by (auto split: prod.splits)

text \<open>
  \<^verbatim>\<open>erase\<close> removes exactly the given key, keeps the table sound, counts one entry less if the
  key was there, and answers whether it was.
\<close>

theorem HashMap_erase_spec:
  assumes "hm_inv h m"
  shows "case HashMap_erase h m k of (erased, m') \<Rightarrow>
    hm_inv h m' \<and> HashMap_find h m' = (HashMap_find h m)(k := None)
    \<and> erased = (HashMap_find h m k \<noteq> None)
    \<and> HashMap_size m = (if erased then Suc (HashMap_size m') else HashMap_size m')"
proof -
  have "HashMap_size m \<noteq> 0" if "HashMap_find h m k \<noteq> None"
    using that hm.count_0_iff [OF assms] by auto
  then show ?thesis
    using erase_correct [OF assms, of k] hm.count_delete [OF assms, of k] by (auto split: prod.split)
qed

theorem HashMap_erase_witness:
  "HashMap_find unat (snd (HashMap_erase unat
     (snd (HashMap_insert_or_assign unat HashMap_default (21 :: u32) True)) 21)) 21 = None"
proof -
  let ?m = "snd (HashMap_insert_or_assign unat HashMap_default (21 :: u32) True)"
  have "hm_inv unat ?m" by (simp add: insert_or_assign_correct)
  from HashMap_erase_spec [OF this, of 21] show ?thesis by (auto split: prod.splits)
qed

text \<open>
  C35: Iterating from \<^verbatim>\<open>begin()\<close> to \<^verbatim>\<open>end()\<close> terminates without leaving the table and visits every
  binding exactly once.
\<close>

theorem HashMap_iterate_spec:
  assumes "hm_inv h m"
  shows "\<exists>es. HashMap_iterate m = Some es \<and> distinct (map fst es) \<and> length es = HashMap_size m
    \<and> (\<forall>k v. (k, v) \<in> set es \<longleftrightarrow> HashMap_find h m k = Some v)"
  using hm.distinct_entries [OF assms] hm.count_entries [OF assms] hm.in_entries [OF assms]
  by (simp add: iterate_entries)

theorem HashMap_iterate_witness:
  "\<exists>es. HashMap_iterate (snd (HashMap_insert_or_assign unat HashMap_default (21 :: u32) True)) = Some es
     \<and> (21, True) \<in> set es"
proof -
  let ?m = "snd (HashMap_insert_or_assign unat HashMap_default (21 :: u32) True)"
  have "hm_inv unat ?m" by (simp add: insert_or_assign_correct)
  from HashMap_iterate_spec [OF this] show ?thesis by (auto simp: insert_or_assign_correct(3))
qed

text \<open>
  \<^verbatim>\<open>operator[]\<close> yields the bound value, or binds a new key to the default value and yields that.
\<close>

theorem HashMap_subscript_spec:
  assumes "hm_inv h m"
  shows "case HashMap_subscript h dflt m k of (v, m') \<Rightarrow>
    hm_inv h m' \<and> HashMap_find h m' k = Some v
    \<and> v = (case HashMap_find h m k of Some old \<Rightarrow> old | None \<Rightarrow> dflt)
    \<and> (\<forall>k'. k' \<noteq> k \<longrightarrow> HashMap_find h m' k' = HashMap_find h m k')"
  using subscript_correct [OF assms, of dflt k] by (auto split: prod.split option.split)

theorem HashMap_subscript_witness:
  "fst (HashMap_subscript unat (7 :: nat) HashMap_default (21 :: u32)) = 7"
  using HashMap_subscript_spec [of unat "HashMap_default :: (u32, nat) hashmap" 21 7]
  by (auto split: prod.splits)

text \<open>
  A table built from an initializer list binds every key to its first value in the list.
\<close>

lemma HashMap_of_list_spec:
  "hm_inv h (HashMap_of_list h es mlf) \<and> HashMap_find h (HashMap_of_list h es mlf) = map_of es"
  by (simp add: of_list_correct)

text \<open>
  C36: The load test of \<^verbatim>\<open>insert\<close>, computed in \<^verbatim>\<open>float\<close> with the default load factor, is exact in the range
  considered: it holds iff one more entry makes more than three entries for four buckets. The buckets are
  doubled exactly when the key is new and the test holds, and so there are never more than three entries
  for four buckets. The range: fewer than \<open>2 ^ 21\<close> entries and at most \<open>2 ^ 22\<close> buckets.
\<close>

theorem HashMap_insert_load:
  assumes "three_quarters_full m" and "num_elements m < 2 ^ 21" and "length (buckets m) \<le> 2 ^ 22"
  shows "(load_exceeded m \<longleftrightarrow> 4 * (num_elements m + 1) > 3 * length (buckets m))
    \<and> length (buckets (snd (HashMap_insert h m k v)))
        = (if HashMap_find h m k = None \<and> 4 * (num_elements m + 1) > 3 * length (buckets m)
           then 2 * length (buckets m) else length (buckets m))
    \<and> three_quarters_full (snd (HashMap_insert h m k v))"
  using assms safe_insert_load [OF assms, of h k v] load_exact [OF assms] safe_insert_buckets [of h m k v]
  by (auto simp: HashMap_insert_def HashMap_find_def)

text \<open>Twelve entries for sixteen buckets are not too many, the thirteenth is.\<close>

definition sample_table :: "nat \<Rightarrow> (nat, bool) hashmap" where
  "sample_table n = HashMap (map (\<lambda>i. [(i, True)]) [0..<n] @ replicate (16 - n) []) n f32_three_quarters"

theorem HashMap_insert_load_witness:
  "length (buckets (snd (HashMap_insert id (sample_table 11) 11 True))) = 16
   \<and> length (buckets (snd (HashMap_insert id (sample_table 12) 12 True))) = 32"
proof -
  have full: "three_quarters_full (sample_table 11)" "three_quarters_full (sample_table 12)"
    by (simp_all add: three_quarters_full_def sample_table_def)
  have new: "HashMap_find id (sample_table 12) 12 = None"
    by (simp add: sample_table_def HashMap_find_def find_entry_def get_index_def nth_append)
  have "length (buckets (sample_table 11)) = 16" "length (buckets (sample_table 12)) = 16"
    "num_elements (sample_table 11) = 11" "num_elements (sample_table 12) = 12"
    by (simp_all add: sample_table_def)
  with HashMap_insert_load [OF full(1), of id 11 True] HashMap_insert_load [OF full(2), of id 12 True] new
  show ?thesis by simp
qed

end
