(* ===== verification/Prefix_Tree.thy ===== *)
theory Prefix_Tree
  imports Hash_Map
begin

text \<open>
  The trie of subscribers: \<^verbatim>\<open>src/data_structures/PrefixTree.hpp\<close> and \<^verbatim>\<open>PrefixTree.cpp\<close>. A node owns
  its children through \<^verbatim>\<open>std::unique_ptr\<close>, so the nodes form a tree and the C++ pointer
  \<^verbatim>\<open>current_node\<close> is a position in it: the loops over the prefix are recursive functions that
  rebuild the path they walk. A \<^verbatim>\<open>unique_ptr\<close> is an \<open>option\<close>, \<open>None\<close> being null; following a null
  pointer has no result. The hash of \<^verbatim>\<open>char\<close> is the parameter \<open>h\<close>.
\<close>

section \<open>The tree and its operations\<close>

datatype node =
  Node (subscribers: "string list") (children: "(char, node option) hashmap")

record prefix_tree =
  root :: node
  subscriber_count :: nat

definition empty_node :: node where
  "empty_node = Node [] HashMap_default"

definition PrefixTree_new :: prefix_tree where
  "PrefixTree_new = \<lparr>root = empty_node, subscriber_count = 0\<rparr>"

definition PrefixTree_subscriber_count :: "prefix_tree \<Rightarrow> nat" where
  "PrefixTree_subscriber_count t = subscriber_count t"

definition PrefixTree_empty :: "prefix_tree \<Rightarrow> bool" where
  "PrefixTree_empty t \<longleftrightarrow> subscriber_count t = 0"

text \<open>
  \<^verbatim>\<open>insert\<close>: \<^verbatim>\<open>children[ch]\<close> creates a null pointer for a new character, which is then replaced by
  a new node.
\<close>

fun node_insert :: "char hasher \<Rightarrow> string \<Rightarrow> string \<Rightarrow> node \<Rightarrow> node" where
  "node_insert h [] client_id n = Node (subscribers n @ [client_id]) (children n)"
| "node_insert h (ch # rest) client_id n =
     (let (child_node, kids) = HashMap_subscript h None (children n) ch;
          next_node = (case child_node of None \<Rightarrow> empty_node | Some c \<Rightarrow> c)
      in Node (subscribers n)
           (snd (HashMap_replace h kids ch (Some (node_insert h rest client_id next_node)))))"

definition PrefixTree_insert ::
    "char hasher \<Rightarrow> prefix_tree \<Rightarrow> string \<Rightarrow> string \<Rightarrow> prefix_tree" where
  "PrefixTree_insert h t prfx client_id =
     \<lparr>root = node_insert h prfx client_id (root t), subscriber_count = subscriber_count t + 1\<rparr>"

text \<open>The test of the pruning loop.\<close>

definition dead_node :: "node \<Rightarrow> bool" where
  "dead_node n \<longleftrightarrow> subscribers n = [] \<and> HashMap_empty (children n)"

text \<open>
  \<^verbatim>\<open>remove\<close> walks down to the node of the prefix, removes the first occurrence of the client, and
  walks back up the recorded branch, erasing a node from its parent while the node is dead.
  \<open>None\<close> as the inner result is the answer \<^verbatim>\<open>false\<close>.
\<close>

fun node_remove :: "char hasher \<Rightarrow> string \<Rightarrow> string \<Rightarrow> node \<Rightarrow> node option option" where
  "node_remove h [] client_id n =
     (if client_id \<in> set (subscribers n)
      then Some (Some (Node (remove1 client_id (subscribers n)) (children n)))
      else Some None)"
| "node_remove h (ch # rest) client_id n =
     (case HashMap_find h (children n) ch of
        None \<Rightarrow> Some None
      | Some None \<Rightarrow> None
      | Some (Some child) \<Rightarrow> do {
          r \<leftarrow> node_remove h rest client_id child;
          case r of
            None \<Rightarrow> Some None
          | Some child' \<Rightarrow>
              Some (Some (Node (subscribers n)
                (if dead_node child' then snd (HashMap_erase h (children n) ch)
                 else snd (HashMap_replace h (children n) ch (Some child'))))) })"

definition PrefixTree_remove ::
    "char hasher \<Rightarrow> prefix_tree \<Rightarrow> string \<Rightarrow> string \<Rightarrow> (bool \<times> prefix_tree) option" where
  "PrefixTree_remove h t prfx client_id = do {
     r \<leftarrow> node_remove h prfx client_id (root t);
     case r of
       None \<Rightarrow> Some (False, t)
     | Some n \<Rightarrow> Some (True, \<lparr>root = n, subscriber_count = subscriber_count t - 1\<rparr>) }"

fun node_match :: "char hasher \<Rightarrow> string \<Rightarrow> node \<Rightarrow> string list option" where
  "node_match h [] n = Some (subscribers n)"
| "node_match h (ch # rest) n =
     (case HashMap_find h (children n) ch of
        None \<Rightarrow> Some (subscribers n)
      | Some None \<Rightarrow> None
      | Some (Some child) \<Rightarrow> do {
          result \<leftarrow> node_match h rest child;
          Some (subscribers n @ result) })"

definition PrefixTree_match :: "char hasher \<Rightarrow> prefix_tree \<Rightarrow> string \<Rightarrow> string list option" where
  "PrefixTree_match h t message_key = node_match h message_key (root t)"

definition PrefixTree_clear :: "prefix_tree \<Rightarrow> prefix_tree" where
  "PrefixTree_clear t = \<lparr>root = Node [] (HashMap_clear (children (root t))), subscriber_count = 0\<rparr>"

text \<open>Moving takes the root's vector and table and leaves an empty tree behind.\<close>

definition PrefixTree_move :: "prefix_tree \<Rightarrow> prefix_tree \<times> prefix_tree" where
  "PrefixTree_move other =
     (let (kids, kids') = HashMap_move (children (root other))
      in (\<lparr>root = Node (subscribers (root other)) kids, subscriber_count = subscriber_count other\<rparr>,
          \<lparr>root = Node [] kids', subscriber_count = 0\<rparr>))"

definition PrefixTree_move_assign :: "prefix_tree \<Rightarrow> prefix_tree \<Rightarrow> prefix_tree \<times> prefix_tree" where
  "PrefixTree_move_assign self other =
     (let (kids, kids') = HashMap_move_assign (children (root self)) (children (root other))
      in (\<lparr>root = Node (subscribers (root other)) kids, subscriber_count = subscriber_count other\<rparr>,
          \<lparr>root = Node [] kids', subscriber_count = 0\<rparr>))"

section \<open>What the tree stores\<close>

fun node_at :: "char hasher \<Rightarrow> node \<Rightarrow> string \<Rightarrow> node option" where
  "node_at h n [] = Some n"
| "node_at h n (ch # rest) =
     (case HashMap_find h (children n) ch of
        Some (Some child) \<Rightarrow> node_at h child rest
      | _ \<Rightarrow> None)"

definition node_subs :: "char hasher \<Rightarrow> node \<Rightarrow> string \<Rightarrow> string list" where
  "node_subs h n q = (case node_at h n q of Some n' \<Rightarrow> subscribers n' | None \<Rightarrow> [])"

text \<open>
  A sound node: its table is sound, no child pointer is null, and every child is sound and not
  dead, so each branch leads to a subscriber.
\<close>

inductive node_ok :: "char hasher \<Rightarrow> node \<Rightarrow> bool" for h :: "char hasher" where
  Node: "hm_inv h kids \<Longrightarrow>
    (\<And>ch v. HashMap_find h kids ch = Some v \<Longrightarrow>
       \<exists>child. v = Some child \<and> node_ok h child \<and> \<not> dead_node child) \<Longrightarrow>
    node_ok h (Node subs kids)"

inductive_simps node_ok_Node: "node_ok h (Node subs kids)"

lemma node_ok_inv: "node_ok h n \<Longrightarrow> hm_inv h (children n)"
  by (cases n) (simp add: node_ok_Node)

lemma node_ok_child:
  assumes "node_ok h n" and "HashMap_find h (children n) ch = Some v"
  obtains child where "v = Some child" and "node_ok h child" and "\<not> dead_node child"
  using assms by (cases n) (auto simp: node_ok_Node)

lemma node_ok_empty [simp]: "node_ok h empty_node"
  by (simp add: empty_node_def node_ok_Node)

lemma node_subs_Nil [simp]: "node_subs h n [] = subscribers n"
  by (simp add: node_subs_def)

lemma node_subs_Cons: "node_subs h n (ch # q) =
    (case HashMap_find h (children n) ch of Some (Some child) \<Rightarrow> node_subs h child q | _ \<Rightarrow> [])"
  by (simp add: node_subs_def split: option.split)

lemma node_subs_empty [simp]: "node_subs h empty_node q = []"
  by (cases q) (simp_all add: empty_node_def node_subs_Cons)

lemma dead_node_iff: "node_ok h n \<Longrightarrow>
    dead_node n \<longleftrightarrow> subscribers n = [] \<and> HashMap_find h (children n) = Map.empty"
  using HashMap_empty_iff [OF node_ok_inv, of h n] by (simp add: dead_node_def)

lemma dead_node_subs: "node_ok h n \<Longrightarrow> dead_node n \<Longrightarrow> node_subs h n q = []"
  by (cases q) (auto simp: dead_node_iff node_subs_Cons)

section \<open>Correctness\<close>

lemma node_insert_correct:
  "node_ok h n \<Longrightarrow> node_ok h (node_insert h p c n) \<and> \<not> dead_node (node_insert h p c n)
     \<and> node_subs h (node_insert h p c n) = (node_subs h n)(p := node_subs h n p @ [c])"
proof (induction p arbitrary: n)
  case Nil
  obtain subs kids where n: "n = Node subs kids" by (cases n)
  have "node_subs h (Node (subs @ [c]) kids) q = ((node_subs h n)([] := subs @ [c])) q" for q
    by (cases q) (simp_all add: n node_subs_Cons)
  with Nil show ?case by (auto simp: n node_ok_Node dead_node_def fun_eq_iff)
next
  case (Cons ch p)
  obtain subs kids where n: "n = Node subs kids" by (cases n)
  have inv: "hm_inv h kids" using Cons.prems by (simp add: n node_ok_Node)
  define kids1 where "kids1 = snd (HashMap_subscript h None kids ch)"
  define nxt where "nxt = (case HashMap_find h kids ch of Some (Some m) \<Rightarrow> m | _ \<Rightarrow> empty_node)"
  define nxt' where "nxt' = node_insert h p c nxt"
  note sub = subscript_correct [OF inv, of None ch]
  have inv1: "hm_inv h kids1" and at_ch: "HashMap_find h kids1 ch \<noteq> None"
    and rest: "ch' \<noteq> ch \<Longrightarrow> HashMap_find h kids1 ch' = HashMap_find h kids ch'" for ch'
    using sub by (auto simp: kids1_def)
  have nxt_ok: "node_ok h nxt"
    using node_ok_child [OF Cons.prems, of ch] by (auto simp: nxt_def n split: option.split)
  note IH = Cons.IH [OF nxt_ok, folded nxt'_def]
  have res: "node_insert h (ch # p) c n = Node subs (snd (HashMap_replace h kids1 ch (Some nxt')))"
    using sub(2) by (auto simp: n Let_def split_beta kids1_def nxt'_def nxt_def split: option.split)
  let ?kids' = "snd (HashMap_replace h kids1 ch (Some nxt'))"
  have find': "HashMap_find h ?kids' = (HashMap_find h kids)(ch \<mapsto> Some nxt')"
    using replace_correct(3) [OF inv1, of ch "Some nxt'"] at_ch rest by (auto simp: fun_eq_iff)
  have inv': "hm_inv h ?kids'" using inv1 by (rule replace_correct)
  have ok: "node_ok h (Node subs ?kids')"
    using inv' IH Cons.prems by (auto simp: node_ok_Node find' n)
  have alive: "\<not> dead_node (Node subs ?kids')"
    using find' by (auto simp: dead_node_iff [OF ok] fun_eq_iff)
  have "node_subs h nxt q = node_subs h n (ch # q)" for q
    by (auto simp: nxt_def n node_subs_Cons split: option.split)
  then have "node_subs h (Node subs ?kids') q = ((node_subs h n)(ch # p := node_subs h n (ch # p) @ [c])) q" for q
    using IH by (cases q) (auto simp: node_subs_Cons find' n)
  with ok alive show ?case unfolding res by (simp add: fun_eq_iff)
qed

lemma node_remove_correct:
  "node_ok h n \<Longrightarrow>
     (if c \<in> set (node_subs h n p)
      then \<exists>n'. node_remove h p c n = Some (Some n') \<and> node_ok h n'
             \<and> node_subs h n' = (node_subs h n)(p := remove1 c (node_subs h n p))
      else node_remove h p c n = Some None)"
proof (induction p arbitrary: n)
  case Nil
  obtain subs kids where n: "n = Node subs kids" by (cases n)
  have "node_subs h (Node (remove1 c subs) kids) q = ((node_subs h n)([] := remove1 c subs)) q" for q
    by (cases q) (simp_all add: n node_subs_Cons)
  with Nil show ?case by (auto simp: n node_ok_Node fun_eq_iff)
next
  case (Cons ch p)
  obtain subs kids where n: "n = Node subs kids" by (cases n)
  have inv: "hm_inv h kids" using Cons.prems by (simp add: n node_ok_Node)
  show ?case
  proof (cases "HashMap_find h kids ch")
    case None
    then show ?thesis by (simp add: n node_subs_Cons)
  next
    case (Some v)
    then obtain child where v: "v = Some child" and child: "node_ok h child"
      using node_ok_child [OF Cons.prems, of ch v] by (auto simp: n)
    have subs_child: "node_subs h n (ch # q) = node_subs h child q" for q
      by (simp add: n node_subs_Cons Some v)
    show ?thesis
    proof (cases "c \<in> set (node_subs h child p)")
      case False
      with Cons.IH [OF child] show ?thesis by (simp add: n Some v node_subs_Cons)
    next
      case True
      with Cons.IH [OF child] obtain child' where rem: "node_remove h p c child = Some (Some child')"
        and ok': "node_ok h child'"
        and subs': "node_subs h child' = (node_subs h child)(p := remove1 c (node_subs h child p))"
        by auto
      define kids' where "kids' = (if dead_node child' then snd (HashMap_erase h kids ch)
        else snd (HashMap_replace h kids ch (Some child')))"
      have find': "HashMap_find h kids' = (HashMap_find h kids)
          (ch := (if dead_node child' then None else Some (Some child')))"
        using erase_correct(3) [OF inv] replace_correct(3) [OF inv] Some by (simp add: kids'_def)
      have "hm_inv h kids'" using inv by (simp add: kids'_def erase_correct replace_correct)
      then have okk: "node_ok h (Node subs kids')"
        using Cons.prems ok' by (auto simp: node_ok_Node find' n)
      have same: "node_subs h (Node subs kids') (ch # q) = node_subs h child' q" for q
        using dead_node_subs [OF ok', of q] by (simp add: node_subs_Cons find')
      have other: "ch' \<noteq> ch \<Longrightarrow> node_subs h (Node subs kids') (ch' # q) = node_subs h n (ch' # q)" for ch' q
        by (simp add: node_subs_Cons find' n)
      have "node_subs h (Node subs kids') q
          = ((node_subs h n)(ch # p := remove1 c (node_subs h n (ch # p)))) q" for q
        using same other subs' subs_child by (cases q; cases "hd q = ch") (auto simp: n)
      then have "node_subs h (Node subs kids')
          = (node_subs h n)(ch # p := remove1 c (node_subs h n (ch # p)))" by (simp add: fun_eq_iff)
      moreover have "node_remove h (ch # p) c n = Some (Some (Node subs kids'))"
        by (simp add: n Some v rem kids'_def)
      moreover have "c \<in> set (node_subs h n (ch # p))" using True subs_child by simp
      ultimately show ?thesis using okk by (simp del: node_remove.simps)
    qed
  qed
qed

lemma node_match_correct:
  "node_ok h n \<Longrightarrow> node_match h k n = Some (concat (map (node_subs h n) (prefixes k)))"
proof (induction k arbitrary: n)
  case (Cons ch k)
  show ?case
  proof (cases "HashMap_find h (children n) ch")
    case None
    then show ?thesis by (simp add: comp_def node_subs_Cons)
  next
    case (Some v)
    then obtain child where v: "v = Some child" and child: "node_ok h child"
      by (rule node_ok_child [OF Cons.prems])
    with Some Cons.IH [OF child] show ?thesis
      by (simp add: comp_def node_subs_Cons)
  qed
qed simp

section \<open>The invariant of the tree\<close>

definition total_length :: "(string \<Rightarrow> 'a list) \<Rightarrow> nat" where
  "total_length f = (\<Sum>q | f q \<noteq> []. length (f q))"

lemma total_length_upd:
  assumes "finite {q. f q \<noteq> []}"
  shows "finite {q. (f(p := ys)) q \<noteq> []}"
    and "total_length (f(p := ys)) + length (f p) = total_length f + length ys"
proof -
  let ?S = "insert p {q. f q \<noteq> []}"
  have fin: "finite ?S" using assms by simp
  have sub: "{q. (f(p := ys)) q \<noteq> []} \<subseteq> ?S" by auto
  then show "finite {q. (f(p := ys)) q \<noteq> []}" using fin by (rule finite_subset)
  have on_S: "total_length g = (\<Sum>q \<in> ?S. length (g q))" if "{q. g q \<noteq> []} \<subseteq> ?S" for g :: "string \<Rightarrow> 'a list"
    unfolding total_length_def using fin that by (intro sum.mono_neutral_left) auto
  have "total_length (f(p := ys)) = (\<Sum>q \<in> ?S. length ((f(p := ys)) q))"
    using sub by (rule on_S)
  moreover have "total_length f = (\<Sum>q \<in> ?S. length (f q))" by (rule on_S) auto
  moreover have "(\<Sum>q \<in> ?S - {p}. length ((f(p := ys)) q)) = (\<Sum>q \<in> ?S - {p}. length (f q))"
    by (intro sum.cong) auto
  ultimately show "total_length (f(p := ys)) + length (f p) = total_length f + length ys"
    using fin by (simp add: sum.remove [OF fin, of p])
qed

definition PrefixTree_subs :: "char hasher \<Rightarrow> prefix_tree \<Rightarrow> string \<Rightarrow> string list" where
  "PrefixTree_subs h t = node_subs h (root t)"

definition tree_inv :: "char hasher \<Rightarrow> prefix_tree \<Rightarrow> bool" where
  "tree_inv h t \<longleftrightarrow> node_ok h (root t) \<and> finite {q. PrefixTree_subs h t q \<noteq> []}
     \<and> subscriber_count t = total_length (PrefixTree_subs h t)"

lemma tree_inv_new: "tree_inv h PrefixTree_new"
  by (simp add: tree_inv_def PrefixTree_new_def PrefixTree_subs_def total_length_def)

lemma subs_new: "PrefixTree_subs h PrefixTree_new = (\<lambda>_. [])"
  by (simp add: PrefixTree_new_def PrefixTree_subs_def fun_eq_iff)

lemma PrefixTree_insert_correct:
  assumes "tree_inv h t"
  shows "tree_inv h (PrefixTree_insert h t p c)"
    and "PrefixTree_subs h (PrefixTree_insert h t p c)
      = (PrefixTree_subs h t)(p := PrefixTree_subs h t p @ [c])"
proof -
  note ins = node_insert_correct [of h "root t" p c]
  show subs: "PrefixTree_subs h (PrefixTree_insert h t p c)
      = (PrefixTree_subs h t)(p := PrefixTree_subs h t p @ [c])"
    using ins assms by (simp add: tree_inv_def PrefixTree_subs_def PrefixTree_insert_def)
  show "tree_inv h (PrefixTree_insert h t p c)"
    using ins assms total_length_upd [of "PrefixTree_subs h t" p "PrefixTree_subs h t p @ [c]"]
    unfolding tree_inv_def subs by (simp add: PrefixTree_insert_def)
qed

lemma PrefixTree_remove_correct:
  assumes "tree_inv h t"
  shows "\<exists>t'. PrefixTree_remove h t p c = Some (c \<in> set (PrefixTree_subs h t p), t') \<and> tree_inv h t'
    \<and> PrefixTree_subs h t' = (PrefixTree_subs h t)(p := remove1 c (PrefixTree_subs h t p))"
proof (cases "c \<in> set (PrefixTree_subs h t p)")
  case False
  with assms show ?thesis
    using node_remove_correct [of h "root t" c p]
    by (simp add: tree_inv_def PrefixTree_subs_def PrefixTree_remove_def remove1_idem)
next
  case True
  with assms obtain n' where n': "node_remove h p c (root t) = Some (Some n')" "node_ok h n'"
    and subs: "node_subs h n' = (node_subs h (root t))(p := remove1 c (node_subs h (root t) p))"
    using node_remove_correct [of h "root t" c p] by (auto simp: tree_inv_def PrefixTree_subs_def)
  let ?t' = "\<lparr>root = n', subscriber_count = subscriber_count t - 1\<rparr>"
  have subs': "PrefixTree_subs h ?t' = (PrefixTree_subs h t)(p := remove1 c (PrefixTree_subs h t p))"
    by (simp add: PrefixTree_subs_def subs)
  have pos: "0 < length (PrefixTree_subs h t p)" using True by (rule length_pos_if_in_set)
  have fin: "finite {q. PrefixTree_subs h t q \<noteq> []}" using assms by (simp add: tree_inv_def)
  have "total_length (PrefixTree_subs h ?t') = total_length (PrefixTree_subs h t) - 1"
  proof -
    have "length (remove1 c (PrefixTree_subs h t p)) = length (PrefixTree_subs h t p) - 1"
      using True by (simp add: length_remove1)
    with pos show ?thesis
      using total_length_upd(2) [OF fin, of p "remove1 c (PrefixTree_subs h t p)"]
      unfolding subs' by linarith
  qed
  then have "tree_inv h ?t'"
    using assms n'(2) total_length_upd(1) [OF fin, of p "remove1 c (PrefixTree_subs h t p)"]
    unfolding tree_inv_def subs' by simp
  with True n' subs' show ?thesis by (simp add: PrefixTree_remove_def)
qed

lemma PrefixTree_clear_correct:
  assumes "tree_inv h t"
  shows "tree_inv h (PrefixTree_clear t)" and "PrefixTree_subs h (PrefixTree_clear t) = (\<lambda>_. [])"
proof -
  have inv: "hm_inv h (children (root t))" using assms by (auto simp: tree_inv_def dest: node_ok_inv)
  have subs: "PrefixTree_subs h (PrefixTree_clear t) q = []" for q
    by (cases q) (simp_all add: PrefixTree_subs_def PrefixTree_clear_def node_subs_Cons
        find_clear [OF inv])
  then show "PrefixTree_subs h (PrefixTree_clear t) = (\<lambda>_. [])" by (simp add: fun_eq_iff)
  then show "tree_inv h (PrefixTree_clear t)"
    by (simp add: tree_inv_def total_length_def PrefixTree_clear_def node_ok_Node
        find_clear [OF inv] hm_inv_clear [OF inv])
qed

lemma PrefixTree_match_correct:
  "tree_inv h t \<Longrightarrow> PrefixTree_match h t k = Some (concat (map (PrefixTree_subs h t) (prefixes k)))"
  by (simp add: PrefixTree_match_def node_match_correct tree_inv_def PrefixTree_subs_def)

interpretation trie: prefix_index "tree_inv h" "PrefixTree_subs h" "PrefixTree_insert h"
  "PrefixTree_remove h" "PrefixTree_match h" PrefixTree_clear
  for h :: "char hasher"
  by unfold_locales
    (simp_all add: PrefixTree_insert_correct PrefixTree_remove_correct PrefixTree_clear_correct
      PrefixTree_match_correct)

text \<open>What a move leaves: the target has the tree, the source is empty and sound.\<close>

lemma PrefixTree_move_simps:
  "fst (PrefixTree_move t) = t" "subscriber_count (snd (PrefixTree_move t)) = 0"
  "subscriber_count (fst (PrefixTree_move_assign s t)) = subscriber_count t"
  "snd (PrefixTree_move_assign s t) = snd (PrefixTree_move t)"
proof -
  obtain subs kids n where "t = \<lparr>root = Node subs kids, subscriber_count = n\<rparr>"
    by (metis node.exhaust prefix_tree.cases)
  then show "fst (PrefixTree_move t) = t" by (simp add: PrefixTree_move_def HashMap_move_def)
qed (simp_all add: PrefixTree_move_def PrefixTree_move_assign_def HashMap_move_def HashMap_move_assign_def case_prod_beta)

lemma PrefixTree_move_correct:
  assumes "tree_inv h t"
  shows "tree_inv h (snd (PrefixTree_move t))" and "PrefixTree_subs h (snd (PrefixTree_move t)) = (\<lambda>_. [])"
    and "tree_inv h (fst (PrefixTree_move_assign s t))"
    and "PrefixTree_subs h (fst (PrefixTree_move_assign s t)) = PrefixTree_subs h t"
proof -
  obtain subs kids n where t: "t = \<lparr>root = Node subs kids, subscriber_count = n\<rparr>"
    by (metis node.exhaust prefix_tree.cases)
  have inv: "hm_inv h kids" using assms by (auto simp: t tree_inv_def dest: node_ok_inv)
  let ?left = "HashMap [[]] 0 (max_load kids) :: (char, node option) hashmap"
  have left: "hm_inv h ?left" "HashMap_find h ?left = Map.empty"
    using move_correct(1,3) [OF inv] by (simp_all add: HashMap_move_def)
  have source: "snd (PrefixTree_move t) = \<lparr>root = Node [] ?left, subscriber_count = 0\<rparr>"
    by (simp add: t PrefixTree_move_def HashMap_move_def)
  show none: "PrefixTree_subs h (snd (PrefixTree_move t)) = (\<lambda>_. [])"
  proof
    show "PrefixTree_subs h (snd (PrefixTree_move t)) q = []" for q
      unfolding source by (cases q) (simp_all add: PrefixTree_subs_def node_subs_Cons left)
  qed
  then show "tree_inv h (snd (PrefixTree_move t))"
    by (simp add: tree_inv_def total_length_def) (simp add: source node_ok_Node left)
  let ?kids = "fst (HashMap_move_assign (children (root s)) kids)"
  note moved = move_correct(4,5) [OF inv, of "children (root s)"]
  have target: "fst (PrefixTree_move_assign s t) = \<lparr>root = Node subs ?kids, subscriber_count = n\<rparr>"
    by (simp add: t PrefixTree_move_assign_def case_prod_beta)
  show same: "PrefixTree_subs h (fst (PrefixTree_move_assign s t)) = PrefixTree_subs h t"
  proof
    show "PrefixTree_subs h (fst (PrefixTree_move_assign s t)) q = PrefixTree_subs h t q" for q
      unfolding target by (cases q) (simp_all add: t PrefixTree_subs_def node_subs_Cons moved)
  qed
  have "node_ok h (Node subs ?kids)" using assms by (simp add: t tree_inv_def node_ok_Node moved)
  with same assms show "tree_inv h (fst (PrefixTree_move_assign s t))"
    unfolding tree_inv_def same by (simp add: target) (simp add: t)
qed

section \<open>The number of registrations\<close>

lemma PrefixTree_remove_counts:
  assumes "tree_inv h t"
  shows "\<exists>t'. PrefixTree_remove h t p c = Some (c \<in> set (PrefixTree_subs h t p), t') \<and> tree_inv h t'
    \<and> PrefixTree_subs h t' = (PrefixTree_subs h t)(p := remove1 c (PrefixTree_subs h t p))
    \<and> subscriber_count t = subscriber_count t' + (if c \<in> set (PrefixTree_subs h t p) then 1 else 0)"
proof -
  obtain t' where t': "PrefixTree_remove h t p c = Some (c \<in> set (PrefixTree_subs h t p), t')" "tree_inv h t'"
    and subs: "PrefixTree_subs h t' = (PrefixTree_subs h t)(p := remove1 c (PrefixTree_subs h t p))"
    using PrefixTree_remove_correct [OF assms] by blast
  have "total_length (PrefixTree_subs h t') + length (PrefixTree_subs h t p)
      = total_length (PrefixTree_subs h t) + length (remove1 c (PrefixTree_subs h t p))"
    unfolding subs using assms by (intro total_length_upd(2)) (simp add: tree_inv_def)
  moreover have "length (remove1 c (PrefixTree_subs h t p)) + (if c \<in> set (PrefixTree_subs h t p) then 1 else 0)
      = length (PrefixTree_subs h t p)"
    by (auto simp: length_remove1 remove1_idem dest: length_pos_if_in_set)
  ultimately have "subscriber_count t = subscriber_count t' + (if c \<in> set (PrefixTree_subs h t p) then 1 else 0)"
    using assms t'(2) unfolding tree_inv_def by linarith
  with t' subs show ?thesis by blast
qed

section \<open>Properties\<close>

text \<open>
  C27: \<^verbatim>\<open>match\<close> returns, from the shortest prefix of the key to the longest, the clients registered
  under each, in the order of their registration; it follows no null pointer.
\<close>

theorem PrefixTree_match_spec:
  assumes "tree_inv h t"
  shows "PrefixTree_match h t key = Some (concat (map (PrefixTree_subs h t) (prefixes key)))"
  by (rule PrefixTree_match_correct [OF assms])

theorem PrefixTree_match_witness:
  "PrefixTree_match of_char (PrefixTree_insert of_char (PrefixTree_insert of_char PrefixTree_new ''ab'' ''c1'')
     [] ''c2'') ''abc'' = Some [''c2'', ''c1'']"
proof -
  let ?t1 = "PrefixTree_insert of_char PrefixTree_new ''ab'' ''c1''"
  have t1: "tree_inv of_char ?t1" by (simp add: PrefixTree_insert_correct tree_inv_new)
  then have "tree_inv of_char (PrefixTree_insert of_char ?t1 [] ''c2'')" by (simp add: PrefixTree_insert_correct)
  from PrefixTree_match_spec [OF this, of "''abc''"] show ?thesis
    using t1 by (simp add: PrefixTree_insert_correct tree_inv_new subs_new)
qed

text \<open>
  \<^verbatim>\<open>insert\<close> appends the client to the clients of exactly the given prefix, counts it, and keeps
  the tree sound (tables sound, no null child, no dead branch, the count exact).
\<close>

theorem PrefixTree_insert_spec:
  assumes "tree_inv h t"
  shows "tree_inv h (PrefixTree_insert h t p c)
    \<and> PrefixTree_subs h (PrefixTree_insert h t p c) = (PrefixTree_subs h t)(p := PrefixTree_subs h t p @ [c])
    \<and> subscriber_count (PrefixTree_insert h t p c) = Suc (subscriber_count t)"
  using PrefixTree_insert_correct [OF assms, of p c] by (simp add: PrefixTree_insert_def)

theorem PrefixTree_insert_witness:
  "PrefixTree_subs of_char (PrefixTree_insert of_char PrefixTree_new ''ab'' ''c1'') ''ab'' = [''c1'']"
  using PrefixTree_insert_spec [OF tree_inv_new, of of_char "''ab''" "''c1''"] by (simp add: subs_new)

text \<open>
  C28: \<^verbatim>\<open>remove\<close> takes out the first registration of the client under exactly the given prefix,
  leaves the rest of the tree alone and keeps it sound; its answer says whether there was one.
\<close>

theorem PrefixTree_remove_spec:
  assumes "tree_inv h t"
  shows "\<exists>t'. PrefixTree_remove h t p c = Some (c \<in> set (PrefixTree_subs h t p), t') \<and> tree_inv h t'
    \<and> PrefixTree_subs h t' = (PrefixTree_subs h t)(p := remove1 c (PrefixTree_subs h t p))
    \<and> subscriber_count t = subscriber_count t' + (if c \<in> set (PrefixTree_subs h t p) then 1 else 0)"
  by (rule PrefixTree_remove_counts [OF assms])

theorem PrefixTree_remove_witness:
  "\<exists>t'. PrefixTree_remove of_char (PrefixTree_insert of_char PrefixTree_new ''ab'' ''c1'') ''ab'' ''c1'' = Some (True, t')
     \<and> subscriber_count t' = 0"
proof -
  let ?t = "PrefixTree_insert of_char PrefixTree_new ''ab'' ''c1''"
  have "tree_inv of_char ?t" by (simp add: PrefixTree_insert_correct tree_inv_new)
  moreover have "PrefixTree_subs of_char ?t ''ab'' = [''c1'']"
    by (simp add: PrefixTree_insert_correct tree_inv_new subs_new)
  moreover have "subscriber_count ?t = 1" by (simp add: PrefixTree_insert_def PrefixTree_new_def)
  ultimately show ?thesis using PrefixTree_remove_spec [of of_char ?t "''ab''" "''c1''"] by auto
qed

end
