(* ===== verification/Topic.thy ===== *)
theory Topic
  imports Protocol_Codec Prefix_Tree Posix
begin

text \<open>
  A topic: \<^verbatim>\<open>src/server/inc/Topic.hpp\<close>, \<^verbatim>\<open>Message.hpp\<close> and \<^verbatim>\<open>src/server/src/Topic.cpp\<close>. Every
  operation of the class is one critical section under \<^verbatim>\<open>topic_mutex\<close>, so it is one step of the
  model: a function from the topic and the log of system calls to the new ones, with no result if
  it has undefined behaviour. The worker's wait condition is \<open>Topic_has_work\<close>; who waits in \<^verbatim>\<open>cv.wait\<close> and whom
  \<^verbatim>\<open>cv.notify_all\<close> wakes is part of the system of threads (\<open>Threads\<close>). The hash functions and the operating system are parameters.
\<close>

section \<open>State\<close>

record hashes =
  hash_string :: "string hasher"
  hash_char :: "char hasher"
  hash_uint32 :: "u32 hasher"

record message =
  msg_offset :: u32
  msg_key :: string
  msg_value :: string

record active_subscriber =
  sub_client_id :: string
  sub_prefix :: string
  sub_fifo_path :: string
  sub_fifo_fd :: int
  sub_next_offset :: u32

text \<open>The worker thread: in its loop, past its loop, or joined.\<close>

datatype worker = Worker_running | Worker_finished | Worker_joined

record topic =
  topic_name :: string
  topic_messages :: "message list"
  topic_tree :: prefix_tree
  topic_subs :: "(string, active_subscriber) hashmap"
  topic_worker :: worker
  topic_stop :: bool

definition Topic_new :: "string \<Rightarrow> topic" where
  "Topic_new name =
     \<lparr>topic_name = name, topic_messages = [], topic_tree = PrefixTree_new,
      topic_subs = HashMap_default, topic_worker = Worker_running, topic_stop = False\<rparr>"

section \<open>Operations\<close>

definition close_if_open :: "int \<Rightarrow> io_log \<Rightarrow> io_log" where
  "close_if_open fd io = (if fd \<noteq> - 1 then sys_close fd io else io)"

text \<open>Dropping an entry: out of the trie, its descriptor closed, out of the table.\<close>

definition drop_subscriber ::
    "hashes \<Rightarrow> topic \<Rightarrow> string \<Rightarrow> active_subscriber \<Rightarrow> io_log \<Rightarrow> (topic \<times> io_log) option" where
  "drop_subscriber H t client_id sub io = do {
     (_, tree) \<leftarrow> PrefixTree_remove (hash_char H) (topic_tree t) (sub_prefix sub) client_id;
     let io = close_if_open (sub_fifo_fd sub) io;
     Some (t\<lparr>topic_tree := tree,
             topic_subs := snd (HashMap_erase (hash_string H) (topic_subs t) client_id)\<rparr>, io) }"

definition Topic_add_subscriber ::
    "hashes \<Rightarrow> os \<Rightarrow> topic \<Rightarrow> string \<Rightarrow> string \<Rightarrow> string \<Rightarrow> u32 \<Rightarrow> io_log
       \<Rightarrow> (bool \<times> topic \<times> io_log) option" where
  "Topic_add_subscriber H os t client_id prfx fifo_path start_offset io = do {
     (t, io) \<leftarrow> (case HashMap_find (hash_string H) (topic_subs t) client_id of
        None \<Rightarrow> Some (t, io)
      | Some old_sub \<Rightarrow> drop_subscriber H t client_id old_sub io);
     let (fd, io) = sys_open_wr_nb os fifo_path io;
     if fd = - 1 then Some (False, t, io)
     else do {
       let tree = PrefixTree_insert (hash_char H) (topic_tree t) prfx client_id;
       let sub = \<lparr>sub_client_id = client_id, sub_prefix = prfx, sub_fifo_path = fifo_path,
                  sub_fifo_fd = fd, sub_next_offset = start_offset\<rparr>;
       Some (True,
         t\<lparr>topic_tree := tree,
           topic_subs := snd (HashMap_insert (hash_string H) (topic_subs t) client_id sub)\<rparr>,
         io) } }"

definition Topic_remove_subscriber ::
    "hashes \<Rightarrow> topic \<Rightarrow> string \<Rightarrow> io_log \<Rightarrow> (bool \<times> topic \<times> io_log) option" where
  "Topic_remove_subscriber H t client_id io =
     (case HashMap_find (hash_string H) (topic_subs t) client_id of
        None \<Rightarrow> Some (False, t, io)
      | Some sub \<Rightarrow> do {
          (t, io) \<leftarrow> drop_subscriber H t client_id sub io;
          Some (True, t, io) })"

definition Topic_append_message :: "topic \<Rightarrow> string \<Rightarrow> string \<Rightarrow> topic" where
  "Topic_append_message t key val =
     (let new_msg = \<lparr>msg_offset = word_of_nat (length (topic_messages t)),
                     msg_key = key, msg_value = val\<rparr>
      in t\<lparr>topic_messages := topic_messages t @ [new_msg]\<rparr>)"

definition Topic_get_messages_from :: "topic \<Rightarrow> u32 \<Rightarrow> message list" where
  "Topic_get_messages_from t start_offset =
     (if unat start_offset < length (topic_messages t)
      then drop (unat start_offset) (topic_messages t) else [])"

text \<open>
  \<^verbatim>\<open>shutdown\<close>: the sentinel to every open subscriber, everything cleared under the mutex, then the wait for
  the worker. \<^verbatim>\<open>join\<close> does not return while the worker is in its loop (\<open>Topic_join\<close> has no result then); while the
  main thread waits, the worker wakes, sees the flag and leaves its loop (\<open>worker_sees_flag\<close>). A second call
  returns at once.
\<close>

definition shutdown_subscriber :: "os \<Rightarrow> active_subscriber \<Rightarrow> io_log \<Rightarrow> (active_subscriber \<times> io_log) option"
where
  "shutdown_subscriber os sub io =
     (if sub_fifo_fd sub \<noteq> - 1
      then let (_, io) = sys_write os (sub_fifo_fd sub) serialize_shutdown io;
               io = sys_close (sub_fifo_fd sub) io
           in Some (sub\<lparr>sub_fifo_fd := - 1\<rparr>, io)
      else Some (sub, io))"

definition Topic_leave_loop :: "topic \<Rightarrow> topic" where
  "Topic_leave_loop t = t\<lparr>topic_worker := Worker_finished\<rparr>"

definition worker_sees_flag :: "topic \<Rightarrow> topic" where
  "worker_sees_flag t = (if topic_worker t = Worker_running \<and> topic_stop t then Topic_leave_loop t else t)"

definition Topic_join :: "topic \<Rightarrow> topic option" where
  "Topic_join t =
     (case topic_worker t of
        Worker_running \<Rightarrow> None
      | Worker_finished \<Rightarrow> Some (t\<lparr>topic_worker := Worker_joined\<rparr>)
      | Worker_joined \<Rightarrow> Some t)"

definition Topic_shutdown :: "os \<Rightarrow> topic \<Rightarrow> io_log \<Rightarrow> (topic \<times> io_log) option" where
  "Topic_shutdown os t io =
     (if topic_stop t then Some (t, io)
      else do {
        (subs, io) \<leftarrow> HashMap_for_each (\<lambda>_ sub io. shutdown_subscriber os sub io) (topic_subs t) io;
        let t = t\<lparr>topic_stop := True, topic_subs := HashMap_clear subs,
                  topic_tree := PrefixTree_clear (topic_tree t)\<rparr>;
        t \<leftarrow> Topic_join (worker_sees_flag t);
        Some (t, io) })"

lemma leave_loop_simps [simp]:
  "topic_stop (Topic_leave_loop t) = topic_stop t" "topic_worker (Topic_leave_loop t) = Worker_finished"
  "topic_messages (Topic_leave_loop t) = topic_messages t" "topic_subs (Topic_leave_loop t) = topic_subs t"
  by (simp_all add: Topic_leave_loop_def)

lemma join_after_flag: "topic_stop t \<Longrightarrow> Topic_join (worker_sees_flag t) = Some (t\<lparr>topic_worker := Worker_joined\<rparr>)"
  by (cases "topic_worker t") (simp_all add: Topic_join_def worker_sees_flag_def Topic_leave_loop_def)

definition Topic_delete :: "os \<Rightarrow> topic \<Rightarrow> io_log \<Rightarrow> (topic \<times> io_log) option" where
  "Topic_delete os t io = Topic_shutdown os t io"

section \<open>The worker thread\<close>

definition has_pending :: "message list \<Rightarrow> active_subscriber \<Rightarrow> bool" where
  "has_pending msgs sub \<longleftrightarrow> unat (sub_next_offset sub) < length msgs"

definition Topic_has_work :: "topic \<Rightarrow> bool" where
  "Topic_has_work t \<longleftrightarrow> topic_stop t
     \<or> (\<exists>e \<in> set (HashMap_entries (topic_subs t)). has_pending (topic_messages t) (snd e))"

text \<open>One turn of the inner loop: the message at \<^verbatim>\<open>next_offset\<close> is delivered if the trie matches.\<close>

definition deliver_one ::
    "hashes \<Rightarrow> os \<Rightarrow> message list \<Rightarrow> prefix_tree \<Rightarrow> active_subscriber \<Rightarrow> io_log
       \<Rightarrow> (active_subscriber \<times> io_log) option" where
  "deliver_one H os msgs tree sub io = do {
     let msg = msgs ! unat (sub_next_offset sub);
     matching_clients \<leftarrow> PrefixTree_match (hash_char H) tree (msg_key msg);
     let is_matched = (sub_client_id sub \<in> set matching_clients);
     let (sub, io) =
       (if is_matched \<and> sub_fifo_fd sub \<noteq> - 1
        then let delivery_buf = serialize_delivery (msg_offset msg) (msg_key msg) (msg_value msg);
                 (ret, io) = sys_write os (sub_fifo_fd sub) delivery_buf io
             in if ret \<le> 0
                then (sub\<lparr>sub_fifo_fd := - 1\<rparr>, sys_close (sub_fifo_fd sub) io)
                else (sub, io)
        else (sub, io));
     Some (sub\<lparr>sub_next_offset := sub_next_offset sub + 1\<rparr>, io) }"

partial_function (option) deliver_pending ::
    "hashes \<Rightarrow> os \<Rightarrow> message list \<Rightarrow> prefix_tree \<Rightarrow> active_subscriber \<Rightarrow> io_log
       \<Rightarrow> (active_subscriber \<times> io_log) option" where
  "deliver_pending H os msgs tree sub io =
     (if has_pending msgs sub
      then Option.bind (deliver_one H os msgs tree sub io)
             (\<lambda>r. deliver_pending H os msgs tree (fst r) (snd r))
      else Some (sub, io))"

text \<open>
  One turn of the outer loop, from the moment the wait ends: the thread leaves if it was told to
  stop and otherwise delivers to the subscribers in the order of the table.
\<close>

definition Topic_run_iteration :: "hashes \<Rightarrow> os \<Rightarrow> topic \<Rightarrow> io_log \<Rightarrow> (topic \<times> io_log) option" where
  "Topic_run_iteration H os t io =
     (if topic_stop t then Some (Topic_leave_loop t, io)
      else do {
        (subs, io) \<leftarrow> HashMap_for_each
          (\<lambda>_ sub io. deliver_pending H os (topic_messages t) (topic_tree t) sub io) (topic_subs t) io;
        Some (t\<lparr>topic_subs := subs\<rparr>, io) })"

section \<open>The invariant\<close>

abbreviation find_sub :: "hashes \<Rightarrow> topic \<Rightarrow> string \<Rightarrow> active_subscriber option" where
  "find_sub H t c \<equiv> HashMap_find (hash_string H) (topic_subs t) c"

definition registrations :: "hashes \<Rightarrow> topic \<Rightarrow> string \<rightharpoonup> string" where
  "registrations H t c = map_option sub_prefix (find_sub H t c)"

text \<open>
  The table and the trie are sound and agree: the trie holds every subscriber of the table exactly
  once, under its prefix, and nobody else. The messages are numbered by their position.
\<close>

definition topic_inv :: "hashes \<Rightarrow> topic \<Rightarrow> bool" where
  "topic_inv H t \<longleftrightarrow> hm_inv (hash_string H) (topic_subs t) \<and> tree_inv (hash_char H) (topic_tree t)
     \<and> registers (PrefixTree_subs (hash_char H) (topic_tree t)) (registrations H t)
     \<and> (\<forall>c sub. find_sub H t c = Some sub \<longrightarrow> sub_client_id sub = c)
     \<and> (\<forall>i < length (topic_messages t). msg_offset (topic_messages t ! i) = word_of_nat i)"

lemma topic_inv_new: "topic_inv H (Topic_new name)"
proof -
  have "registrations H (Topic_new name) = Map.empty"
    by (rule ext) (simp add: registrations_def Topic_new_def)
  moreover have "registers (PrefixTree_subs (hash_char H) (topic_tree (Topic_new name))) Map.empty"
    by (simp add: Topic_new_def subs_new)
  ultimately show ?thesis
    by (simp add: topic_inv_def) (simp add: Topic_new_def tree_inv_new)
qed

lemma topic_inv_append: "topic_inv H t \<Longrightarrow> topic_inv H (Topic_append_message t k v)"
  by (auto simp: topic_inv_def Topic_append_message_def registrations_def [abs_def] nth_append less_Suc_eq)

text \<open>The parts of a topic that the operations on subscribers leave alone.\<close>

definition same_topic :: "topic \<Rightarrow> topic \<Rightarrow> bool" where
  "same_topic t t' \<longleftrightarrow> topic_name t' = topic_name t \<and> topic_messages t' = topic_messages t
     \<and> topic_worker t' = topic_worker t \<and> topic_stop t' = topic_stop t"

lemma same_topic_refl [simp]: "same_topic t t"
  by (simp add: same_topic_def)

lemma drop_subscriber_correct:
  assumes "topic_inv H t" and "find_sub H t c = Some sub"
  shows "\<exists>t'. drop_subscriber H t c sub io = Some (t', close_if_open (sub_fifo_fd sub) io)
    \<and> topic_inv H t' \<and> same_topic t t' \<and> find_sub H t' = (find_sub H t)(c := None)"
proof -
  have inv: "hm_inv (hash_string H) (topic_subs t)" and tree: "tree_inv (hash_char H) (topic_tree t)"
    and reg: "registers (PrefixTree_subs (hash_char H) (topic_tree t)) (registrations H t)"
    using assms(1) by (auto simp: topic_inv_def)
  have "registrations H t c = Some (sub_prefix sub)"
    using assms(2) by (simp add: registrations_def)
  from trie.remove_registers [OF tree reg this] obtain tree' where
    rem: "PrefixTree_remove (hash_char H) (topic_tree t) (sub_prefix sub) c = Some (True, tree')"
    "tree_inv (hash_char H) tree'"
    "registers (PrefixTree_subs (hash_char H) tree') ((registrations H t)(c := None))" by blast
  let ?t' = "t\<lparr>topic_tree := tree',
      topic_subs := snd (HashMap_erase (hash_string H) (topic_subs t) c)\<rparr>"
  have find: "find_sub H ?t' = (find_sub H t)(c := None)"
    using erase_correct(3) [OF inv, of c] by (simp add: fun_eq_iff)
  then have "registrations H ?t' = (registrations H t)(c := None)"
    by (auto simp: registrations_def fun_eq_iff)
  then have "topic_inv H ?t'"
    using assms(1) rem find erase_correct(1) [OF inv] by (auto simp: topic_inv_def)
  then show ?thesis using rem find by (simp add: drop_subscriber_def same_topic_def)
qed

lemma Topic_add_subscriber_correct:
  assumes "topic_inv H t"
  shows "\<exists>b t' io'. Topic_add_subscriber H os t c p path off io = Some (b, t', io')
    \<and> topic_inv H t' \<and> same_topic t t'
    \<and> (if b then \<exists>fd. fd \<noteq> - 1 \<and> find_sub H t' = (find_sub H t)(c \<mapsto>
             \<lparr>sub_client_id = c, sub_prefix = p, sub_fifo_path = path, sub_fifo_fd = fd, sub_next_offset = off\<rparr>)
        else find_sub H t' = (find_sub H t)(c := None))"
proof -
  obtain t1 io1 where first: "(case find_sub H t c of None \<Rightarrow> Some (t, io)
      | Some old_sub \<Rightarrow> drop_subscriber H t c old_sub io) = Some (t1, io1)"
    and inv1: "topic_inv H t1" and same1: "same_topic t t1"
    and find1: "find_sub H t1 = (find_sub H t)(c := None)"
  proof (cases "find_sub H t c")
    case None
    with assms show ?thesis by (intro that [of t io]) (auto simp: fun_eq_iff)
  next
    case (Some sub)
    with drop_subscriber_correct [OF assms Some, of io] that show ?thesis by auto
  qed
  have hm: "hm_inv (hash_string H) (topic_subs t1)" and tree: "tree_inv (hash_char H) (topic_tree t1)"
    and reg: "registers (PrefixTree_subs (hash_char H) (topic_tree t1)) (registrations H t1)"
    using inv1 by (auto simp: topic_inv_def)
  obtain fd io2 where op: "sys_open_wr_nb os path io1 = (fd, io2)" by fastforce
  show ?thesis
  proof (cases "fd = - 1")
    case True
    with first op inv1 same1 find1 show ?thesis
      by (auto simp: Topic_add_subscriber_def)
  next
    case False
    let ?sub = "\<lparr>sub_client_id = c, sub_prefix = p, sub_fifo_path = path, sub_fifo_fd = fd,
        sub_next_offset = off\<rparr>"
    let ?t' = "t1\<lparr>topic_tree := PrefixTree_insert (hash_char H) (topic_tree t1) p c,
        topic_subs := snd (HashMap_insert (hash_string H) (topic_subs t1) c ?sub)\<rparr>"
    have "HashMap_find (hash_string H) (topic_subs t1) c = None" using find1 by (simp add: fun_eq_iff)
    then have find2: "find_sub H ?t' = (find_sub H t)(c \<mapsto> ?sub)"
      using insert_correct(3) [OF hm, of c ?sub] find1 by (simp add: fun_eq_iff)
    then have regs: "registrations H ?t' = (registrations H t1)(c \<mapsto> p)"
      using find1 by (auto simp: registrations_def fun_eq_iff)
    have "registrations H t1 c = None" using find1 by (simp add: registrations_def fun_eq_iff)
    from trie.add_registers [OF tree reg this, of p]
    have "topic_inv H ?t'"
      using inv1 find1 find2 regs insert_correct(1) [OF hm] PrefixTree_insert_correct(1) [OF tree]
      by (auto simp: topic_inv_def split: if_splits)
    with False first op same1 find2 show ?thesis
      by (auto simp: Topic_add_subscriber_def same_topic_def)
  qed
qed

lemma Topic_remove_subscriber_correct:
  assumes "topic_inv H t"
  shows "\<exists>t' io'. Topic_remove_subscriber H t c io = Some (find_sub H t c \<noteq> None, t', io')
    \<and> topic_inv H t' \<and> same_topic t t' \<and> find_sub H t' = (find_sub H t)(c := None)"
proof (cases "find_sub H t c")
  case None
  with assms show ?thesis by (auto simp: Topic_remove_subscriber_def fun_eq_iff)
next
  case (Some sub)
  with drop_subscriber_correct [OF assms Some, of io] show ?thesis
    by (auto simp: Topic_remove_subscriber_def)
qed

text \<open>Neither writes to a FIFO.\<close>

lemma drop_subscriber_quiet: "drop_subscriber H t c sub io = Some (t', io') \<Longrightarrow> quiet io io'"
  by (auto simp: drop_subscriber_def close_if_open_def bind_eq_Some_conv split: if_splits)

lemma Topic_add_subscriber_quiet:
  assumes "Topic_add_subscriber H os t c p path n io = Some (b, t', io')"
  shows "quiet io io'"
proof -
  let ?drop = "case find_sub H t c of None \<Rightarrow> Some (t, io) | Some old_sub \<Rightarrow> drop_subscriber H t c old_sub io"
  obtain t1 io1 where first: "?drop = Some (t1, io1)"
    using assms by (cases ?drop) (auto simp: Topic_add_subscriber_def)
  have rest: "io' = snd (sys_open_wr_nb os path io1)"
    using assms by (cases "sys_open_wr_nb os path io1") (auto simp: Topic_add_subscriber_def first split: if_splits)
  from first have "quiet io io1" by (auto split: option.splits intro: drop_subscriber_quiet)
  also have "quiet io1 io'" by (simp add: rest)
  finally show ?thesis .
qed

lemma Topic_remove_subscriber_quiet: "Topic_remove_subscriber H t c io = Some (b, t', io') \<Longrightarrow> quiet io io'"
  by (auto simp: Topic_remove_subscriber_def bind_eq_Some_conv split: option.splits intro: drop_subscriber_quiet)

section \<open>What the worker delivers\<close>

text \<open>
  The specification of a delivery: the messages, in order, whose key extends the prefix are
  written to the descriptor until a write fails, which closes it.
\<close>

fun deliver_messages :: "os \<Rightarrow> string \<Rightarrow> message list \<Rightarrow> int \<Rightarrow> io_log \<Rightarrow> int \<times> io_log" where
  "deliver_messages os p [] fd io = (fd, io)"
| "deliver_messages os p (m # ms) fd io =
     (if prefix p (msg_key m) \<and> fd \<noteq> - 1
      then let (ret, io) = sys_write os fd (serialize_delivery (msg_offset m) (msg_key m) (msg_value m)) io
           in if ret \<le> 0 then (- 1, sys_close fd io) else deliver_messages os p ms fd io
      else deliver_messages os p ms fd io)"

definition deliver_subscriber ::
    "os \<Rightarrow> message list \<Rightarrow> active_subscriber \<Rightarrow> io_log \<Rightarrow> active_subscriber \<times> io_log" where
  "deliver_subscriber os msgs sub io =
     (let (fd, io) = deliver_messages os (sub_prefix sub) (drop (unat (sub_next_offset sub)) msgs)
                       (sub_fifo_fd sub) io
      in (sub\<lparr>sub_fifo_fd := fd,
              sub_next_offset := (if has_pending msgs sub then word_of_nat (length msgs)
                                  else sub_next_offset sub)\<rparr>, io))"

fun deliver_all ::
    "os \<Rightarrow> message list \<Rightarrow> (string \<times> active_subscriber) list \<Rightarrow> io_log
       \<Rightarrow> (string \<times> active_subscriber) list \<times> io_log" where
  "deliver_all os msgs [] io = ([], io)"
| "deliver_all os msgs ((c, sub) # es) io =
     (let (sub, io) = deliver_subscriber os msgs sub io;
          (es, io) = deliver_all os msgs es io
      in ((c, sub) # es, io))"

lemma deliver_messages_closed [simp]: "deliver_messages os p ms (- 1) io = (- 1, io)"
  by (induction ms) simp_all

lemma deliver_messages_Cons:
  "deliver_messages os p (m # ms) fd io =
     (let (fd, io) = deliver_messages os p [m] fd io in deliver_messages os p ms fd io)"
  by (auto split: prod.splits)

text \<open>What the worker relies on in the trie: a client matches iff its own prefix does.\<close>

definition matches_own_prefix :: "hashes \<Rightarrow> prefix_tree \<Rightarrow> active_subscriber \<Rightarrow> bool" where
  "matches_own_prefix H tree sub \<longleftrightarrow> (\<forall>k. \<exists>r. PrefixTree_match (hash_char H) tree k = Some r
     \<and> (sub_client_id sub \<in> set r \<longleftrightarrow> prefix (sub_prefix sub) k))"

lemma topic_matches:
  assumes "topic_inv H t" and "find_sub H t c = Some sub"
  shows "matches_own_prefix H (topic_tree t) sub"
  unfolding matches_own_prefix_def
proof
  fix k
  from assms have tree: "tree_inv (hash_char H) (topic_tree t)" and id: "sub_client_id sub = c"
    and reg: "registers (PrefixTree_subs (hash_char H) (topic_tree t)) (registrations H t)"
    by (auto simp: topic_inv_def)
  have "registrations H t c = Some (sub_prefix sub)"
    using assms(2) by (simp add: registrations_def)
  with trie.match_registered [OF tree reg, of k] id
  show "\<exists>r. PrefixTree_match (hash_char H) (topic_tree t) k = Some r
      \<and> (sub_client_id sub \<in> set r \<longleftrightarrow> prefix (sub_prefix sub) k)" by auto
qed

lemma matches_own_prefix_update [simp]:
  "matches_own_prefix H tree (sub\<lparr>sub_fifo_fd := fd\<rparr>) = matches_own_prefix H tree sub"
  "matches_own_prefix H tree (sub\<lparr>sub_next_offset := n\<rparr>) = matches_own_prefix H tree sub"
  by (simp_all add: matches_own_prefix_def)

lemma deliver_one_correct:
  assumes "matches_own_prefix H tree sub" and "has_pending msgs sub" and "length msgs < 2 ^ 32"
  shows "\<exists>sub1 io1. deliver_one H os msgs tree sub io = Some (sub1, io1)
    \<and> matches_own_prefix H tree sub1
    \<and> unat (sub_next_offset sub1) = Suc (unat (sub_next_offset sub))
    \<and> deliver_subscriber os msgs sub io = deliver_subscriber os msgs sub1 io1"
proof -
  let ?n = "unat (sub_next_offset sub)"
  let ?m = "msgs ! ?n"
  have n: "?n < length msgs" using assms(2) by (simp add: has_pending_def)
  then have drop: "drop ?n msgs = ?m # drop (Suc ?n) msgs" by (simp add: Cons_nth_drop_Suc)
  have next_n: "unat (sub_next_offset sub + 1) = Suc ?n" using n assms(3) by (simp add: unat_u32_Suc)
  have target: "(if Suc ?n < length msgs then word_of_nat (length msgs) else sub_next_offset sub + 1)
      = (word_of_nat (length msgs) :: u32)"
    using n next_n by (metis Suc_lessI word_of_nat_unat_u32)
  obtain r where r: "PrefixTree_match (hash_char H) tree (msg_key ?m) = Some r"
    and iff: "sub_client_id sub \<in> set r \<longleftrightarrow> prefix (sub_prefix sub) (msg_key ?m)"
    using assms(1) by (auto simp: matches_own_prefix_def)
  obtain fd1 io1 where step: "deliver_messages os (sub_prefix sub) [?m] (sub_fifo_fd sub) io = (fd1, io1)"
    by fastforce
  have rest: "deliver_messages os (sub_prefix sub) (drop ?n msgs) (sub_fifo_fd sub) io
      = deliver_messages os (sub_prefix sub) (drop (Suc ?n) msgs) fd1 io1"
    unfolding drop by (subst deliver_messages_Cons) (simp only: step Let_def prod.case)
  let ?sub1 = "sub\<lparr>sub_fifo_fd := fd1, sub_next_offset := sub_next_offset sub + 1\<rparr>"
  have "deliver_one H os msgs tree sub io = Some (?sub1, io1)"
    using step by (auto simp: deliver_one_def r iff split: prod.splits if_splits)
  moreover have "deliver_subscriber os msgs sub io = deliver_subscriber os msgs ?sub1 io1"
    using n target by (auto simp: deliver_subscriber_def rest next_n has_pending_def split: prod.split)
  ultimately show ?thesis using assms(1) next_n by (intro exI [of _ ?sub1] exI [of _ io1]) simp
qed

lemma deliver_pending_correct:
  assumes "matches_own_prefix H tree sub" and "length msgs < 2 ^ 32"
  shows "deliver_pending H os msgs tree sub io = Some (deliver_subscriber os msgs sub io)"
  using assms
proof (induction "length msgs - unat (sub_next_offset sub)" arbitrary: sub io)
  case 0
  then show ?case
    by (simp add: deliver_pending.simps deliver_subscriber_def has_pending_def)
next
  case (Suc n)
  then have pending: "has_pending msgs sub" by (simp add: has_pending_def)
  from deliver_one_correct [OF Suc.prems(1) pending Suc.prems(2), of os io] obtain sub1 io1
    where one: "deliver_one H os msgs tree sub io = Some (sub1, io1)"
      "matches_own_prefix H tree sub1" "unat (sub_next_offset sub1) = Suc (unat (sub_next_offset sub))"
      "deliver_subscriber os msgs sub io = deliver_subscriber os msgs sub1 io1" by blast
  with Suc show ?case by (simp add: deliver_pending.simps [of H os msgs tree sub io] pending)
qed

text \<open>With \<open>2 ^ 32\<close> messages the wrapped offset never reaches the end: the loop does not return.\<close>

lemma deliver_pending_returns:
  "deliver_pending H os msgs tree sub io = Some r \<Longrightarrow> length msgs < 2 ^ 32"
proof (induction rule: deliver_pending.raw_induct [rotated, consumes 1])
  case (1 f H os msgs tree sub io r)
  show ?case
  proof (cases "has_pending msgs sub")
    case True
    with 1(2) obtain r1 where "f H os msgs tree (fst r1) (snd r1) = Some r"
      by (auto simp: bind_eq_Some_conv)
    then show ?thesis by (rule 1(1))
  next
    case False
    with unat_u32_bound [of "sub_next_offset sub"] show ?thesis by (simp add: has_pending_def)
  qed
qed

section \<open>The effect of the worker and of the shutdown\<close>

lemma for_bucket_deliver:
  assumes "\<And>c sub. (c, sub) \<in> set es \<Longrightarrow> matches_own_prefix H tree sub" and "length msgs < 2 ^ 32"
  shows "for_bucket (\<lambda>_ sub io. deliver_pending H os msgs tree sub io) es io
    = Some (deliver_all os msgs es io)"
  using assms
proof (induction es arbitrary: io)
  case (Cons e es)
  obtain c sub where e: "e = (c, sub)" by fastforce
  have "matches_own_prefix H tree sub" by (rule Cons.prems(1) [of c]) (simp add: e)
  then have "deliver_pending H os msgs tree sub io = Some (deliver_subscriber os msgs sub io)" for io
    using Cons.prems(2) by (rule deliver_pending_correct)
  moreover have "for_bucket (\<lambda>_ sub io. deliver_pending H os msgs tree sub io) es io
      = Some (deliver_all os msgs es io)" for io
  proof (rule Cons.IH [OF _ Cons.prems(2)])
    show "matches_own_prefix H tree sub'" if "(c', sub') \<in> set es" for c' sub'
      by (rule Cons.prems(1) [of c']) (use that in simp)
  qed
  ultimately show ?case by (simp add: e split: prod.splits)
qed simp

lemma deliver_subscriber_fields:
  assumes "length msgs < 2 ^ 32"
  shows "sub_prefix (fst (deliver_subscriber os msgs sub io)) = sub_prefix sub"
    and "sub_client_id (fst (deliver_subscriber os msgs sub io)) = sub_client_id sub"
    and "sub_fifo_path (fst (deliver_subscriber os msgs sub io)) = sub_fifo_path sub"
    and "\<not> has_pending msgs (fst (deliver_subscriber os msgs sub io))"
  using assms by (auto simp: deliver_subscriber_def has_pending_def split: prod.splits)

text \<open>A loop over the table keeps the keys and the subscribers' identities and prefixes.\<close>

definition same_subscriber :: "string \<times> active_subscriber \<Rightarrow> string \<times> active_subscriber \<Rightarrow> bool" where
  "same_subscriber e e' \<longleftrightarrow> fst e' = fst e \<and> sub_client_id (snd e') = sub_client_id (snd e)
     \<and> sub_prefix (snd e') = sub_prefix (snd e) \<and> sub_fifo_path (snd e') = sub_fifo_path (snd e)"

lemma deliver_all_correct:
  assumes "length msgs < 2 ^ 32" and "deliver_all os msgs es io = (es', io')"
  shows "list_all2 same_subscriber es es' \<and> (\<forall>e \<in> set es'. \<not> has_pending msgs (snd e))"
  using assms(2)
proof (induction es arbitrary: io es')
  case (Cons e es)
  obtain c sub where e: "e = (c, sub)" by fastforce
  obtain sub1 io1 where d: "deliver_subscriber os msgs sub io = (sub1, io1)" by fastforce
  obtain es1 io2 where r: "deliver_all os msgs es io1 = (es1, io2)" by fastforce
  note fields = deliver_subscriber_fields [OF assms(1), of os sub io, unfolded d fst_conv]
  from Cons.prems have "es' = (c, sub1) # es1" "io2 = io'" by (simp_all add: e d r)
  with Cons.IH r fields show ?case by (simp add: e same_subscriber_def)
qed simp

lemma find_same_subscriber:
  "list_all2 same_subscriber es es' \<Longrightarrow> rel_option (\<lambda>sub sub'. same_subscriber (c, sub) (c, sub'))
     (map_of es c) (map_of es' c)"
  by (induction rule: list_all2_induct) (auto simp: same_subscriber_def)

text \<open>Replacing the subscribers one for one, prefixes and identities kept, keeps the invariant.\<close>

lemma topic_inv_subs:
  assumes inv: "topic_inv H t" and hm: "hm_inv (hash_string H) subs'"
    and same: "list_all2 same_subscriber (HashMap_entries (topic_subs t)) (HashMap_entries subs')"
  shows "topic_inv H (t\<lparr>topic_subs := subs'\<rparr>)"
proof -
  have hm0: "hm_inv (hash_string H) (topic_subs t)" using inv by (simp add: topic_inv_def)
  have rel: "rel_option (\<lambda>sub sub'. same_subscriber (c, sub) (c, sub'))
      (find_sub H t c) (HashMap_find (hash_string H) subs' c)" for c
    using find_same_subscriber [OF same, of c]
    by (simp add: hm.find_entries [OF hm0] hm.find_entries [OF hm])
  have "registrations H (t\<lparr>topic_subs := subs'\<rparr>) c = registrations H t c" for c
    using rel [of c] by (auto simp: registrations_def same_subscriber_def elim: option.rel_cases)
  then have "registrations H (t\<lparr>topic_subs := subs'\<rparr>) = registrations H t" by (simp add: fun_eq_iff)
  moreover have "sub_client_id sub' = c" if "HashMap_find (hash_string H) subs' c = Some sub'" for c sub'
    using rel [of c] that inv by (auto simp: option_rel_Some2 same_subscriber_def topic_inv_def)
  ultimately show ?thesis using inv hm by (simp add: topic_inv_def)
qed

lemma find_sub_same:
  assumes "hm_inv (hash_string H) (topic_subs t)" and "hm_inv (hash_string H) subs'"
    and "list_all2 same_subscriber (HashMap_entries (topic_subs t)) (HashMap_entries subs')"
    and "HashMap_find (hash_string H) subs' c = Some sub'"
  shows "\<exists>sub. find_sub H t c = Some sub \<and> same_subscriber (c, sub) (c, sub')"
  using find_same_subscriber [OF assms(3), of c] assms(4)
  by (simp add: hm.find_entries [OF assms(1)] hm.find_entries [OF assms(2)] option_rel_Some2)

theorem Topic_run_iteration_correct:
  assumes inv: "topic_inv H t" and "\<not> topic_stop t" and len: "length (topic_messages t) < 2 ^ 32"
    and all: "deliver_all os (topic_messages t) (HashMap_entries (topic_subs t)) io = (es, io')"
  shows "\<exists>t'. Topic_run_iteration H os t io = Some (t', io') \<and> HashMap_entries (topic_subs t') = es
    \<and> same_topic t t' \<and> topic_inv H t' \<and> \<not> Topic_has_work t'"
proof -
  let ?body = "\<lambda>_ sub io. deliver_pending H os (topic_messages t) (topic_tree t) sub io"
  have hm: "hm_inv (hash_string H) (topic_subs t)" using inv by (simp add: topic_inv_def)
  have loop: "for_bucket ?body (HashMap_entries (topic_subs t)) io = Some (es, io')"
    using inv len by (subst for_bucket_deliver) (auto simp: all hm.in_entries [OF hm] intro: topic_matches)
  then obtain subs' where each: "HashMap_for_each ?body (topic_subs t) io = Some (subs', io')"
    by (auto dest: for_each_Some)
  have entries: "HashMap_entries subs' = es" using for_each_correct(1) [OF each] loop by simp
  have hm': "hm_inv (hash_string H) subs'" using for_each_correct(2) [OF each] hm by blast
  note delivered = deliver_all_correct [OF len all]
  have "topic_inv H (t\<lparr>topic_subs := subs'\<rparr>)" using delivered entries by (intro topic_inv_subs inv hm') simp
  moreover have "\<not> Topic_has_work (t\<lparr>topic_subs := subs'\<rparr>)"
    using delivered assms(2) entries by (simp add: Topic_has_work_def)
  moreover have "Topic_run_iteration H os t io = Some (t\<lparr>topic_subs := subs'\<rparr>, io')"
    using assms(2) each by (simp add: Topic_run_iteration_def)
  ultimately show ?thesis using entries by (auto simp: same_topic_def)
qed

text \<open>
  The bytes a subscriber receives: with a reader that takes every write, the deliveries of the
  messages that extend the prefix, in order and without gaps.
\<close>

definition writes_succeed :: "os \<Rightarrow> bool" where
  "writes_succeed os \<longleftrightarrow> (\<forall>io fd buf. os_write os io fd buf = int (length buf))"

definition delivery_event :: "int \<Rightarrow> message \<Rightarrow> io_event" where
  "delivery_event fd m = (let buf = serialize_delivery (msg_offset m) (msg_key m) (msg_value m)
     in Write fd buf (int (length buf)))"

lemma serialize_delivery_not_empty: "serialize_delivery n k v \<noteq> []"
  by (simp flip: length_greater_0_conv)

lemma deliver_messages_events:
  assumes "writes_succeed os" and "fd \<noteq> - 1"
  shows "deliver_messages os p ms fd io
    = (fd, io @ map (delivery_event fd) (filter (\<lambda>m. prefix p (msg_key m)) ms))"
proof (induction ms arbitrary: io)
  case (Cons m ms)
  have "\<not> int (length (serialize_delivery (msg_offset m) (msg_key m) (msg_value m))) \<le> 0"
    by (simp add: serialize_delivery_not_empty)
  with assms Cons show ?case
    by (simp add: sys_write_def Let_def writes_succeed_def delivery_event_def)
qed simp

text \<open>A delivery stops at the first write that fails: the descriptor is closed, not used again.\<close>

lemma deliver_messages_log:
  assumes "deliver_messages os p ms fd io = (fd', io')"
  shows "\<exists>new. io' = io @ new \<and> (fd' = fd \<or> fd' = - 1)
    \<and> (fd \<noteq> - 1 \<and> fd' = - 1 \<longrightarrow> (\<exists>pre buf ret. new = pre @ [Write fd buf ret, Close fd] \<and> ret \<le> 0))"
  using assms
proof (induction ms arbitrary: io)
  case (Cons m ms)
  let ?buf = "serialize_delivery (msg_offset m) (msg_key m) (msg_value m)"
  show ?case
  proof (cases "prefix p (msg_key m) \<and> fd \<noteq> - 1")
    case False
    then have "deliver_messages os p ms fd io = (fd', io')" using Cons.prems by (auto split: if_splits)
    then show ?thesis by (rule Cons.IH)
  next
    case True
    show ?thesis
    proof (cases "os_write os io fd ?buf \<le> 0")
      case True
      with Cons.prems \<open>prefix p (msg_key m) \<and> fd \<noteq> - 1\<close> show ?thesis
        by (auto simp: sys_write_def sys_close_def Let_def)
    next
      case False
      with Cons.prems True have
        "deliver_messages os p ms fd (io @ [Write fd ?buf (os_write os io fd ?buf)]) = (fd', io')"
        by (simp add: sys_write_def Let_def)
      from Cons.IH [OF this] show ?thesis by (auto intro: exI [of _ "_ # _"])
    qed
  qed
qed simp

text \<open>A turn of the worker that ends keeps the invariant, with no bound on the log assumed.\<close>

lemma Topic_run_keeps:
  assumes inv: "topic_inv H t" and run: "Topic_run_iteration H os t io = Some (t', io')"
  shows "topic_inv H t' \<and> topic_name t' = topic_name t \<and> topic_messages t' = topic_messages t
    \<and> topic_stop t' = topic_stop t \<and> (\<not> topic_stop t \<longrightarrow> topic_worker t' = topic_worker t)
    \<and> (\<forall>c sub'. find_sub H t' c = Some sub'
        \<longrightarrow> (\<exists>sub. find_sub H t c = Some sub \<and> same_subscriber (c, sub) (c, sub')))"
proof (cases "topic_stop t")
  case True
  then have t': "t' = t\<lparr>topic_worker := Worker_finished\<rparr>" using run by (simp add: Topic_run_iteration_def Topic_leave_loop_def)
  moreover have "registrations H t' = registrations H t" by (simp add: t' registrations_def fun_eq_iff)
  ultimately show ?thesis using inv True by (simp add: topic_inv_def same_subscriber_def)
next
  case False
  let ?body = "\<lambda>_ sub io. deliver_pending H os (topic_messages t) (topic_tree t) sub io"
  have hm: "hm_inv (hash_string H) (topic_subs t)" using inv by (simp add: topic_inv_def)
  from run False obtain subs' where each: "HashMap_for_each ?body (topic_subs t) io = Some (subs', io')"
    and t': "t' = t\<lparr>topic_subs := subs'\<rparr>" by (auto simp: Topic_run_iteration_def bind_eq_Some_conv)
  have hm': "hm_inv (hash_string H) subs'" using for_each_correct(2) [OF each] hm by blast
  note loop = for_each_correct(1) [OF each]
  have same: "list_all2 same_subscriber (HashMap_entries (topic_subs t)) (HashMap_entries subs')"
  proof (cases "HashMap_entries (topic_subs t)")
    case Nil
    with loop show ?thesis by simp
  next
    case (Cons e es)
    obtain c sub where "e = (c, sub)" by fastforce
    with loop Cons have "\<exists>r. deliver_pending H os (topic_messages t) (topic_tree t) sub io = Some r"
      by (auto simp: bind_eq_Some_conv)
    then have len: "length (topic_messages t) < 2 ^ 32" using deliver_pending_returns by blast
    obtain es' io2 where all: "deliver_all os (topic_messages t) (HashMap_entries (topic_subs t)) io = (es', io2)"
      by fastforce
    have "for_bucket ?body (HashMap_entries (topic_subs t)) io = Some (es', io2)"
      using inv len by (subst for_bucket_deliver) (auto simp: all hm.in_entries [OF hm] intro: topic_matches)
    with loop have "es' = HashMap_entries subs'" by simp
    with deliver_all_correct [OF len all] show ?thesis by simp
  qed
  show ?thesis
    using topic_inv_subs [OF inv hm' same] find_sub_same [OF hm hm' same] by (simp add: t')
qed

section \<open>Shutdown\<close>

text \<open>The events of a shutdown: the sentinel and the close, for every open descriptor in order.\<close>

fun shutdown_all :: "os \<Rightarrow> active_subscriber list \<Rightarrow> io_log \<Rightarrow> io_log" where
  "shutdown_all os [] io = io"
| "shutdown_all os (sub # subs) io =
     (if sub_fifo_fd sub = - 1 then shutdown_all os subs io
      else shutdown_all os subs
             (io @ [Write (sub_fifo_fd sub) serialize_shutdown
                      (os_write os io (sub_fifo_fd sub) serialize_shutdown), Close (sub_fifo_fd sub)]))"

lemma for_bucket_shutdown:
  "\<exists>es'. for_bucket (\<lambda>_ sub io. shutdown_subscriber os sub io) es io
    = Some (es', shutdown_all os (map snd es) io)"
proof (induction es arbitrary: io)
  case (Cons e es)
  obtain c sub where e: "e = (c, sub)" by fastforce
  show ?case
  proof (cases "sub_fifo_fd sub = - 1")
    case True
    with Cons.IH [of io] show ?thesis by (auto simp: e shutdown_subscriber_def)
  next
    case False
    let ?ret = "os_write os io (sub_fifo_fd sub) serialize_shutdown"
    from Cons.IH [of "io @ [Write (sub_fifo_fd sub) serialize_shutdown ?ret, Close (sub_fifo_fd sub)]"]
    show ?thesis
      using False by (auto simp: e shutdown_subscriber_def sys_write_def sys_close_def Let_def)
  qed
qed simp

theorem Topic_shutdown_correct:
  assumes inv: "topic_inv H t" and "\<not> topic_stop t"
  shows "\<exists>t'. Topic_shutdown os t io
      = Some (t', shutdown_all os (map snd (HashMap_entries (topic_subs t))) io)
    \<and> topic_inv H t' \<and> topic_stop t' \<and> topic_worker t' = Worker_joined
    \<and> find_sub H t' = Map.empty \<and> topic_messages t' = topic_messages t"
proof -
  let ?body = "\<lambda>_ sub io. shutdown_subscriber os sub io"
  have hm: "hm_inv (hash_string H) (topic_subs t)" and tree: "tree_inv (hash_char H) (topic_tree t)"
    using inv by (auto simp: topic_inv_def)
  obtain es' where "for_bucket ?body (HashMap_entries (topic_subs t)) io
      = Some (es', shutdown_all os (map snd (HashMap_entries (topic_subs t))) io)"
    using for_bucket_shutdown by blast
  then obtain subs' where each: "HashMap_for_each ?body (topic_subs t) io
      = Some (subs', shutdown_all os (map snd (HashMap_entries (topic_subs t))) io)"
    by (auto dest: for_each_Some)
  have hm': "hm_inv (hash_string H) subs'" using for_each_correct(2) [OF each] hm by blast
  let ?t' = "t\<lparr>topic_stop := True, topic_subs := HashMap_clear subs',
      topic_tree := PrefixTree_clear (topic_tree t), topic_worker := Worker_joined\<rparr>"
  have empty: "find_sub H ?t' = Map.empty" using find_clear [OF hm'] by (simp add: fun_eq_iff)
  then have "registrations H ?t' = Map.empty" by (simp add: registrations_def fun_eq_iff)
  then have "topic_inv H ?t'"
    using inv empty hm_inv_clear [OF hm'] PrefixTree_clear_correct [OF tree] trie.reset_registers [OF tree]
    by (auto simp: topic_inv_def)
  moreover have "Topic_shutdown os t io
      = Some (?t', shutdown_all os (map snd (HashMap_entries (topic_subs t))) io)"
    using assms(2) each by (simp add: Topic_shutdown_def join_after_flag)
  ultimately show ?thesis using empty by auto
qed

lemma Topic_shutdown_again: "topic_stop t \<Longrightarrow> Topic_shutdown os t io = Some (t, io)"
  by (simp add: Topic_shutdown_def)

lemma Topic_add_subscriber_effect:
  assumes "topic_inv H t" and "Topic_add_subscriber H os t c p path off io = Some (b, t', io')"
  shows "topic_inv H t'" and "topic_messages t' = topic_messages t"
    and "registrations H t' = (registrations H t)(c := if b then Some p else None)"
    and "b \<longleftrightarrow> (\<exists>sub. find_sub H t' c = Some sub \<and> sub_fifo_fd sub \<noteq> - 1 \<and> sub_next_offset sub = off)"
proof -
  from Topic_add_subscriber_correct [OF assms(1), of os c p path off io] assms(2)
  have res: "topic_inv H t'" "same_topic t t'"
    and subs: "if b then \<exists>fd. fd \<noteq> - 1 \<and> find_sub H t' = (find_sub H t)(c \<mapsto> \<lparr>sub_client_id = c,
             sub_prefix = p, sub_fifo_path = path, sub_fifo_fd = fd, sub_next_offset = off\<rparr>)
          else find_sub H t' = (find_sub H t)(c := None)" by auto
  from res show "topic_inv H t'" and "topic_messages t' = topic_messages t" by (auto simp: same_topic_def)
  from subs show "registrations H t' = (registrations H t)(c := if b then Some p else None)"
    by (cases b) (auto simp: registrations_def fun_eq_iff)
  from subs show "b \<longleftrightarrow> (\<exists>sub. find_sub H t' c = Some sub \<and> sub_fifo_fd sub \<noteq> - 1 \<and> sub_next_offset sub = off)"
    by (cases b) auto
qed

section \<open>A sample platform\<close>

text \<open>Concrete hash functions and a system whose calls all succeed, and a topic on it.\<close>

definition sample_hashes :: hashes where
  "sample_hashes = \<lparr>hash_string = length, hash_char = of_char, hash_uint32 = unat\<rparr>"

definition sample_add :: "bool \<times> topic \<times> io_log" where
  "sample_add = the (Topic_add_subscriber sample_hashes sample_os
     (Topic_append_message (Topic_append_message (Topic_new ''t'') ''a1'' ''x'') ''b1'' ''y'')
     ''c'' ''a'' ''p'' 0 [])"

definition sample_topic :: topic where
  "sample_topic = fst (snd sample_add)"

lemma sample_topic:
  "topic_inv sample_hashes sample_topic" "\<not> topic_stop sample_topic"
  "topic_messages sample_topic
     = [\<lparr>msg_offset = 0, msg_key = ''a1'', msg_value = ''x''\<rparr>, \<lparr>msg_offset = 1, msg_key = ''b1'', msg_value = ''y''\<rparr>]"
  "find_sub sample_hashes sample_topic ''c'' = Some \<lparr>sub_client_id = ''c'', sub_prefix = ''a'',
     sub_fifo_path = ''p'', sub_fifo_fd = 4, sub_next_offset = 0\<rparr>"
proof -
  let ?t = "Topic_append_message (Topic_append_message (Topic_new ''t'') ''a1'' ''x'') ''b1'' ''y''"
  have inv: "topic_inv sample_hashes ?t" by (intro topic_inv_append topic_inv_new)
  have none: "find_sub sample_hashes ?t ''c'' = None"
    by (simp add: Topic_append_message_def Topic_new_def)
  let ?sub = "\<lparr>sub_client_id = ''c'', sub_prefix = ''a'', sub_fifo_path = ''p'', sub_fifo_fd = 4, sub_next_offset = 0\<rparr>"
  let ?r = "Topic_add_subscriber sample_hashes sample_os ?t ''c'' ''a'' ''p'' 0 []"
  have r: "?r = Some (True, ?t\<lparr>topic_tree := PrefixTree_insert (hash_char sample_hashes) (topic_tree ?t) ''a'' ''c'',
      topic_subs := snd (HashMap_insert (hash_string sample_hashes) (topic_subs ?t) ''c'' ?sub)\<rparr>, [Open_wr_nb ''p'' 4])"
    by (simp add: Topic_add_subscriber_def none sys_open_wr_nb_def sample_os_def)
  from Topic_add_subscriber_correct [OF inv, of sample_os "''c''" "''a''" "''p''" 0 "[]"] r
  show "topic_inv sample_hashes sample_topic" by (auto simp: sample_topic_def sample_add_def)
  show "\<not> topic_stop sample_topic"
    by (simp add: sample_topic_def sample_add_def r) (simp add: Topic_append_message_def Topic_new_def)
  show "topic_messages sample_topic = [\<lparr>msg_offset = 0, msg_key = ''a1'', msg_value = ''x''\<rparr>,
      \<lparr>msg_offset = 1, msg_key = ''b1'', msg_value = ''y''\<rparr>]"
    by (simp add: sample_topic_def sample_add_def r) (simp add: Topic_append_message_def Topic_new_def)
  have "hm_inv (hash_string sample_hashes) (topic_subs ?t)" using inv by (simp add: topic_inv_def)
  from insert_correct(3) [OF this, of "''c''" ?sub] none
  show "find_sub sample_hashes sample_topic ''c'' = Some ?sub"
    by (simp add: sample_topic_def sample_add_def r)
qed

lemma sample_writes: "writes_succeed sample_os"
  by (simp add: writes_succeed_def sample_os_def)

section \<open>Properties\<close>

text \<open>
  C16: A turn of the worker thread delivers to every subscriber, in the order of the table, the
  messages from its offset on whose key extends its prefix (\<open>deliver_all\<close>); it ends, keeps the
  topic sound and leaves nothing pending.
\<close>

theorem worker_delivers:
  assumes "topic_inv H t" and "\<not> topic_stop t" and "length (topic_messages t) < 2 ^ 32"
  shows "\<exists>t'. Topic_run_iteration H os t io
      = Some (t', snd (deliver_all os (topic_messages t) (HashMap_entries (topic_subs t)) io))
    \<and> HashMap_entries (topic_subs t') = fst (deliver_all os (topic_messages t) (HashMap_entries (topic_subs t)) io)
    \<and> topic_inv H t' \<and> topic_messages t' = topic_messages t \<and> \<not> Topic_has_work t'"
  using Topic_run_iteration_correct [OF assms surjective_pairing, of os io] by (auto simp: same_topic_def)

theorem worker_delivers_witness:
  "\<exists>t' io'. Topic_run_iteration sample_hashes sample_os sample_topic [] = Some (t', io') \<and> \<not> Topic_has_work t'"
  using worker_delivers [OF sample_topic(1,2), of sample_os "[]"] by (auto simp: sample_topic(3))

text \<open>
  C17: A subscriber whose FIFO takes every write is sent exactly the serialized deliveries of the
  messages from its offset on that extend its prefix, once each, in the order of the offsets.
\<close>

theorem worker_sends_matching:
  assumes "topic_inv H t" and "find_sub H t c = Some sub" and "length (topic_messages t) < 2 ^ 32"
    and "writes_succeed os" and "sub_fifo_fd sub \<noteq> - 1"
  shows "deliver_pending H os (topic_messages t) (topic_tree t) sub io =
    Some (sub\<lparr>sub_next_offset := (if has_pending (topic_messages t) sub then word_of_nat (length (topic_messages t))
                else sub_next_offset sub)\<rparr>,
      io @ map (delivery_event (sub_fifo_fd sub))
        (filter (\<lambda>m. prefix (sub_prefix sub) (msg_key m)) (drop (unat (sub_next_offset sub)) (topic_messages t))))"
  using deliver_pending_correct [OF topic_matches [OF assms(1,2)] assms(3)]
  by (simp add: deliver_subscriber_def deliver_messages_events [OF assms(4,5)])

theorem worker_sends_matching_witness:
  "\<exists>sub. find_sub sample_hashes sample_topic ''c'' = Some sub
     \<and> map_option snd (deliver_pending sample_hashes sample_os (topic_messages sample_topic) (topic_tree sample_topic) sub [])
       = Some [Write 4 (serialize_delivery 0 ''a1'' ''x'') 15]"
  using worker_sends_matching [OF sample_topic(1,4) _ sample_writes, of "[]"]
  by (simp add: sample_topic delivery_event_def)

text \<open>
  C38: With \<open>2 ^ 32\<close> messages or more in a topic the worker never finishes a subscriber: the 32-bit
  offset wraps before it reaches the end.
\<close>

theorem worker_diverges:
  assumes "2 ^ 32 \<le> length msgs"
  shows "deliver_pending H os msgs tree sub io = None"
  using deliver_pending_returns [of H os msgs tree sub io] assms by (cases "deliver_pending H os msgs tree sub io") auto

theorem worker_diverges_witness:
  "deliver_pending sample_hashes sample_os (replicate (2 ^ 32) \<lparr>msg_offset = 0, msg_key = [], msg_value = []\<rparr>)
     PrefixTree_new \<lparr>sub_client_id = [], sub_prefix = [], sub_fifo_path = [], sub_fifo_fd = 4, sub_next_offset = 0\<rparr> [] = None"
  by (rule worker_diverges) (simp only: length_replicate order.refl)

text \<open>
  \<^verbatim>\<open>add_subscriber\<close> replaces an earlier registration of the client; it fails iff the FIFO
  cannot be opened, and then the client is not registered at all. The topic stays sound.
\<close>

theorem Topic_add_subscriber_spec:
  assumes "topic_inv H t"
  shows "\<exists>b t' io'. Topic_add_subscriber H os t c p path off io = Some (b, t', io')
    \<and> topic_inv H t' \<and> topic_messages t' = topic_messages t
    \<and> registrations H t' = (registrations H t)(c := if b then Some p else None)
    \<and> (b \<longleftrightarrow> (\<exists>sub. find_sub H t' c = Some sub \<and> sub_fifo_fd sub \<noteq> - 1 \<and> sub_next_offset sub = off))"
proof -
  from Topic_add_subscriber_correct [OF assms, of os c p path off io] obtain b t' io'
    where "Topic_add_subscriber H os t c p path off io = Some (b, t', io')" by blast
  with Topic_add_subscriber_effect [OF assms this] show ?thesis by blast
qed

theorem Topic_add_subscriber_witness:
  "\<exists>b t' io'. Topic_add_subscriber sample_hashes sample_os sample_topic ''d'' ''b'' ''q'' 1 [] = Some (b, t', io')
     \<and> topic_inv sample_hashes t' \<and> topic_messages t' = topic_messages sample_topic"
  using Topic_add_subscriber_spec [OF sample_topic(1), of sample_os "''d''" "''b''" "''q''" 1 "[]"] by auto

text \<open>
  C37: \<^verbatim>\<open>shutdown\<close> sends the sentinel to every open subscriber and closes it, in the order of the
  table, forgets the subscribers, joins the worker and keeps the messages; a second call does
  nothing.
\<close>

theorem Topic_shutdown_spec:
  assumes "topic_inv H t" and "\<not> topic_stop t"
  shows "\<exists>t'. Topic_shutdown os t io
      = Some (t', shutdown_all os (map snd (HashMap_entries (topic_subs t))) io)
    \<and> topic_inv H t' \<and> topic_worker t' = Worker_joined \<and> find_sub H t' = Map.empty
    \<and> topic_messages t' = topic_messages t \<and> (\<forall>io'. Topic_shutdown os t' io' = Some (t', io'))"
  using Topic_shutdown_correct [OF assms, of os io] Topic_shutdown_again by blast

theorem Topic_shutdown_witness:
  "\<exists>t'. Topic_shutdown sample_os sample_topic [] = Some (t',
       shutdown_all sample_os (map snd (HashMap_entries (topic_subs sample_topic))) [])
     \<and> find_sub sample_hashes t' = Map.empty"
  using Topic_shutdown_spec [OF sample_topic(1,2), of sample_os "[]"] by auto

end
