(* ===== verification/Framing.thy ===== *)
theory Framing
  imports Protocol
begin

text \<open>
  The reassembly of requests in the main loop of the server (\<^verbatim>\<open>Server::run\<close> in
  \<^verbatim>\<open>src/server/src/Server.cpp\<close>): the bytes of each read are appended to \<^verbatim>\<open>recv_buf\<close>, and complete
  frames are handled and erased from its front. The handler is a parameter here; what the loop
  relies on is the locale \<open>frame_handler\<close>, interpreted on the server's handlers in \<open>Server\<close>.
\<close>

section \<open>The loop\<close>

type_synonym 's frame_handling = "'s \<Rightarrow> u8 \<Rightarrow> u8 list \<Rightarrow> nat \<Rightarrow> 's option"

text \<open>
  The inner loop. The test \<^verbatim>\<open>recv_buf.size() < 5 + payload_len\<close> adds in 32 bits; the erasure
  adds in the width of a pointer, and a range beyond the end of the vector is undefined.
\<close>

function frame_loop :: "'s frame_handling \<Rightarrow> 's \<Rightarrow> u8 list \<Rightarrow> ('s \<times> u8 list) option" where
  "frame_loop handle s recv_buf =
     (if 5 \<le> length recv_buf
      then do {
        payload_len \<leftarrow> read_uint32_le (drop 1 recv_buf);
        if length recv_buf < unat (5 + payload_len) then Some (s, recv_buf)
        else do {
          s \<leftarrow> handle s (recv_buf ! 0) (drop 5 recv_buf) (unat payload_len);
          if 5 + unat payload_len \<le> length recv_buf
          then frame_loop handle s (drop (5 + unat payload_len) recv_buf)
          else None } }
      else Some (s, recv_buf))"
  by pat_completeness auto
termination
  by (relation "measure (\<lambda>(_, _, recv_buf). length recv_buf)") auto

declare frame_loop.simps [simp del]

text \<open>One successful read, and a sequence of them.\<close>

definition receive :: "'s frame_handling \<Rightarrow> u8 list \<Rightarrow> 's \<times> u8 list \<Rightarrow> ('s \<times> u8 list) option" where
  "receive handle chunk st = frame_loop handle (fst st) (snd st @ chunk)"

fun receive_all :: "'s frame_handling \<Rightarrow> u8 list list \<Rightarrow> 's \<times> u8 list \<Rightarrow> ('s \<times> u8 list) option" where
  "receive_all handle [] st = Some st"
| "receive_all handle (chunk # chunks) st =
     do { st \<leftarrow> receive handle chunk st; receive_all handle chunks st }"

section \<open>Frames\<close>

text \<open>A request on the wire, and the requests handled one after the other.\<close>

definition request_frame :: "u8 \<times> u8 list \<Rightarrow> u8 list" where
  "request_frame r = fst r # u32le (word_of_nat (length (snd r))) @ snd r"

definition fits_frame :: "u8 \<times> u8 list \<Rightarrow> bool" where
  "fits_frame r \<longleftrightarrow> 5 + length (snd r) < 2 ^ 32"

fun handle_all :: "'s frame_handling \<Rightarrow> (u8 \<times> u8 list) list \<Rightarrow> 's \<Rightarrow> 's option" where
  "handle_all handle [] s = Some s"
| "handle_all handle (r # rs) s =
     do { s \<leftarrow> handle s (fst r) (snd r) (length (snd r)); handle_all handle rs s }"

text \<open>A buffer that starts with no complete frame: fewer bytes than a header, or than announced.\<close>

definition incomplete :: "u8 list \<Rightarrow> bool" where
  "incomplete buf \<longleftrightarrow> length buf < 5
     \<or> (\<exists>n. read_uint32_le (drop 1 buf) = Some n \<and> length buf < unat (5 + n))"

lemma frame_loop_incomplete: "incomplete buf \<Longrightarrow> frame_loop handle s buf = Some (s, buf)"
  by (auto simp: incomplete_def frame_loop.simps [of handle s buf])

lemma complete_header:
  assumes "\<not> incomplete buf"
  obtains n where "read_uint32_le (drop 1 buf) = Some n" and "5 \<le> length buf"
proof -
  from assms have "5 \<le> length buf" by (simp add: incomplete_def)
  then have "\<not> length (drop 1 buf) < 4" by simp
  then show thesis using that \<open>5 \<le> length buf\<close> by (metis not_None_eq read_uint32_le_None)
qed

lemma frame_loop_complete:
  assumes "\<not> incomplete buf" and "read_uint32_le (drop 1 buf) = Some n"
  shows "frame_loop handle s buf = do {
     s \<leftarrow> handle s (buf ! 0) (drop 5 buf) (unat n);
     if 5 + unat n \<le> length buf then frame_loop handle s (drop (5 + unat n) buf) else None }"
  using assms by (subst frame_loop.simps) (simp add: incomplete_def)

lemma frame_loop_rest: "frame_loop handle s buf = Some (s', rest) \<Longrightarrow> incomplete rest"
proof (induction "length buf" arbitrary: s buf rule: less_induct)
  case less
  show ?case
  proof (cases "incomplete buf")
    case True
    with less.prems show ?thesis by (simp add: frame_loop_incomplete)
  next
    case False
    from complete_header [OF this] obtain n where n: "read_uint32_le (drop 1 buf) = Some n"
      and len: "5 \<le> length buf" by blast
    from less.prems obtain s1 where "frame_loop handle s1 (drop (5 + unat n) buf) = Some (s', rest)"
      by (auto simp: frame_loop_complete [OF False n] bind_eq_Some_conv split: if_splits)
    then show ?thesis using len by (intro less.hyps) simp_all
  qed
qed

lemma length_request_frame [simp]: "length (request_frame r) = 5 + length (snd r)"
  by (simp add: request_frame_def)

lemma proper_prefix_incomplete:
  assumes "fits_frame r" and "strict_prefix buf (request_frame r)"
  shows "incomplete buf"
proof (cases "length buf < 5")
  case False
  from assms(2) obtain later where eq: "request_frame r = buf @ later" and "later \<noteq> []"
    by (auto simp: strict_prefix_def prefix_def)
  have "take 4 (drop 1 (request_frame r)) = u32le (word_of_nat (length (snd r)))"
    by (simp add: request_frame_def)
  with eq False have "take 4 (drop 1 buf) = u32le (word_of_nat (length (snd r)))" by simp
  then have "drop 1 buf = u32le (word_of_nat (length (snd r))) @ drop 4 (drop 1 buf)"
    by (metis append_take_drop_id)
  then have "read_uint32_le (drop 1 buf) = Some (word_of_nat (length (snd r)))"
    by (metis read_u32le)
  moreover have "unat (5 + word_of_nat (length (snd r)) :: u32) = 5 + length (snd r)"
    using assms(1) by (simp add: fits_frame_def unat_u32_add)
  moreover have "length buf < 5 + length (snd r)"
    using arg_cong [OF eq, of length] \<open>later \<noteq> []\<close> by simp
  ultimately show ?thesis by (auto simp: incomplete_def)
qed (simp add: incomplete_def)

lemma frame_head:
  assumes "fits_frame r"
  shows "read_uint32_le (drop 1 (request_frame r @ rest)) = Some (word_of_nat (length (snd r)))"
    and "unat (5 + word_of_nat (length (snd r)) :: u32) = 5 + length (snd r)"
    and "unat (word_of_nat (length (snd r)) :: u32) = length (snd r)"
    and "(request_frame r @ rest) ! 0 = fst r"
    and "drop 5 (request_frame r @ rest) = snd r @ rest"
proof -
  show "read_uint32_le (drop 1 (request_frame r @ rest)) = Some (word_of_nat (length (snd r)))"
    by (simp add: request_frame_def)
  show "(request_frame r @ rest) ! 0 = fst r" and "drop 5 (request_frame r @ rest) = snd r @ rest"
    by (simp_all add: request_frame_def u32le_def)
qed (use assms in \<open>simp_all add: fits_frame_def unat_u32_add\<close>)

lemma frame_complete: "fits_frame r \<Longrightarrow> \<not> incomplete (request_frame r @ rest)"
  using frame_head(1) [of r rest] frame_head(2) [of r] by (auto simp: incomplete_def)

lemma prefix_incomplete:
  assumes "incomplete (buf @ later)"
  shows "incomplete buf"
proof (cases "length buf < 5")
  case False
  with assms obtain n where n: "read_uint32_le (drop 1 buf @ later) = Some n"
    and len: "length (buf @ later) < unat (5 + n)"
    by (auto simp: incomplete_def)
  have "take 4 (drop 1 buf) = u32le n"
    using read_uint32_le_SomeD(1) [OF n] False by simp
  then have "read_uint32_le (drop 1 buf) = Some n" by (metis append_take_drop_id read_u32le)
  with len show ?thesis by (auto simp: incomplete_def)
qed (simp add: incomplete_def)

text \<open>However a stream of frames is cut, the first part is again frames and an incomplete tail.\<close>

lemma cut_stream:
  assumes "buf @ later = concat (map request_frame rs) @ tail"
    and "\<forall>r \<in> set rs. fits_frame r" and "incomplete tail"
  shows "\<exists>rs1 rs2 tail1. rs = rs1 @ rs2 \<and> buf = concat (map request_frame rs1) @ tail1
    \<and> incomplete tail1 \<and> tail1 @ later = concat (map request_frame rs2) @ tail"
  using assms(1,2)
proof (induction rs arbitrary: buf)
  case Nil
  then show ?case using prefix_incomplete [of buf later] assms(3) by auto
next
  case (Cons r rs)
  have eq: "buf @ later = request_frame r @ (concat (map request_frame rs) @ tail)"
    using Cons.prems(1) by simp
  then have "strict_prefix buf (request_frame r) \<or> (\<exists>buf'. buf = request_frame r @ buf')"
    unfolding append_eq_append_conv2 by (metis append_Nil2 prefixI strict_prefix_def)
  then show ?case
  proof
    assume "strict_prefix buf (request_frame r)"
    then have "incomplete buf" using Cons.prems(2) by (auto intro: proper_prefix_incomplete)
    with eq show ?thesis by (intro exI [of _ "[]"] exI [of _ "r # rs"] exI [of _ buf]) simp
  next
    assume "\<exists>buf'. buf = request_frame r @ buf'"
    then obtain buf' where buf': "buf = request_frame r @ buf'" by blast
    with eq have "buf' @ later = concat (map request_frame rs) @ tail" by simp
    from Cons.IH [OF this] Cons.prems(2) obtain rs1 rs2 tail1 where "rs = rs1 @ rs2"
      "buf' = concat (map request_frame rs1) @ tail1" "incomplete tail1"
      "tail1 @ later = concat (map request_frame rs2) @ tail" by (meson list.set_intros(2))
    with buf' show ?thesis by (intro exI [of _ "r # rs1"] exI [of _ rs2] exI [of _ tail1]) simp
  qed
qed

lemma handle_all_append: "handle_all handle (rs1 @ rs2) s =
    (case handle_all handle rs1 s of None \<Rightarrow> None | Some s \<Rightarrow> handle_all handle rs2 s)"
proof (induction rs1 arbitrary: s)
  case (Cons r rs)
  then show ?case by (cases "handle s (fst r) (snd r) (length (snd r))") simp_all
qed simp

section \<open>The contract with the handler\<close>

text \<open>
  The handler keeps the invariant and succeeds on every payload that is really in the buffer, and
  it looks at no byte beyond the payload.
\<close>

locale frame_handler =
  fixes inv :: "'s \<Rightarrow> bool"
    and handle :: "'s frame_handling"
  assumes handled: "inv s \<Longrightarrow> len \<le> length payload \<Longrightarrow> len < 2 ^ 32 \<Longrightarrow>
      \<exists>s'. handle s a payload len = Some s' \<and> inv s'"
    and reads_payload: "len \<le> length payload \<Longrightarrow> len < 2 ^ 32 \<Longrightarrow>
      handle s a payload len = handle s a (take len payload) len"
begin

lemma frame_loop_frame:
  assumes "fits_frame r"
  shows "frame_loop handle s (request_frame r @ rest) =
    (case handle s (fst r) (snd r) (length (snd r)) of
       None \<Rightarrow> None | Some s \<Rightarrow> frame_loop handle s rest)"
proof -
  have "handle s (fst r) (snd r @ rest) (length (snd r)) = handle s (fst r) (snd r) (length (snd r))"
    using assms by (subst reads_payload) (simp_all add: fits_frame_def)
  moreover have after: "drop (5 + length (snd r)) (request_frame r @ rest) = rest" by simp
  ultimately show ?thesis
    unfolding frame_loop_complete [OF frame_complete [OF assms] frame_head(1) [OF assms]]
    by (simp del: drop_append add: frame_head [OF assms] after split: option.split)
qed

text \<open>A stream of requests is handled request by request, up to an incomplete tail.\<close>

lemma frame_loop_stream:
  assumes "\<forall>r \<in> set rs. fits_frame r" and "incomplete tail"
  shows "frame_loop handle s (concat (map request_frame rs) @ tail)
    = (case handle_all handle rs s of None \<Rightarrow> None | Some s \<Rightarrow> Some (s, tail))"
  using assms(1)
  by (induction rs arbitrary: s)
    (simp_all add: frame_loop_incomplete [OF assms(2)] frame_loop_frame split: option.split)

text \<open>The invariant holds whenever the loop stops to wait for more bytes.\<close>

lemma frame_loop_keeps:
  assumes "frame_loop handle s buf = Some (s1, buf1)" and "inv s"
  shows "inv s1"
  using assms
proof (induction "length buf" arbitrary: s buf rule: less_induct)
  case less
  show ?case
  proof (cases "incomplete buf")
    case True
    with less.prems show ?thesis by (simp add: frame_loop_incomplete)
  next
    case False
    from complete_header [OF this] obtain n where n: "read_uint32_le (drop 1 buf) = Some n"
      and len: "5 \<le> length buf" by blast
    from less.prems(1) obtain s' where s': "handle s (buf ! 0) (drop 5 buf) (unat n) = Some s'"
      and fit: "5 + unat n \<le> length buf"
      and rest: "frame_loop handle s' (drop (5 + unat n) buf) = Some (s1, buf1)"
      by (auto simp: frame_loop_complete [OF False n] bind_eq_Some_conv split: if_splits)
    have "\<exists>s'. handle s (buf ! 0) (drop 5 buf) (unat n) = Some s' \<and> inv s'"
      using less.prems(2) fit unat_u32_bound [of n] by (intro handled) simp_all
    with s' have "inv s'" by simp
    with rest len show ?thesis by (intro less.hyps [of "drop (5 + unat n) buf" s']) simp_all
  qed
qed

text \<open>Bytes that come later change nothing about the frames already complete.\<close>

lemma frame_loop_append:
  assumes "frame_loop handle s buf = Some (s1, buf1)"
  shows "frame_loop handle s (buf @ later) = frame_loop handle s1 (buf1 @ later)"
  using assms
proof (induction "length buf" arbitrary: s buf rule: less_induct)
  case less
  show ?case
  proof (cases "incomplete buf")
    case True
    with less.prems show ?thesis by (simp add: frame_loop_incomplete)
  next
    case False
    from complete_header [OF this] obtain n where n: "read_uint32_le (drop 1 buf) = Some n"
      and len: "5 \<le> length buf" by blast
    from less.prems obtain s' where s': "handle s (buf ! 0) (drop 5 buf) (unat n) = Some s'"
      and fit: "5 + unat n \<le> length buf"
      and rest: "frame_loop handle s' (drop (5 + unat n) buf) = Some (s1, buf1)"
      by (auto simp: frame_loop_complete [OF False n] bind_eq_Some_conv split: if_splits)
    have more: "\<not> incomplete (buf @ later)" using False prefix_incomplete by blast
    have n': "read_uint32_le (drop 1 (buf @ later)) = Some n"
      using read_uint32_le_SomeD(1) [OF n] len by (simp, metis append_assoc append_take_drop_id read_u32le)
    have "handle s (buf ! 0) (drop 5 buf @ later) (unat n) = Some s'"
      using s' fit reads_payload [of "unat n" "drop 5 buf" s "buf ! 0"]
        reads_payload [of "unat n" "drop 5 buf @ later" s "buf ! 0"] unat_u32_bound [of n] by simp
    moreover have "(buf @ later) ! 0 = buf ! 0" using len by (auto simp: nth_append)
    moreover have "drop 5 (buf @ later) = drop 5 buf @ later"
      "drop (5 + unat n) (buf @ later) = drop (5 + unat n) buf @ later"
      using len fit by simp_all
    ultimately have "frame_loop handle s (buf @ later) = frame_loop handle s' (drop (5 + unat n) buf @ later)"
      using fit unfolding frame_loop_complete [OF more n'] by simp
    also have "\<dots> = frame_loop handle s1 (buf1 @ later)"
      using rest len by (intro less.hyps) simp_all
    finally show ?thesis .
  qed
qed

text \<open>How the stream is cut into reads does not matter.\<close>

lemma receive_all_stream:
  assumes "buf @ concat chunks = concat (map request_frame rs) @ tail"
    and "\<forall>r \<in> set rs. fits_frame r" and "incomplete tail" and "incomplete buf"
  shows "receive_all handle chunks (s, buf)
    = (case handle_all handle rs s of None \<Rightarrow> None | Some s \<Rightarrow> Some (s, tail))"
  using assms(1,2,4)
proof (induction chunks arbitrary: s buf rs)
  case Nil
  then have "rs = []" using frame_complete by (cases rs) auto
  with Nil.prems(1) show ?case by simp
next
  case (Cons chunk chunks)
  then have "(buf @ chunk) @ concat chunks = concat (map request_frame rs) @ tail" by simp
  from cut_stream [OF this Cons.prems(2) assms(3)] obtain rs1 rs2 tail1 where cut: "rs = rs1 @ rs2"
    "buf @ chunk = concat (map request_frame rs1) @ tail1" "incomplete tail1"
    "tail1 @ concat chunks = concat (map request_frame rs2) @ tail" by blast
  have "frame_loop handle s (buf @ chunk)
      = (case handle_all handle rs1 s of None \<Rightarrow> None | Some s \<Rightarrow> Some (s, tail1))"
    unfolding cut(2) using Cons.prems(2) by (intro frame_loop_stream cut(3)) (simp add: cut(1))
  moreover have "receive_all handle chunks (s', tail1)
      = (case handle_all handle rs2 s' of None \<Rightarrow> None | Some s \<Rightarrow> Some (s, tail))" for s'
    using Cons.prems(2) by (intro Cons.IH cut(3,4)) (simp add: cut(1))
  ultimately show ?case
    by (simp add: receive_def cut(1) handle_all_append split: option.split)
qed

lemma handle_all_keeps:
  assumes "inv s" and "\<forall>r \<in> set rs. fits_frame r"
  shows "\<exists>s'. handle_all handle rs s = Some s' \<and> inv s'"
  using assms
proof (induction rs arbitrary: s)
  case (Cons r rs)
  from Cons.prems handled [of s "length (snd r)" "snd r" "fst r"] obtain s1
    where "handle s (fst r) (snd r) (length (snd r)) = Some s1" "inv s1"
    by (auto simp: fits_frame_def)
  with Cons.IH [of s1] Cons.prems show ?case by simp
qed simp

end

end
