(* ===== verification/Server.thy ===== *)
theory Server
  imports Topic Framing
begin

text \<open>
  The server: \<^verbatim>\<open>src/server/inc/Server.hpp\<close> and \<^verbatim>\<open>src/server/src/Server.cpp\<close>. The state of the class
  is the record \<open>server\<close>; the log of system calls travels beside it. Requests are handled on the
  main thread, one after the other, and a handler is one function here; \<open>Sections\<close> cuts it into the
  critical sections of \<^verbatim>\<open>server_mutex\<close> and the topics' mutexes, and \<open>Threads\<close> interleaves these with the
  workers.

  A \<^verbatim>\<open>std::unique_ptr<Topic>\<close> in the table of topics is a \<open>topic option\<close>, a null pointer being
  \<open>None\<close>; dereferencing one has no result. Writing through a pointer into a table is
  \<open>HashMap_replace\<close>. The descriptor \<^verbatim>\<open>fifo_fd\<close> has no initialiser: \<open>None\<close> is its state until the
  constructor assigns it.
\<close>

section \<open>State\<close>

record client_metadata =
  meta_client_id :: string
  meta_topic :: string
  meta_offset :: u32
  meta_prefix :: string
  meta_ipc_path :: string
  meta_is_active :: bool

record server =
  correct_start :: bool
  fifo_fd :: "int option"
  ipc_path :: string
  topics :: "(string, topic option) hashmap"
  client_index :: "(string, client_metadata) hashmap"
  producer_topics :: "(u32, string) hashmap"
  running :: bool

type_synonym server_state = "server \<times> io_log"

definition is_valid_identifier :: "string \<Rightarrow> bool" where
  "is_valid_identifier str =
     (if str = [] \<or> length str > 32 then False
      else list_all (\<lambda>c. is_alnum c \<or> c = CHR ''_'' \<or> c = CHR ''.'' \<or> c = CHR ''-'') str)"

section \<open>Construction and shutdown\<close>

definition Server_new :: "os \<Rightarrow> string \<Rightarrow> io_log \<Rightarrow> server_state" where
  "Server_new os path io =
     (let srv = \<lparr>correct_start = True, fifo_fd = None, ipc_path = path, topics = HashMap_default,
                 client_index = HashMap_default, producer_topics = HashMap_default, running = True\<rparr>;
          io = sys_unlink path io;
          (ret, io) = sys_mkfifo os path io
      in if ret = - 1 then (srv\<lparr>correct_start := False\<rparr>, io)
         else let (fd, io) = sys_open_rdwr os path io
              in (srv\<lparr>correct_start := (fd \<noteq> - 1), fifo_fd := Some fd\<rparr>, io))"

definition shutdown_topic :: "os \<Rightarrow> topic option \<Rightarrow> io_log \<Rightarrow> (topic option \<times> io_log) option" where
  "shutdown_topic os p io =
     (case p of None \<Rightarrow> Some (None, io)
      | Some t \<Rightarrow> do { (t, io) \<leftarrow> Topic_shutdown os t io; Some (Some t, io) })"

definition close_fifo :: "server_state \<Rightarrow> server_state option" where
  "close_fifo s = (case fifo_fd (fst s) of None \<Rightarrow> None
     | Some fd \<Rightarrow> Some (fst s, sys_close fd (snd s)))"

definition Server_stop :: "os \<Rightarrow> server_state \<Rightarrow> server_state option" where
  "Server_stop os s =
     (let (srv, io) = s
      in if \<not> running srv then Some (srv, io)
         else do {
           let srv = srv\<lparr>running := False\<rparr>;
           let io = sys_unlink (ipc_path srv) io;
           let (dummy_fd, io) = sys_open_wr_nb os (ipc_path srv) io;
           let io = (if dummy_fd \<noteq> - 1
                     then sys_close dummy_fd (snd (sys_write os dummy_fd [0] io)) else io);
           (ts, io) \<leftarrow> HashMap_for_each (\<lambda>_ p io. shutdown_topic os p io) (topics srv) io;
           close_fifo (srv\<lparr>topics := ts\<rparr>, io) })"

section \<open>Responses, topics\<close>

definition send_response :: "os \<Rightarrow> u32 \<Rightarrow> status_code \<Rightarrow> string \<Rightarrow> io_log \<Rightarrow> io_log" where
  "send_response os client_pid status payload io =
     (let (fd, io) = sys_open_wr os (client_fifo_path client_pid) io
      in if fd \<noteq> - 1
         then let res = serialize_response status payload;
                  (_, io) = sys_write os fd res io
              in sys_close fd io
         else io)"

definition create_topic :: "hashes \<Rightarrow> server \<Rightarrow> string \<Rightarrow> bool \<times> server" where
  "create_topic H srv name =
     (if HashMap_contains (hash_string H) (topics srv) name then (False, srv)
      else let (_, ts) = HashMap_subscript (hash_string H) None (topics srv) name;
               (_, ts) = HashMap_replace (hash_string H) ts name (Some (Topic_new name))
           in (True, srv\<lparr>topics := ts\<rparr>))"

definition get_topic :: "hashes \<Rightarrow> server \<Rightarrow> string \<Rightarrow> topic option" where
  "get_topic H srv name =
     (case HashMap_find (hash_string H) (topics srv) name of Some found \<Rightarrow> found | None \<Rightarrow> None)"

definition set_topic :: "hashes \<Rightarrow> server \<Rightarrow> string \<Rightarrow> topic \<Rightarrow> server" where
  "set_topic H srv name t =
     srv\<lparr>topics := snd (HashMap_replace (hash_string H) (topics srv) name (Some t))\<rparr>"

definition set_client :: "hashes \<Rightarrow> server \<Rightarrow> string \<Rightarrow> client_metadata \<Rightarrow> server" where
  "set_client H srv client_id meta =
     srv\<lparr>client_index := snd (HashMap_replace (hash_string H) (client_index srv) client_id meta)\<rparr>"

section \<open>The request handlers\<close>

definition handle_create :: "hashes \<Rightarrow> os \<Rightarrow> server_state \<Rightarrow> u8 list \<Rightarrow> nat \<Rightarrow> server_state option" where
  "handle_create H os s payload len = do {
     let (srv, io) = s;
     r \<leftarrow> parse_create payload len;
     (case r of
        Rejected \<Rightarrow> Some (srv, io)
      | Parsed (client_pid, name) \<Rightarrow>
          if \<not> is_valid_identifier name
          then Some (srv, send_response os client_pid GENERAL_ERROR '''' io)
          else let (created, srv) = create_topic H srv name
               in if \<not> created then Some (srv, send_response os client_pid TOPIC_CLIENT_ERR '''' io)
                  else Some (srv, send_response os client_pid SUCCESS '''' io)) }"

fun join_names :: "bool \<Rightarrow> string \<Rightarrow> string list \<Rightarrow> string" where
  "join_names is_first result [] = result"
| "join_names is_first result (name # names) =
     join_names False ((if \<not> is_first then result @ '','' else result) @ name) names"

definition handle_list :: "os \<Rightarrow> server_state \<Rightarrow> u8 list \<Rightarrow> nat \<Rightarrow> server_state option" where
  "handle_list os s payload len = do {
     let (srv, io) = s;
     r \<leftarrow> parse_list payload len;
     (case r of
        Rejected \<Rightarrow> Some (srv, io)
      | Parsed client_pid \<Rightarrow> do {
          pairs \<leftarrow> HashMap_iterate (topics srv);
          let result = join_names True '''' (map fst pairs);
          Some (srv, send_response os client_pid SUCCESS result io) }) }"

definition client_json :: "client_metadata \<Rightarrow> string" where
  \<open>client_json meta =
     ''{"client":"'' @ meta_client_id meta @
     ''","topic":"'' @ meta_topic meta @
     ''","offset":'' @ to_string (meta_offset meta) @
     '',"prefix":"'' @ meta_prefix meta @
     ''","ipc":"'' @ meta_ipc_path meta @ ''"}''\<close>

definition handle_info :: "hashes \<Rightarrow> os \<Rightarrow> server_state \<Rightarrow> u8 list \<Rightarrow> nat \<Rightarrow> server_state option" where
  "handle_info H os s payload len = do {
     let (srv, io) = s;
     r \<leftarrow> parse_info payload len;
     (case r of
        Rejected \<Rightarrow> Some (srv, io)
      | Parsed (client_pid, client_id) \<Rightarrow>
          (case HashMap_find (hash_string H) (client_index srv) client_id of
             None \<Rightarrow> Some (srv, send_response os client_pid TOPIC_CLIENT_ERR '''' io)
           | Some meta \<Rightarrow> Some (srv, send_response os client_pid SUCCESS (client_json meta) io))) }"

definition handle_producer_connect ::
    "hashes \<Rightarrow> os \<Rightarrow> server_state \<Rightarrow> u8 list \<Rightarrow> nat \<Rightarrow> server_state option" where
  "handle_producer_connect H os s payload len = do {
     let (srv, io) = s;
     r \<leftarrow> parse_connect payload len;
     (case r of
        Rejected \<Rightarrow> Some (srv, io)
      | Parsed (client_pid, name) \<Rightarrow>
          if get_topic H srv name = None
          then Some (srv, send_response os client_pid TOPIC_CLIENT_ERR '''' io)
          else let (_, ps) = HashMap_insert_or_assign (hash_uint32 H) (producer_topics srv) client_pid name
               in Some (srv\<lparr>producer_topics := ps\<rparr>, send_response os client_pid SUCCESS '''' io)) }"

definition handle_publish :: "hashes \<Rightarrow> server_state \<Rightarrow> u8 list \<Rightarrow> nat \<Rightarrow> server_state option" where
  "handle_publish H s payload len = do {
     let (srv, io) = s;
     r \<leftarrow> parse_produce payload len;
     (case r of
        Rejected \<Rightarrow> Some (srv, io)
      | Parsed (name, key, val) \<Rightarrow>
          (case (if name \<noteq> [] then get_topic H srv name else None) of
             None \<Rightarrow> Some (srv, io)
           | Some t \<Rightarrow> Some (set_topic H srv name (Topic_append_message t key val), io))) }"

definition handle_subscriber_connect ::
    "hashes \<Rightarrow> os \<Rightarrow> server_state \<Rightarrow> u8 list \<Rightarrow> nat \<Rightarrow> server_state option" where
  "handle_subscriber_connect H os s payload len = do {
     let (srv, io) = s;
     r \<leftarrow> parse_subscribe payload len;
     (case r of
        Rejected \<Rightarrow> Some (srv, io)
      | Parsed (client_pid, client_id, name, prfx, req_offset) \<Rightarrow>
          if \<not> is_valid_identifier client_id \<or> \<not> is_valid_identifier name
          then Some (srv, send_response os client_pid GENERAL_ERROR '''' io)
          else (case HashMap_find (hash_string H) (topics srv) name of
            None \<Rightarrow> Some (srv, send_response os client_pid TOPIC_CLIENT_ERR '''' io)
          | Some found_topic \<Rightarrow> do {
              let meta = HashMap_find (hash_string H) (client_index srv) client_id;
              let (duplicate, io) = (case meta of None \<Rightarrow> (False, io)
                 | Some m \<Rightarrow> if meta_is_active m then is_reader_active os (meta_ipc_path m) io
                             else (False, io));
              if duplicate then Some (srv, send_response os client_pid TOPIC_CLIENT_ERR '''' io)
              else do {
                let start_offset = (if req_offset \<noteq> OFFSET_UNSET then req_offset
                   else case meta of Some m \<Rightarrow> meta_offset m | None \<Rightarrow> 0);
                let consumer_ipc = client_fifo_path client_pid;
                let new_meta = \<lparr>meta_client_id = client_id, meta_topic = name,
                   meta_offset = start_offset, meta_prefix = prfx, meta_ipc_path = consumer_ipc,
                   meta_is_active = True\<rparr>;
                let srv = srv\<lparr>client_index :=
                   snd (HashMap_insert_or_assign (hash_string H) (client_index srv) client_id new_meta)\<rparr>;
                let io = send_response os client_pid SUCCESS '''' io;
                (case found_topic of None \<Rightarrow> None
                 | Some t \<Rightarrow> do {
                     (_, t, io) \<leftarrow> Topic_add_subscriber H os t client_id prfx consumer_ipc start_offset io;
                     Some (set_topic H srv name t, io) }) } })) }"

definition handle_commit :: "hashes \<Rightarrow> server_state \<Rightarrow> u8 list \<Rightarrow> nat \<Rightarrow> server_state option" where
  "handle_commit H s payload len = do {
     let (srv, io) = s;
     r \<leftarrow> parse_ack payload len;
     (case r of
        Rejected \<Rightarrow> Some (srv, io)
      | Parsed (client_id, next_offset) \<Rightarrow>
          (case HashMap_find (hash_string H) (client_index srv) client_id of
             None \<Rightarrow> Some (srv, io)
           | Some meta \<Rightarrow> Some (set_client H srv client_id (meta\<lparr>meta_offset := next_offset\<rparr>), io))) }"

definition handle_disconnect :: "hashes \<Rightarrow> server_state \<Rightarrow> u8 list \<Rightarrow> nat \<Rightarrow> server_state option" where
  "handle_disconnect H s payload len = do {
     let (srv, io) = s;
     r \<leftarrow> parse_disconnect payload len;
     (case r of
        Rejected \<Rightarrow> Some (srv, io)
      | Parsed client_id \<Rightarrow>
          (case HashMap_find (hash_string H) (client_index srv) client_id of
             None \<Rightarrow> Some (srv, io)
           | Some meta \<Rightarrow> do {
               let srv = set_client H srv client_id (meta\<lparr>meta_is_active := False\<rparr>);
               (case HashMap_find (hash_string H) (topics srv) (meta_topic meta) of
                  None \<Rightarrow> Some (srv, io)
                | Some None \<Rightarrow> None
                | Some (Some t) \<Rightarrow> do {
                    (_, t, io) \<leftarrow> Topic_remove_subscriber H t client_id io;
                    Some (set_topic H srv (meta_topic meta) t, io) }) })) }"

definition handle_request ::
    "hashes \<Rightarrow> os \<Rightarrow> server_state \<Rightarrow> u8 \<Rightarrow> u8 list \<Rightarrow> nat \<Rightarrow> server_state option" where
  "handle_request H os s act payload len =
     (if act = 1 then handle_create H os s payload len
      else if act = 2 then handle_list os s payload len
      else if act = 3 then handle_info H os s payload len
      else if act = 4 then handle_producer_connect H os s payload len
      else if act = 5 then handle_publish H s payload len
      else if act = 6 then handle_subscriber_connect H os s payload len
      else if act = 7 then handle_commit H s payload len
      else if act = 8 then handle_disconnect H s payload len
      else Some s)"

section \<open>The main loop\<close>

text \<open>
  What happens to the main thread while it waits in \<^verbatim>\<open>read\<close>: bytes arrive, the call fails or meets
  the end of the file, or a signal runs \<^verbatim>\<open>stop\<close> on the thread (\<^verbatim>\<open>signal_handler\<close> in \<^verbatim>\<open>src/main.cpp\<close>),
  after which the call is restarted. With no event left the thread still waits. This is the loop of the
  main thread alone, with handlers as single steps, between which a signal only arrives in \<^verbatim>\<open>read\<close>; signals
  at every point, the workers, and calls that block are in \<open>Threads\<close> and \<open>Main_Loop\<close>.
\<close>

datatype main_event = Read "u8 list" | Read_nothing | Signal

text \<open>The pointer \<^verbatim>\<open>g_server\<close> is set before the handlers are installed.\<close>

definition signal_handler :: "os \<Rightarrow> bool \<Rightarrow> server_state \<Rightarrow> server_state option" where
  [simp]: "signal_handler os g_server_set s = (if g_server_set then Server_stop os s else Some s)"

fun Server_run ::
    "hashes \<Rightarrow> os \<Rightarrow> main_event list \<Rightarrow> server_state \<times> u8 list \<Rightarrow> (server_state \<times> u8 list) option" where
  "Server_run H os [] st = Some st"
| "Server_run H os (Signal # events) st =
     do { s \<leftarrow> signal_handler os True (fst st); Server_run H os events (s, snd st) }"
| "Server_run H os (Read_nothing # events) st =
     (if \<not> running (fst (fst st)) then do { s \<leftarrow> close_fifo (fst st); Some (s, snd st) }
      else Server_run H os events st)"
| "Server_run H os (Read chunk # events) st = do {
     st \<leftarrow> receive (handle_request H os) chunk st;
     if \<not> running (fst (fst st)) then do { s \<leftarrow> close_fifo (fst st); Some (s, snd st) }
     else Server_run H os events st }"

section \<open>The program\<close>

definition is_correct_start :: "server \<Rightarrow> bool" where
  [simp]: "is_correct_start srv = correct_start srv"

text \<open>
  The destructor: \<^verbatim>\<open>stop\<close>, and then the table of topics is destroyed, each with its own destructor. The
  result shows the topics as those leave them.
\<close>

definition destroy_topic :: "os \<Rightarrow> topic option \<Rightarrow> io_log \<Rightarrow> (topic option \<times> io_log) option" where
  "destroy_topic os p io =
     (case p of None \<Rightarrow> Some (None, io)
      | Some t \<Rightarrow> do { (t, io) \<leftarrow> Topic_delete os t io; Some (Some t, io) })"

definition Server_delete :: "os \<Rightarrow> server_state \<Rightarrow> server_state option" where
  "Server_delete os s = do {
     (srv, io) \<leftarrow> Server_stop os s;
     (ts, io) \<leftarrow> HashMap_for_each (\<lambda>_ p io. destroy_topic os p io) (topics srv) io;
     Some (srv\<lparr>topics := ts\<rparr>, io) }"

text \<open>
  \<^verbatim>\<open>main\<close> of \<^verbatim>\<open>src/main.cpp\<close>: its exit code and the server at the end of its destructor, whose \<^verbatim>\<open>stop\<close>
  runs on both returns. After the events the thread reads once more; if the server still runs
  then, the read waits and the program has no result. The console output is left out.
\<close>

definition server_main ::
    "hashes \<Rightarrow> os \<Rightarrow> u32 \<Rightarrow> main_event list \<Rightarrow> io_log \<Rightarrow> (int \<times> server_state) option" where
  "server_main H os pid events io =
     (let ipc_path = ''/tmp/treenity.server.'' @ to_string pid;
          s = Server_new os ipc_path io
      in if \<not> is_correct_start (fst s) then do { s \<leftarrow> Server_delete os s; Some (1, s) }
         else do {
           (s, _) \<leftarrow> Server_run H os (events @ [Read_nothing]) (s, []);
           if running (fst s) then None
           else do { s \<leftarrow> Server_delete os s; Some (0, s) } })"

end
