(* ===== verification/Server_Correct.thy ===== *)
theory Server_Correct
  imports Server
begin

text \<open>
  The correctness of the server. Its three tables are read as maps (\<open>get_topic\<close>, \<open>client_of\<close>,
  \<open>producer_of\<close>); \<open>server_inv\<close> says that they are sound and refer to each other consistently. Every
  handler succeeds on every payload that is in the buffer, whatever its bytes, and keeps it.
\<close>

section \<open>The invariant\<close>

definition client_of :: "hashes \<Rightarrow> server \<Rightarrow> string \<rightharpoonup> client_metadata" where
  "client_of H srv = HashMap_find (hash_string H) (client_index srv)"

definition producer_of :: "hashes \<Rightarrow> server \<Rightarrow> u32 \<rightharpoonup> string" where
  "producer_of H srv = HashMap_find (hash_uint32 H) (producer_topics srv)"

text \<open>
  A topic is stored under its own valid name. A client is indexed under its own valid identifier
  and its topic exists, as does a producer's. A subscriber of a topic is a known client; if the
  topic is the client's current one, the client is active and the registration is the one recorded.
\<close>

definition topic_entry_ok :: "hashes \<Rightarrow> string \<Rightarrow> topic \<Rightarrow> bool" where
  "topic_entry_ok H name t \<longleftrightarrow> topic_inv H t \<and> topic_name t = name \<and> is_valid_identifier name"

definition client_entry_ok :: "string \<Rightarrow> client_metadata \<Rightarrow> bool" where
  "client_entry_ok c m \<longleftrightarrow> meta_client_id m = c \<and> is_valid_identifier c
     \<and> (\<exists>pid. meta_ipc_path m = client_fifo_path pid)"

definition sub_matches :: "string \<Rightarrow> active_subscriber \<Rightarrow> client_metadata \<Rightarrow> bool" where
  "sub_matches name sub m \<longleftrightarrow> (meta_topic m = name \<longrightarrow> meta_is_active m
     \<and> meta_prefix m = sub_prefix sub \<and> meta_ipc_path m = sub_fifo_path sub)"

definition consistent ::
    "hashes \<Rightarrow> (string \<rightharpoonup> topic) \<Rightarrow> (string \<rightharpoonup> client_metadata) \<Rightarrow> (u32 \<rightharpoonup> string) \<Rightarrow> bool" where
  "consistent H T C P \<longleftrightarrow>
     (\<forall>name t. T name = Some t \<longrightarrow> topic_entry_ok H name t)
     \<and> (\<forall>c m. C c = Some m \<longrightarrow> client_entry_ok c m \<and> T (meta_topic m) \<noteq> None)
     \<and> (\<forall>pid name. P pid = Some name \<longrightarrow> T name \<noteq> None)
     \<and> (\<forall>name t c sub. T name = Some t \<longrightarrow> find_sub H t c = Some sub \<longrightarrow>
          (\<exists>m. C c = Some m \<and> sub_matches name sub m))"

definition tables_ok :: "hashes \<Rightarrow> server \<Rightarrow> bool" where
  "tables_ok H srv \<longleftrightarrow> hm_inv (hash_string H) (topics srv) \<and> hm_inv (hash_string H) (client_index srv)
     \<and> hm_inv (hash_uint32 H) (producer_topics srv)
     \<and> (\<forall>name. HashMap_find (hash_string H) (topics srv) name \<noteq> Some None)"

definition server_inv :: "hashes \<Rightarrow> server \<Rightarrow> bool" where
  "server_inv H srv \<longleftrightarrow> tables_ok H srv
     \<and> consistent H (get_topic H srv) (client_of H srv) (producer_of H srv)"

lemma find_topic:
  assumes "tables_ok H srv"
  shows "HashMap_find (hash_string H) (topics srv) name = map_option Some (get_topic H srv name)"
proof (cases "HashMap_find (hash_string H) (topics srv) name")
  case (Some p)
  then have "p \<noteq> None" using assms unfolding tables_ok_def by metis
  with Some show ?thesis by (auto simp: get_topic_def)
qed (simp add: get_topic_def)

lemma consistentD:
  assumes "consistent H T C P"
  shows "T name = Some t \<Longrightarrow> topic_inv H t" and "T name = Some t \<Longrightarrow> topic_name t = name"
    and "T name = Some t \<Longrightarrow> is_valid_identifier name"
    and "C c = Some m \<Longrightarrow> meta_client_id m = c" and "C c = Some m \<Longrightarrow> T (meta_topic m) \<noteq> None"
    and "P pid = Some name \<Longrightarrow> T name \<noteq> None"
    and "T name = Some t \<Longrightarrow> find_sub H t c = Some sub \<Longrightarrow> \<exists>m. C c = Some m \<and> sub_matches name sub m"
    and "C c = Some m \<Longrightarrow> client_entry_ok c m" and "T name = Some t \<Longrightarrow> topic_entry_ok H name t"
  using assms by (auto simp: consistent_def topic_entry_ok_def client_entry_ok_def)

lemma server_invD:
  assumes "server_inv H srv"
  shows "tables_ok H srv" and "consistent H (get_topic H srv) (client_of H srv) (producer_of H srv)"
  using assms by (auto simp: server_inv_def)

section \<open>The writes\<close>

text \<open>What each write to a table does to the three maps; the tables stay sound.\<close>

lemma topics_write:
  assumes ok: "tables_ok H srv" and hm: "hm_inv (hash_string H) ts"
    and find: "HashMap_find (hash_string H) ts = (HashMap_find (hash_string H) (topics srv))(name \<mapsto> Some t)"
  shows "get_topic H (srv\<lparr>topics := ts\<rparr>) = (get_topic H srv)(name \<mapsto> t)"
    and "client_of H (srv\<lparr>topics := ts\<rparr>) = client_of H srv"
    and "producer_of H (srv\<lparr>topics := ts\<rparr>) = producer_of H srv"
    and "tables_ok H (srv\<lparr>topics := ts\<rparr>)"
proof -
  show get: "get_topic H (srv\<lparr>topics := ts\<rparr>) = (get_topic H srv)(name \<mapsto> t)"
    by (rule ext) (simp add: get_topic_def find)
  show client: "client_of H (srv\<lparr>topics := ts\<rparr>) = client_of H srv"
    and producer: "producer_of H (srv\<lparr>topics := ts\<rparr>) = producer_of H srv"
    by (simp_all add: client_of_def producer_of_def)
  show "tables_ok H (srv\<lparr>topics := ts\<rparr>)"
    using ok hm by (simp add: tables_ok_def find)
qed

lemma clients_write:
  assumes ok: "tables_ok H srv" and hm: "hm_inv (hash_string H) cs"
    and find: "HashMap_find (hash_string H) cs = (client_of H srv)(c \<mapsto> m)"
  shows "client_of H (srv\<lparr>client_index := cs\<rparr>) = (client_of H srv)(c \<mapsto> m)"
    and "get_topic H (srv\<lparr>client_index := cs\<rparr>) = get_topic H srv"
    and "producer_of H (srv\<lparr>client_index := cs\<rparr>) = producer_of H srv"
    and "tables_ok H (srv\<lparr>client_index := cs\<rparr>)"
proof -
  show client: "client_of H (srv\<lparr>client_index := cs\<rparr>) = (client_of H srv)(c \<mapsto> m)"
    by (simp add: client_of_def [of H "srv\<lparr>client_index := cs\<rparr>"] find)
  show topic: "get_topic H (srv\<lparr>client_index := cs\<rparr>) = get_topic H srv"
    and producer: "producer_of H (srv\<lparr>client_index := cs\<rparr>) = producer_of H srv"
    by (simp_all add: get_topic_def producer_of_def fun_eq_iff)
  show "tables_ok H (srv\<lparr>client_index := cs\<rparr>)"
    using ok hm by (simp add: tables_ok_def)
qed

lemma set_topic_correct:
  assumes ok: "tables_ok H srv" and "get_topic H srv name \<noteq> None"
  shows "get_topic H (set_topic H srv name t) = (get_topic H srv)(name \<mapsto> t)"
    and "client_of H (set_topic H srv name t) = client_of H srv"
    and "producer_of H (set_topic H srv name t) = producer_of H srv"
    and "tables_ok H (set_topic H srv name t)"
proof -
  have hm: "hm_inv (hash_string H) (topics srv)" using ok by (simp add: tables_ok_def)
  have "HashMap_find (hash_string H) (topics srv) name \<noteq> None"
    using assms(2) by (simp add: find_topic [OF ok])
  then have "HashMap_find (hash_string H) (snd (HashMap_replace (hash_string H) (topics srv) name (Some t)))
      = (HashMap_find (hash_string H) (topics srv))(name \<mapsto> Some t)"
    by (simp only: replace_correct(3) [OF hm] if_False)
  note written = topics_write [OF ok replace_correct(1) [OF hm] this, folded set_topic_def]
  show "get_topic H (set_topic H srv name t) = (get_topic H srv)(name \<mapsto> t)"
    and "client_of H (set_topic H srv name t) = client_of H srv"
    and "producer_of H (set_topic H srv name t) = producer_of H srv"
    and "tables_ok H (set_topic H srv name t)"
    by (fact written)+
qed

lemma set_client_correct:
  assumes ok: "tables_ok H srv" and "client_of H srv c \<noteq> None"
  shows "client_of H (set_client H srv c m) = (client_of H srv)(c \<mapsto> m)"
    and "get_topic H (set_client H srv c m) = get_topic H srv"
    and "producer_of H (set_client H srv c m) = producer_of H srv"
    and "tables_ok H (set_client H srv c m)"
proof -
  have hm: "hm_inv (hash_string H) (client_index srv)" using ok by (simp add: tables_ok_def)
  have "HashMap_find (hash_string H) (snd (HashMap_replace (hash_string H) (client_index srv) c m))
      = (client_of H srv)(c \<mapsto> m)"
    using assms(2) unfolding client_of_def by (simp only: replace_correct(3) [OF hm] if_False)
  note written = clients_write [OF ok replace_correct(1) [OF hm] this, folded set_client_def]
  show "client_of H (set_client H srv c m) = (client_of H srv)(c \<mapsto> m)"
    and "get_topic H (set_client H srv c m) = get_topic H srv"
    and "producer_of H (set_client H srv c m) = producer_of H srv"
    and "tables_ok H (set_client H srv c m)"
    by (fact written)+
qed

text \<open>A topic may be replaced by a sound one of the same name whose subscribers are accounted for.\<close>

lemma consistent_topic:
  assumes "consistent H T C P" and "topic_entry_ok H name t"
    and "\<And>c sub. find_sub H t c = Some sub \<Longrightarrow> \<exists>m. C c = Some m \<and> sub_matches name sub m"
  shows "consistent H (T(name \<mapsto> t)) C P"
  using assms by (auto simp: consistent_def)

lemma consistent_client:
  assumes "consistent H T C P" and "client_entry_ok c m" and "T (meta_topic m) \<noteq> None"
    and "\<And>name t sub. T name = Some t \<Longrightarrow> find_sub H t c = Some sub \<Longrightarrow> sub_matches name sub m"
  shows "consistent H T (C(c \<mapsto> m)) P"
  using assms by (simp add: consistent_def)

text \<open>
  The two changes to a topic's subscribers that come with a change of the client's record: nobody
  else is registered anew, and the client's registration, if any, is the recorded one.
\<close>

lemma consistent_subscriber:
  assumes cons: "consistent H T C P" and "T name = Some t"
    and "topic_entry_ok H name t'" and "client_entry_ok c m" and "meta_topic m = name"
    and others: "\<And>c' sub. c' \<noteq> c \<Longrightarrow> find_sub H t' c' = Some sub \<Longrightarrow> find_sub H t c' = Some sub"
    and own: "\<And>sub. find_sub H t' c = Some sub \<Longrightarrow> sub_matches name sub m"
  shows "consistent H (T(name \<mapsto> t')) (C(c \<mapsto> m)) P"
proof -
  have "\<exists>m'. (C(c \<mapsto> m)) c' = Some m' \<and> sub_matches name' sub m'"
    if "(T(name \<mapsto> t')) name' = Some t1" and "find_sub H t1 c' = Some sub" for name' t1 c' sub
  proof (cases "name' = name")
    case True
    with that have find: "find_sub H t' c' = Some sub" by simp
    show ?thesis
    proof (cases "c' = c")
      case False
      from consistentD(7) [OF cons assms(2) others [OF False find]] False True show ?thesis by simp
    qed (use own find True in simp)
  next
    case False
    with that consistentD(7) [OF cons, of name' t1 c' sub] assms(5) show ?thesis
      by (auto simp: sub_matches_def)
  qed
  then show ?thesis
    using assms(3,4,5) cons by (simp add: consistent_def)
qed

lemma consistent_registered:
  assumes cons: "consistent H T C P" and topic: "T name = Some t" and inv': "topic_inv H t'" and same: "same_topic t t'"
    and valid: "is_valid_identifier c"
    and subs: "if b then \<exists>fd. fd \<noteq> - 1 \<and> find_sub H t' = (find_sub H t)(c \<mapsto> \<lparr>sub_client_id = c,
             sub_prefix = p, sub_fifo_path = client_fifo_path pid, sub_fifo_fd = fd, sub_next_offset = n\<rparr>)
          else find_sub H t' = (find_sub H t)(c := None)"
  shows "consistent H (T(name \<mapsto> t')) (C(c \<mapsto> \<lparr>meta_client_id = c, meta_topic = name, meta_offset = n,
    meta_prefix = p, meta_ipc_path = client_fifo_path pid, meta_is_active = True\<rparr>)) P"
proof (rule consistent_subscriber [OF cons topic])
  let ?m = "\<lparr>meta_client_id = c, meta_topic = name, meta_offset = n,
    meta_prefix = p, meta_ipc_path = client_fifo_path pid, meta_is_active = True\<rparr>"
  show "topic_entry_ok H name t'"
    using consistentD(9) [OF cons topic] inv' same by (simp add: topic_entry_ok_def same_topic_def)
  show "client_entry_ok c ?m" using valid by (auto simp: client_entry_ok_def)
  show "find_sub H t c' = Some sub" if "c' \<noteq> c" "find_sub H t' c' = Some sub" for c' sub
    using subs that by (cases b) auto
  show "sub_matches name sub ?m" if "find_sub H t' c = Some sub" for sub
    using subs that by (cases b) (auto simp: sub_matches_def)
qed simp

lemma consistent_unregistered:
  assumes cons: "consistent H T C P" and client: "C c = Some m" and topic: "T (meta_topic m) = Some t"
    and "topic_inv H t'" and "same_topic t t'" and "find_sub H t' = (find_sub H t)(c := None)"
  shows "consistent H (T(meta_topic m \<mapsto> t')) (C(c \<mapsto> m\<lparr>meta_is_active := False\<rparr>)) P"
proof (rule consistent_subscriber [OF cons topic])
  show "topic_entry_ok H (meta_topic m) t'"
    using consistentD(9) [OF cons topic] assms(4,5) by (simp add: topic_entry_ok_def same_topic_def)
  show "client_entry_ok c (m\<lparr>meta_is_active := False\<rparr>)"
    using consistentD(8) [OF cons client] by (simp add: client_entry_ok_def)
qed (use assms(6) in \<open>auto split: if_splits\<close>)

lemma find_sub_new [simp]: "find_sub H (Topic_new name) c = None"
  by (simp add: Topic_new_def)

lemma topic_new_fields [simp]:
  "topic_name (Topic_new name) = name" "topic_stop (Topic_new name) = False"
  "topic_worker (Topic_new name) = Worker_running"
  by (simp_all add: Topic_new_def)

text \<open>
  What a request never touches: the flag and the descriptor of the server. If every topic is alive
  (its worker in its loop), it stays so; if the workers of exactly the topics told to stop have been joined and
  the others are in their loops, too.
\<close>

definition alive :: "hashes \<Rightarrow> server \<Rightarrow> bool" where
  "alive H srv \<longleftrightarrow> (\<forall>name t. get_topic H srv name = Some t \<longrightarrow>
     \<not> topic_stop t \<and> topic_worker t = Worker_running)"

definition tidy :: "hashes \<Rightarrow> server \<Rightarrow> bool" where
  "tidy H srv \<longleftrightarrow> (\<forall>name t. get_topic H srv name = Some t \<longrightarrow>
     topic_worker t = (if topic_stop t then Worker_joined else Worker_running))"

definition steady :: "hashes \<Rightarrow> server \<Rightarrow> server \<Rightarrow> bool" where
  "steady H srv srv' \<longleftrightarrow> running srv' = running srv \<and> fifo_fd srv' = fifo_fd srv
     \<and> ipc_path srv' = ipc_path srv \<and> (alive H srv \<longrightarrow> alive H srv') \<and> (tidy H srv \<longrightarrow> tidy H srv')"

lemma steady_refl [simp]: "steady H srv srv"
  by (simp add: steady_def)

lemma steady_trans: "steady H a b \<Longrightarrow> steady H b c \<Longrightarrow> steady H a c"
  by (simp add: steady_def)

lemma steady_clients [simp]:
  "steady H srv (srv\<lparr>client_index := cs\<rparr>)" "steady H srv (srv\<lparr>producer_topics := ps\<rparr>)"
  "steady H srv (set_client H srv c m)"
  by (simp_all add: steady_def alive_def tidy_def get_topic_def set_client_def)

lemma steady_set_topic:
  assumes "tables_ok H srv" and "get_topic H srv name = Some t"
    and "topic_stop t' = topic_stop t" and "topic_worker t' = topic_worker t"
  shows "steady H srv (set_topic H srv name t')"
  using set_topic_correct(1) [OF assms(1), of name t'] assms(2-4)
  by (auto simp: steady_def alive_def tidy_def) (auto simp: set_topic_def)

lemma create_topic_correct:
  assumes inv: "server_inv H srv" and valid: "is_valid_identifier name"
  shows "fst (create_topic H srv name) \<longleftrightarrow> get_topic H srv name = None"
    and "get_topic H (snd (create_topic H srv name)) = (if get_topic H srv name = None
      then (get_topic H srv)(name \<mapsto> Topic_new name) else get_topic H srv)"
    and "client_of H (snd (create_topic H srv name)) = client_of H srv"
    and "producer_of H (snd (create_topic H srv name)) = producer_of H srv"
    and "server_inv H (snd (create_topic H srv name))"
    and "steady H srv (snd (create_topic H srv name))"
proof -
  note ok = server_invD(1) [OF inv]
  then have hm: "hm_inv (hash_string H) (topics srv)" by (simp add: tables_ok_def)
  let ?ts = "snd (HashMap_subscript (hash_string H) None (topics srv) name)"
  let ?ts' = "snd (HashMap_replace (hash_string H) ?ts name (Some (Topic_new name)))"
  have eq: "create_topic H srv name = (if get_topic H srv name = None
      then (True, srv\<lparr>topics := ?ts'\<rparr>) else (False, srv))"
    by (simp add: create_topic_def HashMap_contains_def find_topic [OF ok] split: prod.split)
  show "fst (create_topic H srv name) \<longleftrightarrow> get_topic H srv name = None" by (simp add: eq)
  note ts = subscript_correct [OF hm, of None name]
  note ts' = replace_correct [OF ts(1), of name "Some (Topic_new name)"]
  have find: "HashMap_find (hash_string H) ?ts' = (HashMap_find (hash_string H) (topics srv))
      (name \<mapsto> Some (Topic_new name))" if "get_topic H srv name = None"
    using that ts(3) ts'(3) find_topic [OF ok, of name] by simp
  note written = topics_write [OF ok ts'(1) find]
  have "consistent H ((get_topic H srv)(name \<mapsto> Topic_new name)) (client_of H srv) (producer_of H srv)"
    using server_invD(2) [OF inv] valid
    by (intro consistent_topic) (auto simp: topic_entry_ok_def topic_inv_new)
  with written inv show "get_topic H (snd (create_topic H srv name)) = (if get_topic H srv name = None
      then (get_topic H srv)(name \<mapsto> Topic_new name) else get_topic H srv)"
    and "client_of H (snd (create_topic H srv name)) = client_of H srv"
    and "producer_of H (snd (create_topic H srv name)) = producer_of H srv"
    and "server_inv H (snd (create_topic H srv name))"
    and "steady H srv (snd (create_topic H srv name))"
    by (simp_all add: eq server_inv_def steady_def alive_def tidy_def)
qed

section \<open>The handlers, request by request\<close>

text \<open>
  What the topics hold, as far as producers are concerned: the keys and values in the order of
  their offsets.
\<close>

definition topic_log :: "topic \<Rightarrow> (string \<times> string) list" where
  "topic_log t = map (\<lambda>m. (msg_key m, msg_value m)) (topic_messages t)"

definition logs :: "hashes \<Rightarrow> server \<Rightarrow> string \<rightharpoonup> (string \<times> string) list" where
  "logs H srv name = map_option topic_log (get_topic H srv name)"

lemma topic_log_new [simp]: "topic_log (Topic_new name) = []"
  by (simp add: topic_log_def Topic_new_def)

lemma topic_log_append [simp]: "topic_log (Topic_append_message t k v) = topic_log t @ [(k, v)]"
  by (simp add: topic_log_def Topic_append_message_def Let_def)

lemma topic_log_same: "same_topic t t' \<Longrightarrow> topic_log t' = topic_log t"
  by (simp add: same_topic_def topic_log_def)

lemma logs_upd: "get_topic H srv' = (get_topic H srv)(name \<mapsto> t) \<Longrightarrow>
    logs H srv' = (logs H srv)(name \<mapsto> topic_log t)"
  by (rule ext) (simp add: logs_def)

lemma handle_create_correct:
  assumes inv: "server_inv H srv" and parsed: "parse_create payload len = Some (Parsed (pid, name))"
  shows "\<exists>srv'. handle_create H os (srv, io) payload len = Some (srv', send_response os pid
        (if \<not> is_valid_identifier name then GENERAL_ERROR
         else if get_topic H srv name = None then SUCCESS else TOPIC_CLIENT_ERR) '''' io)
    \<and> server_inv H srv' \<and> steady H srv srv' \<and> client_of H srv' = client_of H srv \<and> producer_of H srv' = producer_of H srv
    \<and> get_topic H srv' = (if is_valid_identifier name \<and> get_topic H srv name = None
        then (get_topic H srv)(name \<mapsto> Topic_new name) else get_topic H srv)"
proof (cases "is_valid_identifier name")
  case True
  obtain created srv' where c: "create_topic H srv name = (created, srv')" by fastforce
  from create_topic_correct [OF inv True] c parsed True show ?thesis
    by (auto simp: handle_create_def)
next
  case False
  with assms show ?thesis by (auto simp: handle_create_def)
qed

text \<open>The answer to \<^verbatim>\<open>list\<close>: the names with commas between them.\<close>

fun comma_separated :: "string list \<Rightarrow> string" where
  "comma_separated [] = ''''"
| "comma_separated [name] = name"
| "comma_separated (name # names) = name @ '','' @ comma_separated names"

lemma join_names_spec: "join_names True '''' names = comma_separated names"
proof -
  have later: "join_names False result names = result @ concat (map (\<lambda>name. '','' @ name) names)" for result names
    by (induction names arbitrary: result) simp_all
  have whole: "comma_separated (name # names) = name @ concat (map (\<lambda>name. '','' @ name) names)" for name names
    by (induction names arbitrary: name) simp_all
  show ?thesis
  proof (cases names)
    case (Cons name ns)
    with later [of name ns] whole [of name ns] show ?thesis by simp
  qed simp
qed

lemma topic_names:
  assumes "server_inv H srv"
  shows "set (map fst (HashMap_entries (topics srv))) = dom (get_topic H srv)"
    and "distinct (map fst (HashMap_entries (topics srv)))"
proof -
  have ok: "tables_ok H srv" using server_invD(1) [OF assms] .
  then have hm: "hm_inv (hash_string H) (topics srv)" by (simp add: tables_ok_def)
  show "set (map fst (HashMap_entries (topics srv))) = dom (get_topic H srv)"
    using hm.keys_entries [OF hm] by (auto simp: dom_def find_topic [OF ok])
  show "distinct (map fst (HashMap_entries (topics srv)))" by (rule hm.distinct_entries [OF hm])
qed

lemma handle_list_correct:
  assumes "parse_list payload len = Some (Parsed pid)"
  shows "handle_list os (srv, io) payload len = Some (srv, send_response os pid SUCCESS
    (join_names True '''' (map fst (HashMap_entries (topics srv)))) io)"
  using assms by (simp add: handle_list_def iterate_entries)

lemma handle_info_correct:
  assumes "parse_info payload len = Some (Parsed (pid, c))"
  shows "handle_info H os (srv, io) payload len = Some (srv, (case client_of H srv c of
      None \<Rightarrow> send_response os pid TOPIC_CLIENT_ERR '''' io
    | Some m \<Rightarrow> send_response os pid SUCCESS (client_json m) io))"
  using assms by (simp add: handle_info_def client_of_def split: option.split)

lemma producers_write:
  assumes inv: "server_inv H srv" and known: "get_topic H srv name \<noteq> None"
    and assign: "HashMap_insert_or_assign (hash_uint32 H) (producer_topics srv) pid name = (b, ps)"
  shows "server_inv H (srv\<lparr>producer_topics := ps\<rparr>)" and "get_topic H (srv\<lparr>producer_topics := ps\<rparr>) = get_topic H srv"
    and "client_of H (srv\<lparr>producer_topics := ps\<rparr>) = client_of H srv"
    and "producer_of H (srv\<lparr>producer_topics := ps\<rparr>) = (producer_of H srv)(pid \<mapsto> name)"
proof -
  have hm: "hm_inv (hash_uint32 H) (producer_topics srv)"
    using server_invD(1) [OF inv] by (simp add: tables_ok_def)
  note assign = insert_or_assign_correct [OF hm, of pid name, unfolded assign snd_conv]
  show maps: "get_topic H (srv\<lparr>producer_topics := ps\<rparr>) = get_topic H srv"
    "client_of H (srv\<lparr>producer_topics := ps\<rparr>) = client_of H srv"
    "producer_of H (srv\<lparr>producer_topics := ps\<rparr>) = (producer_of H srv)(pid \<mapsto> name)"
    using assign(3) by (simp_all add: get_topic_def client_of_def producer_of_def fun_eq_iff)
  have "tables_ok H (srv\<lparr>producer_topics := ps\<rparr>)" using server_invD(1) [OF inv] assign(1) by (simp add: tables_ok_def)
  moreover have "consistent H (get_topic H srv) (client_of H srv) ((producer_of H srv)(pid \<mapsto> name))"
    using server_invD(2) [OF inv] known by (auto simp: consistent_def)
  ultimately show "server_inv H (srv\<lparr>producer_topics := ps\<rparr>)" by (simp add: server_inv_def maps)
qed

lemma handle_producer_connect_correct:
  assumes inv: "server_inv H srv" and "parse_connect payload len = Some (Parsed (pid, name))"
  shows "\<exists>srv'. handle_producer_connect H os (srv, io) payload len = Some (srv', send_response os pid
        (if get_topic H srv name = None then TOPIC_CLIENT_ERR else SUCCESS) '''' io)
    \<and> server_inv H srv' \<and> steady H srv srv' \<and> get_topic H srv' = get_topic H srv \<and> client_of H srv' = client_of H srv
    \<and> producer_of H srv' = (if get_topic H srv name = None then producer_of H srv
        else (producer_of H srv)(pid \<mapsto> name))"
proof (cases "get_topic H srv name = None")
  case True
  with assms show ?thesis by (auto simp: handle_producer_connect_def)
next
  case False
  obtain b ps where ps: "HashMap_insert_or_assign (hash_uint32 H) (producer_topics srv) pid name = (b, ps)" by fastforce
  from producers_write [OF inv False ps] False assms(2) ps show ?thesis
    by (auto simp: handle_producer_connect_def)
qed

lemma topic_append_fields [simp]:
  "topic_name (Topic_append_message t k v) = topic_name t"
  "topic_stop (Topic_append_message t k v) = topic_stop t"
  "topic_worker (Topic_append_message t k v) = topic_worker t"
  "topic_subs (Topic_append_message t k v) = topic_subs t"
  by (simp_all add: Topic_append_message_def Let_def)

lemma consistent_appended:
  assumes "consistent H T C P" and "T name = Some t"
  shows "consistent H (T(name \<mapsto> Topic_append_message t k v)) C P"
  using consistentD [OF assms(1)] assms
  by (intro consistent_topic [OF assms(1)]) (auto simp: topic_entry_ok_def intro: topic_inv_append)

lemma handle_publish_correct:
  assumes inv: "server_inv H srv" and "parse_produce payload len = Some (Parsed (name, k, v))"
  shows "\<exists>srv'. handle_publish H (srv, io) payload len = Some (srv', io) \<and> server_inv H srv' \<and> steady H srv srv'
    \<and> client_of H srv' = client_of H srv \<and> producer_of H srv' = producer_of H srv
    \<and> get_topic H srv' = (case get_topic H srv name of None \<Rightarrow> get_topic H srv
        | Some t \<Rightarrow> (get_topic H srv)(name \<mapsto> Topic_append_message t k v))"
proof (cases "get_topic H srv name")
  case None
  with assms show ?thesis by (auto simp: handle_publish_def)
next
  case (Some t)
  note ok = server_invD(1) [OF inv] and cons = server_invD(2) [OF inv]
  have "name \<noteq> []" using consistentD(3) [OF cons Some] by (auto simp: is_valid_identifier_def)
  moreover have "consistent H ((get_topic H srv)(name \<mapsto> Topic_append_message t k v))
      (client_of H srv) (producer_of H srv)" by (rule consistent_appended [OF cons Some])
  moreover note set_topic_correct [OF ok, of name "Topic_append_message t k v"]
  moreover have "steady H srv (set_topic H srv name (Topic_append_message t k v))"
    by (rule steady_set_topic [OF ok Some]) simp_all
  ultimately show ?thesis using Some assms(2) by (simp add: handle_publish_def server_inv_def)
qed

lemma commit_write:
  fixes n :: u32
  assumes inv: "server_inv H srv" and client: "client_of H srv c = Some m"
  defines "srv' \<equiv> set_client H srv c (m\<lparr>meta_offset := n\<rparr>)"
  shows "server_inv H srv'" and "get_topic H srv' = get_topic H srv"
    and "client_of H srv' = (client_of H srv)(c \<mapsto> m\<lparr>meta_offset := n\<rparr>)" and "producer_of H srv' = producer_of H srv"
proof -
  note ok = server_invD(1) [OF inv] and cons = server_invD(2) [OF inv]
  have "consistent H (get_topic H srv) ((client_of H srv)(c \<mapsto> m\<lparr>meta_offset := n\<rparr>)) (producer_of H srv)"
  proof (rule consistent_client [OF cons])
    show "client_entry_ok c (m\<lparr>meta_offset := n\<rparr>)"
      using consistentD(8) [OF cons client] by (simp add: client_entry_ok_def)
    show "get_topic H srv (meta_topic (m\<lparr>meta_offset := n\<rparr>)) \<noteq> None"
      using consistentD(5) [OF cons client] by simp
    show "sub_matches name sub (m\<lparr>meta_offset := n\<rparr>)"
      if "get_topic H srv name = Some t" "find_sub H t c = Some sub" for name t sub
      using consistentD(7) [OF cons that] client by (auto simp: sub_matches_def)
  qed
  moreover have "client_of H srv c \<noteq> None" using client by simp
  note w = set_client_correct [OF ok this, of "m\<lparr>meta_offset := n\<rparr>", folded srv'_def]
  ultimately show "server_inv H srv'" by (simp add: server_inv_def w)
  show "get_topic H srv' = get_topic H srv" "client_of H srv' = (client_of H srv)(c \<mapsto> m\<lparr>meta_offset := n\<rparr>)"
    "producer_of H srv' = producer_of H srv" by (fact w)+
qed

lemma handle_commit_correct:
  assumes inv: "server_inv H srv" and "parse_ack payload len = Some (Parsed (c, n))"
  shows "\<exists>srv'. handle_commit H (srv, io) payload len = Some (srv', io) \<and> server_inv H srv' \<and> steady H srv srv'
    \<and> get_topic H srv' = get_topic H srv \<and> producer_of H srv' = producer_of H srv
    \<and> client_of H srv' = (case client_of H srv c of None \<Rightarrow> client_of H srv
        | Some m \<Rightarrow> (client_of H srv)(c \<mapsto> m\<lparr>meta_offset := n\<rparr>))"
proof (cases "client_of H srv c")
  case None
  with assms show ?thesis by (auto simp: handle_commit_def client_of_def)
next
  case (Some m)
  from commit_write [OF inv Some, where n = n] Some assms(2) show ?thesis
    by (simp add: handle_commit_def) (simp add: client_of_def)
qed

text \<open>
  \<^verbatim>\<open>handle_subscriber_connect\<close>: what the server answers, and the record and the registration it
  makes. \<open>subscribe_offset\<close> is where the delivery starts.
\<close>

definition subscribe_offset :: "client_metadata option \<Rightarrow> u32 \<Rightarrow> u32" where
  "subscribe_offset meta req =
     (if req \<noteq> OFFSET_UNSET then req else case meta of Some m \<Rightarrow> meta_offset m | None \<Rightarrow> 0)"

definition is_duplicate :: "os \<Rightarrow> client_metadata option \<Rightarrow> io_log \<Rightarrow> bool" where
  "is_duplicate os meta io = (case meta of None \<Rightarrow> False
     | Some m \<Rightarrow> meta_is_active m \<and> fst (is_reader_active os (meta_ipc_path m) io))"

lemma handle_subscribe_refused:
  assumes inv: "server_inv H srv"
    and parsed: "parse_subscribe payload len = Some (Parsed (pid, c, name, p, req))"
    and refused: "\<not> is_valid_identifier c \<or> \<not> is_valid_identifier name \<or> get_topic H srv name = None
      \<or> is_duplicate os (client_of H srv c) io"
  shows "\<exists>io'. quiet io io' \<and> handle_subscriber_connect H os (srv, io) payload len = Some (srv, send_response os pid
    (if is_valid_identifier c \<and> is_valid_identifier name then TOPIC_CLIENT_ERR else GENERAL_ERROR) '''' io')"
proof (cases "is_valid_identifier c \<and> is_valid_identifier name \<and> get_topic H srv name \<noteq> None")
  case True
  with refused have dup: "is_duplicate os (client_of H srv c) io" by auto
  then obtain m where m: "client_of H srv c = Some m" "meta_is_active m"
    "fst (is_reader_active os (meta_ipc_path m) io)"
    by (auto simp: is_duplicate_def split: option.splits)
  then obtain io' where probe: "is_reader_active os (meta_ipc_path m) io = (True, io')"
    by (metis (full_types) prod.collapse)
  then have "quiet io io'" by (rule is_reader_active_quiet)
  with probe True m parsed show ?thesis
    by (auto simp: handle_subscriber_connect_def find_topic [OF server_invD(1) [OF inv]] client_of_def)
next
  case False
  with parsed show ?thesis
    by (auto simp: handle_subscriber_connect_def find_topic [OF server_invD(1) [OF inv]])
qed

lemma handle_subscribe_accepted:
  assumes inv: "server_inv H srv"
    and parsed: "parse_subscribe payload len = Some (Parsed (pid, c, name, p, req))"
    and valid: "is_valid_identifier c" "is_valid_identifier name"
    and topic: "get_topic H srv name = Some t" and "\<not> is_duplicate os (client_of H srv c) io"
  defines "offset \<equiv> subscribe_offset (client_of H srv c) req"
  shows "\<exists>srv' io1 io2 b t'. handle_subscriber_connect H os (srv, io) payload len = Some (srv', io2)
    \<and> quiet io io1 \<and> ((\<forall>m. client_of H srv c = Some m \<longrightarrow> \<not> meta_is_active m) \<longrightarrow> io1 = io)
    \<and> Topic_add_subscriber H os t c p (client_fifo_path pid) offset
        (send_response os pid SUCCESS '''' io1) = Some (b, t', io2)
    \<and> server_inv H srv' \<and> steady H srv srv' \<and> get_topic H srv' = (get_topic H srv)(name \<mapsto> t')
    \<and> producer_of H srv' = producer_of H srv
    \<and> client_of H srv' = (client_of H srv)(c \<mapsto> \<lparr>meta_client_id = c, meta_topic = name,
        meta_offset = offset, meta_prefix = p, meta_ipc_path = client_fifo_path pid, meta_is_active = True\<rparr>)"
proof -
  note ok = server_invD(1) [OF inv] and cons = server_invD(2) [OF inv]
  let ?m = "\<lparr>meta_client_id = c, meta_topic = name, meta_offset = offset, meta_prefix = p,
      meta_ipc_path = client_fifo_path pid, meta_is_active = True\<rparr>"
  have "\<exists>io1. (case client_of H srv c of None \<Rightarrow> (False, io)
      | Some m \<Rightarrow> if meta_is_active m then is_reader_active os (meta_ipc_path m) io else (False, io))
      = (False, io1) \<and> quiet io io1 \<and> ((\<forall>m. client_of H srv c = Some m \<longrightarrow> \<not> meta_is_active m) \<longrightarrow> io1 = io)"
    using assms(6)
    by (cases "client_of H srv c"; cases "is_reader_active os (meta_ipc_path (the (client_of H srv c))) io")
      (auto simp: is_duplicate_def dest: is_reader_active_quiet)
  then obtain io1 where probe: "(case client_of H srv c of None \<Rightarrow> (False, io)
      | Some m \<Rightarrow> if meta_is_active m then is_reader_active os (meta_ipc_path m) io else (False, io))
      = (False, io1)" and "quiet io io1"
    and exact: "(\<forall>m. client_of H srv c = Some m \<longrightarrow> \<not> meta_is_active m) \<longrightarrow> io1 = io" by blast
  have hm: "hm_inv (hash_string H) (client_index srv)" using ok by (simp add: tables_ok_def)
  let ?srv1 = "srv\<lparr>client_index := snd (HashMap_insert_or_assign (hash_string H) (client_index srv) c ?m)\<rparr>"
  note w1 = clients_write [OF ok insert_or_assign_correct(1,3) [OF hm, of c ?m, folded client_of_def]]
  from consistentD(1) [OF cons topic] obtain b t' io2
    where add: "Topic_add_subscriber H os t c p (client_fifo_path pid) offset
        (send_response os pid SUCCESS '''' io1) = Some (b, t', io2)"
      and inv': "topic_inv H t'" and same: "same_topic t t'"
      and subs: "if b then \<exists>fd. fd \<noteq> - 1 \<and> find_sub H t' = (find_sub H t)(c \<mapsto> \<lparr>sub_client_id = c,
             sub_prefix = p, sub_fifo_path = client_fifo_path pid, sub_fifo_fd = fd, sub_next_offset = offset\<rparr>)
          else find_sub H t' = (find_sub H t)(c := None)"
    using Topic_add_subscriber_correct by blast
  have "get_topic H ?srv1 name \<noteq> None" using topic by (simp add: w1(2))
  note w2 = set_topic_correct [OF w1(4) this, of t']
  have "consistent H ((get_topic H srv)(name \<mapsto> t')) ((client_of H srv)(c \<mapsto> ?m)) (producer_of H srv)"
    by (rule consistent_registered [OF cons topic inv' same valid(1) subs])
  then have "server_inv H (set_topic H ?srv1 name t')"
    using w2 w1 by (simp add: server_inv_def)
  moreover have "handle_subscriber_connect H os (srv, io) payload len
      = Some (set_topic H ?srv1 name t', io2)"
    using parsed valid add probe
    by (simp add: handle_subscriber_connect_def find_topic [OF ok] topic Let_def
        flip: client_of_def subscribe_offset_def offset_def)
  moreover have "steady H srv (set_topic H ?srv1 name t')"
    using topic same by (intro steady_trans [OF steady_clients(1) steady_set_topic [OF w1(4)]])
      (auto simp: w1(2) same_topic_def)
  ultimately show ?thesis using add w1 w2 \<open>quiet io io1\<close> exact by auto
qed

lemma handle_disconnect_correct:
  assumes inv: "server_inv H srv" and parsed: "parse_disconnect payload len = Some (Parsed c)"
  shows "\<exists>srv' io'. handle_disconnect H (srv, io) payload len = Some (srv', io') \<and> quiet io io' \<and> server_inv H srv' \<and> steady H srv srv'
    \<and> logs H srv' = logs H srv \<and> producer_of H srv' = producer_of H srv
    \<and> client_of H srv' = (case client_of H srv c of None \<Rightarrow> client_of H srv
        | Some m \<Rightarrow> (client_of H srv)(c \<mapsto> m\<lparr>meta_is_active := False\<rparr>))
    \<and> (\<forall>m t. client_of H srv c = Some m \<longrightarrow> get_topic H srv' (meta_topic m) = Some t
        \<longrightarrow> find_sub H t c = None)"
proof (cases "client_of H srv c")
  case None
  with assms show ?thesis by (auto simp: handle_disconnect_def client_of_def)
next
  case (Some m)
  note ok = server_invD(1) [OF inv] and cons = server_invD(2) [OF inv]
  let ?m = "m\<lparr>meta_is_active := False\<rparr>"
  obtain t where topic: "get_topic H srv (meta_topic m) = Some t"
    using consistentD(5) [OF cons Some] by auto
  from consistentD(1) [OF cons topic] obtain b t' io'
    where rem: "Topic_remove_subscriber H t c io = Some (b, t', io')"
      and inv': "topic_inv H t'" and same: "same_topic t t'"
      and subs: "find_sub H t' = (find_sub H t)(c := None)"
    using Topic_remove_subscriber_correct by blast
  let ?srv1 = "set_client H srv c ?m"
  note w1 = set_client_correct [OF ok, of c ?m]
  have "client_of H srv c \<noteq> None" using Some by simp
  note w1 = w1 [OF this]
  have "get_topic H ?srv1 (meta_topic m) \<noteq> None" using topic by (simp add: w1(2))
  note w2 = set_topic_correct [OF w1(4) this, of t']
  have "consistent H ((get_topic H srv)(meta_topic m \<mapsto> t')) ((client_of H srv)(c \<mapsto> ?m)) (producer_of H srv)"
    by (rule consistent_unregistered [OF cons Some topic inv' same subs])
  then have inv2: "server_inv H (set_topic H ?srv1 (meta_topic m) t')"
    using w2 w1 by (simp add: server_inv_def)
  have "logs H (set_topic H ?srv1 (meta_topic m) t') = logs H srv"
    using topic topic_log_same [OF same] w2(1) w1(2) by (auto simp: logs_def fun_eq_iff)
  moreover have "handle_disconnect H (srv, io) payload len = Some (set_topic H ?srv1 (meta_topic m) t', io')"
    using Some topic by (simp add: handle_disconnect_def parsed rem client_of_def find_topic [OF w1(4)] w1(2))
  moreover have "steady H srv (set_topic H ?srv1 (meta_topic m) t')"
    using topic same by (intro steady_trans [OF steady_clients(3) steady_set_topic [OF w1(4)]])
      (auto simp: w1(2) same_topic_def)
  ultimately show ?thesis using inv2 w1 w2 subs Some Topic_remove_subscriber_quiet [OF rem] by (auto split: if_splits)
qed

end
