(* ===== verification/Broker.thy ===== *)
theory Broker
  imports Server_Correct
begin

text \<open>
  The server as a whole. Its handlers meet the contract of the reassembly loop (the locale
  \<open>frame_handler\<close>), so a stream of requests has the same effect however the reads cut it; on the
  logs of the topics this effect is \<open>log_step\<close>, and on the logs, the clients and the producers it
  is the abstract broker \<open>broker_step\<close>, which answers with \<open>broker_reply\<close>. The second part is the
  system of requests, workers' turns and shutdowns as whole steps, with its invariant; \<open>Threads\<close>
  refines it.
\<close>

section \<open>The effect of a request on the logs\<close>

datatype request =
    Req_create u32 string
  | Req_list u32
  | Req_info u32 string
  | Req_connect u32 string
  | Req_publish string string string
  | Req_subscribe u32 string string string u32
  | Req_commit string u32
  | Req_disconnect string

fun log_step :: "request \<Rightarrow> (string \<rightharpoonup> (string \<times> string) list) \<Rightarrow> string \<rightharpoonup> (string \<times> string) list" where
  "log_step (Req_create pid name) L =
     (if is_valid_identifier name \<and> L name = None then L(name \<mapsto> []) else L)"
| "log_step (Req_publish name k v) L =
     (case L name of None \<Rightarrow> L | Some l \<Rightarrow> L(name \<mapsto> l @ [(k, v)]))"
| "log_step _ L = L"

text \<open>
  The whole state that the requests work on, and the whole effect of a request. Whether the FIFO of
  a client that is recorded as active has a reader is decided by the system: the parameter \<open>busy\<close>.
\<close>

record broker =
  ab_logs :: "string \<rightharpoonup> (string \<times> string) list"
  ab_clients :: "string \<rightharpoonup> client_metadata"
  ab_producers :: "u32 \<rightharpoonup> string"

definition view :: "hashes \<Rightarrow> server \<Rightarrow> broker" where
  "view H srv = \<lparr>ab_logs = logs H srv, ab_clients = client_of H srv, ab_producers = producer_of H srv\<rparr>"

definition accepts :: "bool \<Rightarrow> broker \<Rightarrow> string \<Rightarrow> string \<Rightarrow> bool" where
  "accepts busy B c name \<longleftrightarrow> is_valid_identifier c \<and> is_valid_identifier name \<and> ab_logs B name \<noteq> None
     \<and> \<not> (busy \<and> (\<exists>m. ab_clients B c = Some m \<and> meta_is_active m))"

fun broker_step :: "bool \<Rightarrow> request \<Rightarrow> broker \<Rightarrow> broker" where
  "broker_step busy (Req_connect pid name) B =
     (if ab_logs B name = None then B else B\<lparr>ab_producers := (ab_producers B)(pid \<mapsto> name)\<rparr>)"
| "broker_step busy (Req_subscribe pid c name p req) B =
     (if accepts busy B c name
      then B\<lparr>ab_clients := (ab_clients B)(c \<mapsto> \<lparr>meta_client_id = c, meta_topic = name,
             meta_offset = subscribe_offset (ab_clients B c) req, meta_prefix = p,
             meta_ipc_path = client_fifo_path pid, meta_is_active = True\<rparr>)\<rparr>
      else B)"
| "broker_step busy (Req_commit c n) B = (case ab_clients B c of None \<Rightarrow> B
     | Some m \<Rightarrow> B\<lparr>ab_clients := (ab_clients B)(c \<mapsto> m\<lparr>meta_offset := n\<rparr>)\<rparr>)"
| "broker_step busy (Req_disconnect c) B = (case ab_clients B c of None \<Rightarrow> B
     | Some m \<Rightarrow> B\<lparr>ab_clients := (ab_clients B)(c \<mapsto> m\<lparr>meta_is_active := False\<rparr>)\<rparr>)"
| "broker_step busy r B = B\<lparr>ab_logs := log_step r (ab_logs B)\<rparr>"

abbreviation broker_run :: "bool list \<Rightarrow> request list \<Rightarrow> broker \<Rightarrow> broker" where
  "broker_run busy rs B \<equiv> fold (\<lambda>(b, r). broker_step b r) (zip busy rs) B"

lemma logs_broker_step: "ab_logs (broker_step busy r B) = log_step r (ab_logs B)"
  by (cases r) (simp_all split: option.split)

lemma logs_broker_run: "length busy = length rs \<Longrightarrow> ab_logs (broker_run busy rs B) = fold log_step rs (ab_logs B)"
  by (induction busy rs arbitrary: B rule: list_induct2) (simp_all add: logs_broker_step)

text \<open>
  What the broker replies: the client, the status, and the payload, which for a list of the topics is
  their names in an order of the system's choice. Publications, commits and disconnections have no
  reply.
\<close>

datatype reply_text = Plain string | Topic_names

type_synonym reply = "u32 \<times> status_code \<times> reply_text"

fun broker_reply :: "bool \<Rightarrow> request \<Rightarrow> broker \<Rightarrow> reply option" where
  "broker_reply busy (Req_create pid name) B = Some (pid,
     if \<not> is_valid_identifier name then GENERAL_ERROR else if ab_logs B name = None then SUCCESS else TOPIC_CLIENT_ERR,
     Plain '''')"
| "broker_reply busy (Req_list pid) B = Some (pid, SUCCESS, Topic_names)"
| "broker_reply busy (Req_info pid c) B = Some (case ab_clients B c of
     None \<Rightarrow> (pid, TOPIC_CLIENT_ERR, Plain '''') | Some m \<Rightarrow> (pid, SUCCESS, Plain (client_json m)))"
| "broker_reply busy (Req_connect pid name) B =
     Some (pid, if ab_logs B name = None then TOPIC_CLIENT_ERR else SUCCESS, Plain '''')"
| "broker_reply busy (Req_subscribe pid c name p n) B = Some (pid,
     if accepts busy B c name then SUCCESS
     else if is_valid_identifier c \<and> is_valid_identifier name then TOPIC_CLIENT_ERR else GENERAL_ERROR, Plain '''')"
| "broker_reply busy r B = None"

fun says :: "broker \<Rightarrow> reply_text \<Rightarrow> string \<Rightarrow> bool" where
  "says B (Plain s) payload \<longleftrightarrow> payload = s"
| "says B Topic_names payload \<longleftrightarrow>
     (\<exists>names. distinct names \<and> set names = dom (ab_logs B) \<and> payload = comma_separated names)"

text \<open>The log of system calls of a reply: it is sent, and nothing else is written to any FIFO.\<close>

fun replied :: "os \<Rightarrow> broker \<Rightarrow> reply option \<Rightarrow> io_log \<Rightarrow> io_log \<Rightarrow> bool" where
  "replied os B None io io' \<longleftrightarrow> quiet io io'"
| "replied os B (Some (pid, status, txt)) io io' \<longleftrightarrow>
     (\<exists>io1 payload. quiet io io1 \<and> says B txt payload \<and> quiet (send_response os pid status payload io1) io')"

fun replied_all :: "os \<Rightarrow> bool list \<Rightarrow> request list \<Rightarrow> broker \<Rightarrow> io_log \<Rightarrow> io_log \<Rightarrow> bool" where
  "replied_all os (busy # bs) (r # rs) B io io' \<longleftrightarrow>
     (\<exists>io1. replied os B (broker_reply busy r B) io io1 \<and> replied_all os bs rs (broker_step busy r B) io1 io')"
| "replied_all os [] [] B io io' \<longleftrightarrow> io' = io"
| "replied_all os _ _ B io io' \<longleftrightarrow> False"

text \<open>
  A handler's answer to a request: it succeeds, keeps the invariant, and its effect on the server and
  the reply that it sends are those of the request on the broker.
\<close>

definition answers :: "hashes \<Rightarrow> os \<Rightarrow> server_state \<Rightarrow> server_state option \<Rightarrow> request \<Rightarrow> bool" where
  "answers H os s res r \<longleftrightarrow> (\<exists>srv' io' busy. res = Some (srv', io') \<and> server_inv H srv' \<and> steady H (fst s) srv'
     \<and> view H srv' = broker_step busy r (view H (fst s))
     \<and> replied os (view H (fst s)) (broker_reply busy r (view H (fst s))) (snd s) io')"

lemma answersI:
  assumes "res = Some (srv', io')" and "server_inv H srv'" and "steady H srv srv'"
    and "view H srv' = broker_step busy r (view H srv)" and "replied os (view H srv) (broker_reply busy r (view H srv)) io io'"
  shows "answers H os (srv, io) res r"
  using assms unfolding answers_def fst_conv snd_conv by blast

lemma answersE:
  assumes "answers H os s res r"
  obtains srv' io' busy where "res = Some (srv', io')" "server_inv H srv'" "steady H (fst s) srv'"
    "view H srv' = broker_step busy r (view H (fst s))" "logs H srv' = log_step r (logs H (fst s))"
    "replied os (view H (fst s)) (broker_reply busy r (view H (fst s))) (snd s) io'"
  using assms logs_broker_step [of _ r "view H (fst s)"] unfolding answers_def view_def by (metis broker.select_convs(1))

lemma replied_sent: "says B txt payload \<Longrightarrow> replied os B (Some (pid, st, txt)) io (send_response os pid st payload io)"
  by auto

lemma logs_same: "get_topic H srv' = get_topic H srv \<Longrightarrow> logs H srv' = logs H srv"
  by (simp add: logs_def fun_eq_iff)

lemma logs_None: "logs H srv name = None \<longleftrightarrow> get_topic H srv name = None"
  by (simp add: logs_def)

lemma create_answers:
  assumes "server_inv H srv" and "parse_create payload len = Some (Parsed (pid, name))"
  shows "answers H os (srv, io) (handle_create H os (srv, io) payload len) (Req_create pid name)"
proof -
  let ?st = "if \<not> is_valid_identifier name then GENERAL_ERROR else if get_topic H srv name = None then SUCCESS else TOPIC_CLIENT_ERR"
  from handle_create_correct [OF assms] obtain srv'
    where res: "handle_create H os (srv, io) payload len = Some (srv', send_response os pid ?st '''' io)" "server_inv H srv'"
      "steady H srv srv'" and same: "client_of H srv' = client_of H srv" "producer_of H srv' = producer_of H srv"
      and get: "get_topic H srv' = (if is_valid_identifier name \<and> get_topic H srv name = None
        then (get_topic H srv)(name \<mapsto> Topic_new name) else get_topic H srv)" by blast
  have "logs H srv' = log_step (Req_create pid name) (logs H srv)"
    by (rule ext) (simp add: logs_def get)
  then have "view H srv' = broker_step False (Req_create pid name) (view H srv)" by (simp add: view_def same)
  moreover have "broker_reply False (Req_create pid name) (view H srv) = Some (pid, ?st, Plain '''')"
    by (simp add: view_def logs_None)
  ultimately show ?thesis by (intro answersI [OF res]) (auto simp del: replied.simps intro: replied_sent)
qed

lemma list_answers:
  assumes "server_inv H srv" and "parse_list payload len = Some (Parsed pid)"
  shows "answers H os (srv, io) (handle_list os (srv, io) payload len) (Req_list pid)"
proof (rule answersI [OF handle_list_correct [OF assms(2)] assms(1), where busy = False])
  have "dom (logs H srv) = dom (get_topic H srv)" by (auto simp: logs_def)
  with topic_names [OF assms(1)] have "says (view H srv) Topic_names
      (join_names True '''' (map fst (HashMap_entries (topics srv))))"
    unfolding says.simps join_names_spec view_def broker.select_convs by metis
  then show "replied os (view H srv) (broker_reply False (Req_list pid) (view H srv)) io
      (send_response os pid SUCCESS (join_names True '''' (map fst (HashMap_entries (topics srv)))) io)"
    unfolding broker_reply.simps by (rule replied_sent)
qed simp_all

lemma info_answers:
  assumes "server_inv H srv" and "parse_info payload len = Some (Parsed (pid, c))"
  shows "answers H os (srv, io) (handle_info H os (srv, io) payload len) (Req_info pid c)"
  by (rule answersI [OF handle_info_correct [OF assms(2)] assms(1), where busy = False])
    (auto simp: view_def split: option.split)

lemma connect_answers:
  assumes "server_inv H srv" and "parse_connect payload len = Some (Parsed (pid, name))"
  shows "answers H os (srv, io) (handle_producer_connect H os (srv, io) payload len) (Req_connect pid name)"
proof -
  let ?st = "if get_topic H srv name = None then TOPIC_CLIENT_ERR else SUCCESS"
  from handle_producer_connect_correct [OF assms, of os io] obtain srv'
    where res: "handle_producer_connect H os (srv, io) payload len = Some (srv', send_response os pid ?st '''' io)"
      "server_inv H srv'" "steady H srv srv'"
      and get: "get_topic H srv' = get_topic H srv" "client_of H srv' = client_of H srv"
        "producer_of H srv' = (if get_topic H srv name = None then producer_of H srv else (producer_of H srv)(pid \<mapsto> name))"
    by blast
  then have "view H srv' = broker_step False (Req_connect pid name) (view H srv)"
    by (simp add: view_def logs_None logs_same [OF get(1)])
  moreover have "broker_reply False (Req_connect pid name) (view H srv) = Some (pid, ?st, Plain '''')"
    by (simp add: view_def logs_None)
  ultimately show ?thesis by (intro answersI [OF res]) (auto simp del: replied.simps intro: replied_sent)
qed

lemma publish_answers:
  assumes "server_inv H srv" and "parse_produce payload len = Some (Parsed (name, k, v))"
  shows "answers H os (srv, io) (handle_publish H (srv, io) payload len) (Req_publish name k v)"
proof -
  from handle_publish_correct [OF assms] obtain srv'
    where res: "handle_publish H (srv, io) payload len = Some (srv', io)" "server_inv H srv'" "steady H srv srv'"
      and same: "client_of H srv' = client_of H srv" "producer_of H srv' = producer_of H srv"
      and get: "get_topic H srv' = (case get_topic H srv name of None \<Rightarrow> get_topic H srv
        | Some t \<Rightarrow> (get_topic H srv)(name \<mapsto> Topic_append_message t k v))" by blast
  have "logs H srv' = log_step (Req_publish name k v) (logs H srv)"
    by (rule ext) (simp add: logs_def get split: option.split)
  then show ?thesis by (intro answersI [OF res, where busy = False]) (simp_all add: view_def same)
qed

lemma subscribe_answers:
  assumes inv: "server_inv H srv" and parsed: "parse_subscribe payload len = Some (Parsed (pid, c, name, p, req))"
  shows "answers H os (srv, io) (handle_subscriber_connect H os (srv, io) payload len) (Req_subscribe pid c name p req)"
proof -
  let ?busy = "is_duplicate os (client_of H srv c) io"
  have dup: "?busy \<Longrightarrow> \<exists>m. client_of H srv c = Some m \<and> meta_is_active m"
    by (auto simp: is_duplicate_def split: option.splits)
  show ?thesis
  proof (cases "is_valid_identifier c \<and> is_valid_identifier name \<and> get_topic H srv name \<noteq> None \<and> \<not> ?busy")
    case True
    then obtain t where t: "get_topic H srv name = Some t" by blast
    from handle_subscribe_accepted [OF inv parsed _ _ t] True obtain srv' io1 io2 b t'
      where res: "handle_subscriber_connect H os (srv, io) payload len = Some (srv', io2)" "server_inv H srv'" "steady H srv srv'"
        and quiet: "quiet io io1" and add: "Topic_add_subscriber H os t c p (client_fifo_path pid) (subscribe_offset (client_of H srv c) req)
          (send_response os pid SUCCESS '''' io1) = Some (b, t', io2)"
        and get: "get_topic H srv' = (get_topic H srv)(name \<mapsto> t')" "producer_of H srv' = producer_of H srv"
        and client: "client_of H srv' = (client_of H srv)(c \<mapsto> \<lparr>meta_client_id = c, meta_topic = name,
          meta_offset = subscribe_offset (client_of H srv c) req, meta_prefix = p,
          meta_ipc_path = client_fifo_path pid, meta_is_active = True\<rparr>)" by blast
    have "topic_inv H t" using consistentD(1) [OF server_invD(2) [OF inv] t] .
    from Topic_add_subscriber_correct [OF this] add have "same_topic t t'" by (metis option.inject prod.inject)
    then have "logs H srv' = logs H srv" using t by (auto simp: logs_def get fun_eq_iff topic_log_same)
    moreover have "accepts False (view H srv) c name" using True by (simp add: accepts_def view_def logs_None)
    ultimately have "view H srv' = broker_step False (Req_subscribe pid c name p req) (view H srv)"
      and "broker_reply False (Req_subscribe pid c name p req) (view H srv) = Some (pid, SUCCESS, Plain '''')"
      by (simp_all add: view_def get client)
    with quiet Topic_add_subscriber_quiet [OF add] show ?thesis by (intro answersI [OF res]) auto
  next
    case False
    let ?st = "if is_valid_identifier c \<and> is_valid_identifier name then TOPIC_CLIENT_ERR else GENERAL_ERROR"
    from False have "\<not> is_valid_identifier c \<or> \<not> is_valid_identifier name \<or> get_topic H srv name = None \<or> ?busy" by blast
    from handle_subscribe_refused [OF inv parsed this] obtain io' where "quiet io io'"
      and res: "handle_subscriber_connect H os (srv, io) payload len = Some (srv, send_response os pid ?st '''' io')"
      by (elim exE conjE) (rule that)
    moreover have "\<not> accepts True (view H srv) c name"
      using False dup by (auto simp: accepts_def view_def logs_None)
    ultimately show ?thesis by (intro answersI [OF res inv, where busy = True]) auto
  qed
qed

lemma commit_answers:
  assumes "server_inv H srv" and "parse_ack payload len = Some (Parsed (c, n))"
  shows "answers H os (srv, io) (handle_commit H (srv, io) payload len) (Req_commit c n)"
proof -
  from handle_commit_correct [OF assms, of io] obtain srv'
    where res: "handle_commit H (srv, io) payload len = Some (srv', io)" "server_inv H srv'" "steady H srv srv'"
      and get: "get_topic H srv' = get_topic H srv" "producer_of H srv' = producer_of H srv"
        "client_of H srv' = (case client_of H srv c of None \<Rightarrow> client_of H srv
          | Some m \<Rightarrow> (client_of H srv)(c \<mapsto> m\<lparr>meta_offset := n\<rparr>))" by blast
  then have "view H srv' = broker_step False (Req_commit c n) (view H srv)"
    by (simp add: view_def logs_same [OF get(1)] split: option.split)
  then show ?thesis by (intro answersI [OF res]) simp_all
qed

lemma disconnect_answers:
  assumes "server_inv H srv" and "parse_disconnect payload len = Some (Parsed c)"
  shows "answers H os (srv, io) (handle_disconnect H (srv, io) payload len) (Req_disconnect c)"
proof -
  from handle_disconnect_correct [OF assms, of io] obtain srv' io'
    where res: "handle_disconnect H (srv, io) payload len = Some (srv', io')" "server_inv H srv'" "steady H srv srv'"
      and quiet: "quiet io io'" and get: "logs H srv' = logs H srv" "producer_of H srv' = producer_of H srv"
        "client_of H srv' = (case client_of H srv c of None \<Rightarrow> client_of H srv
          | Some m \<Rightarrow> (client_of H srv)(c \<mapsto> m\<lparr>meta_is_active := False\<rparr>))" by blast
  then have "view H srv' = broker_step False (Req_disconnect c) (view H srv)"
    by (simp add: view_def split: option.split)
  with quiet show ?thesis by (intro answersI [OF res]) simp_all
qed

lemmas request_answers = create_answers list_answers info_answers connect_answers publish_answers
  subscribe_answers commit_answers disconnect_answers

lemmas handler_defs = handle_create_def handle_list_def handle_info_def handle_producer_connect_def
  handle_publish_def handle_subscriber_connect_def handle_commit_def handle_disconnect_def

section \<open>The handlers and the reassembly loop\<close>

text \<open>Whatever the bytes of a frame, the server's answer is that of some request.\<close>

lemma unnamed_topic:
  assumes "server_inv H srv"
  shows "ab_logs (view H srv) '''' = None"
  using consistentD(3) [OF server_invD(2) [OF assms], of "[]"]
  by (cases "get_topic H srv []") (auto simp: is_valid_identifier_def view_def logs_None)

text \<open>A frame that is no request is like a publication to a topic that does not exist.\<close>

lemma ignored_answers: "server_inv H (fst s) \<Longrightarrow> answers H os s (Some s) (Req_publish '''' '''' '''')"
  using unnamed_topic [of H "fst s"] by (cases s) (auto simp: answers_def)

lemma handler_keeps:
  assumes "\<exists>r. parse payload len = Some r" and "server_inv H srv"
    and "parse payload len = Some Rejected \<Longrightarrow> handled = Some (srv, io)"
    and "\<And>x. parse payload len = Some (Parsed x) \<Longrightarrow> \<exists>rq. answers H os (srv, io) handled rq"
  shows "\<exists>rq. answers H os (srv, io) handled rq"
proof -
  from assms(1) obtain r where r: "parse payload len = Some r" by blast
  show ?thesis
  proof (cases r)
    case Rejected
    with assms(2,3) r ignored_answers [of H "(srv, io)" os] show ?thesis by auto
  qed (use assms(4) r in simp)
qed

lemma handle_request_answers:
  assumes inv: "server_inv H (fst s)" and len: "len \<le> length payload"
  shows "\<exists>rq. answers H os s (handle_request H os s act payload len) rq"
proof -
  obtain srv io where s: "s = (srv, io)" by fastforce
  with inv have inv: "server_inv H srv" by simp
  note keeps = handler_keeps [OF _ inv]
  have "\<exists>rq. answers H os s (handle_create H os s payload len) rq"
    unfolding s by (rule keeps [where parse = parse_create, OF create_codec.defined [OF len]])
      (simp add: handle_create_def, auto intro: exI create_answers [OF inv])
  moreover have "\<exists>rq. answers H os s (handle_list os s payload len) rq"
    unfolding s by (rule keeps [where parse = parse_list, OF list_codec.defined [OF len]])
      (simp add: handle_list_def, auto intro: exI list_answers [OF inv])
  moreover have "\<exists>rq. answers H os s (handle_info H os s payload len) rq"
    unfolding s by (rule keeps [where parse = parse_info, OF info_codec.defined [OF len]])
      (simp add: handle_info_def, auto intro: exI info_answers [OF inv])
  moreover have "\<exists>rq. answers H os s (handle_producer_connect H os s payload len) rq"
    unfolding s by (rule keeps [where parse = parse_connect, OF connect_codec.defined [OF len]])
      (simp add: handle_producer_connect_def, auto intro: exI connect_answers [OF inv])
  moreover have "\<exists>rq. answers H os s (handle_publish H s payload len) rq"
    unfolding s by (rule keeps [where parse = parse_produce, OF produce_codec.defined [OF len]])
      (simp add: handle_publish_def, auto intro: exI publish_answers [OF inv])
  moreover have "\<exists>rq. answers H os s (handle_subscriber_connect H os s payload len) rq"
    unfolding s by (rule keeps [where parse = parse_subscribe, OF subscribe_codec.defined [OF len]])
      (simp add: handle_subscriber_connect_def, auto intro: exI subscribe_answers [OF inv])
  moreover have "\<exists>rq. answers H os s (handle_commit H s payload len) rq"
    unfolding s by (rule keeps [where parse = parse_ack, OF ack_codec.defined [OF len]])
      (simp add: handle_commit_def, auto intro: exI commit_answers [OF inv])
  moreover have "\<exists>rq. answers H os s (handle_disconnect H s payload len) rq"
    unfolding s by (rule keeps [where parse = parse_disconnect, OF disconnect_codec.defined [OF len]])
      (simp add: handle_disconnect_def, auto intro: exI disconnect_answers [OF inv])
  moreover have "\<exists>rq. answers H os s (Some s) rq"
    using ignored_answers [of H s os] inv s by auto
  ultimately show ?thesis by (simp add: handle_request_def s)
qed

lemma handle_request_keeps:
  assumes "server_inv H (fst s)" and "len \<le> length payload"
  shows "\<exists>s'. handle_request H os s act payload len = Some s' \<and> server_inv H (fst s')"
  using handle_request_answers [OF assms, of os act] by (auto elim: answersE)

lemma handle_request_local:
  assumes "len \<le> length payload" and "len < 2 ^ 32"
  shows "handle_request H os s act payload len = handle_request H os s act (take len payload) len"
  by (simp add: handle_request_def handler_defs create_codec.parse_local [OF assms]
      list_codec.parse_local [OF assms] info_codec.parse_local [OF assms]
      connect_codec.parse_local [OF assms] produce_codec.parse_local [OF assms]
      subscribe_codec.parse_local [OF assms] ack_codec.parse_local [OF assms]
      disconnect_codec.parse_local [OF assms] cong: if_cong)

lemma handle_request_running:
  assumes "server_inv H (fst s) \<and> running (fst s)" and "len \<le> length payload"
  shows "\<exists>s'. handle_request H os s act payload len = Some s' \<and> server_inv H (fst s') \<and> running (fst s')"
  using handle_request_answers [of H s len payload os act] assms by (auto elim!: answersE simp: steady_def)

interpretation requests: frame_handler "\<lambda>s. server_inv H (fst s)" "handle_request H os" for H os
  by unfold_locales (rule handle_request_keeps handle_request_local; assumption)+

interpretation running_requests: frame_handler "\<lambda>s. server_inv H (fst s) \<and> running (fst s)"
  "handle_request H os" for H os
  by unfold_locales (rule handle_request_running handle_request_local; assumption)+

section \<open>Streams of requests\<close>

text \<open>
  A request as the client serializes it. It fits if it is well-formed for its codec and the whole
  frame is below \<open>2 ^ 32\<close> bytes, so that the sum in the test of the loop does not wrap.
\<close>

fun request_bytes :: "request \<Rightarrow> u8 list" where
  "request_bytes (Req_create pid name) = serialize_create pid name"
| "request_bytes (Req_list pid) = serialize_list pid"
| "request_bytes (Req_info pid c) = serialize_info pid c"
| "request_bytes (Req_connect pid name) = serialize_connect pid name"
| "request_bytes (Req_publish name k v) = serialize_produce name k v"
| "request_bytes (Req_subscribe pid c name p offset) = serialize_subscribe pid c name p offset"
| "request_bytes (Req_commit c n) = serialize_ack c n"
| "request_bytes (Req_disconnect c) = serialize_disconnect c"

fun request_wf :: "request \<Rightarrow> bool" where
  "request_wf (Req_create pid name) = named_ok (pid, name)"
| "request_wf (Req_list pid) = True"
| "request_wf (Req_info pid c) = named_ok (pid, c)"
| "request_wf (Req_connect pid name) = named_ok (pid, name)"
| "request_wf (Req_publish name k v) = produce_ok (name, k, v)"
| "request_wf (Req_subscribe pid c name p offset) = subscribe_ok (pid, c, name, p, offset)"
| "request_wf (Req_commit c n) = ack_ok (c, n)"
| "request_wf (Req_disconnect c) = disconnect_ok c"

definition request_fits :: "request \<Rightarrow> bool" where
  "request_fits r \<longleftrightarrow> request_wf r \<and> length (request_bytes r) < 2 ^ 32"

definition carries :: "request \<Rightarrow> u8 \<times> u8 list \<Rightarrow> bool" where
  "carries r f \<longleftrightarrow> request_bytes r = request_frame f \<and>
     (\<forall>H os s. server_inv H (fst s) \<longrightarrow>
        answers H os s (handle_request H os s (fst f) (snd f) (length (snd f))) r)"

lemma carriesI:
  assumes "request_bytes r = act # u32le (word_of_nat (length payload)) @ payload"
    and "\<And>H os srv io. server_inv H srv \<Longrightarrow>
      answers H os (srv, io) (handle_request H os (srv, io) act payload (length payload)) r"
  shows "\<exists>f. carries r f"
  using assms by (intro exI [of _ "(act, payload)"]) (simp add: carries_def request_frame_def split_paired_all)

lemma request_carried:
  assumes "request_wf r"
  shows "\<exists>f. carries r f"
proof (cases r)
  case (Req_create pid name)
  with assms create_codec.framed [of "(pid, name)"] obtain payload
    where "serialize_create pid name = command_code CREATE # u32le (word_of_nat (length payload)) @ payload"
      "parse_create payload (length payload) = Some (Parsed (pid, name))" by auto
  with Req_create show ?thesis
    by (intro carriesI [of _ 1 payload]) (simp_all add: handle_request_def create_answers)
next
  case (Req_list pid)
  obtain payload
    where "serialize_list pid = command_code LIST # u32le (word_of_nat (length payload)) @ payload"
      "parse_list payload (length payload) = Some (Parsed pid)" by (rule list_codec.framed [OF TrueI])
  with Req_list show ?thesis
    by (intro carriesI [of _ 2 payload]) (simp_all add: handle_request_def list_answers)
next
  case (Req_info pid c)
  with assms info_codec.framed [of "(pid, c)"] obtain payload
    where "serialize_info pid c = command_code INFO # u32le (word_of_nat (length payload)) @ payload"
      "parse_info payload (length payload) = Some (Parsed (pid, c))" by auto
  with Req_info show ?thesis
    by (intro carriesI [of _ 3 payload]) (simp_all add: handle_request_def info_answers)
next
  case (Req_connect pid name)
  with assms connect_codec.framed [of "(pid, name)"] obtain payload
    where "serialize_connect pid name = command_code CONNECT # u32le (word_of_nat (length payload)) @ payload"
      "parse_connect payload (length payload) = Some (Parsed (pid, name))" by auto
  with Req_connect show ?thesis
    by (intro carriesI [of _ 4 payload]) (simp_all add: handle_request_def connect_answers)
next
  case (Req_publish name k v)
  with assms produce_codec.framed [of "(name, k, v)"] obtain payload
    where "serialize_produce name k v = command_code PRODUCE # u32le (word_of_nat (length payload)) @ payload"
      "parse_produce payload (length payload) = Some (Parsed (name, k, v))" by auto
  with Req_publish show ?thesis
    by (intro carriesI [of _ 5 payload]) (simp_all add: handle_request_def publish_answers)
next
  case (Req_subscribe pid c name p offset)
  with assms subscribe_codec.framed [of "(pid, c, name, p, offset)"] obtain payload
    where "serialize_subscribe pid c name p offset
        = command_code SUBSCRIBE # u32le (word_of_nat (length payload)) @ payload"
      "parse_subscribe payload (length payload) = Some (Parsed (pid, c, name, p, offset))" by auto
  with Req_subscribe show ?thesis
    by (intro carriesI [of _ 6 payload]) (simp_all add: handle_request_def subscribe_answers)
next
  case (Req_commit c n)
  with assms ack_codec.framed [of "(c, n)"] obtain payload
    where "serialize_ack c n = command_code ACK # u32le (word_of_nat (length payload)) @ payload"
      "parse_ack payload (length payload) = Some (Parsed (c, n))" by auto
  with Req_commit show ?thesis
    by (intro carriesI [of _ 7 payload]) (simp_all add: handle_request_def commit_answers)
next
  case (Req_disconnect c)
  with assms disconnect_codec.framed [of c] obtain payload
    where "serialize_disconnect c = command_code DISCONNECT # u32le (word_of_nat (length payload)) @ payload"
      "parse_disconnect payload (length payload) = Some (Parsed c)" by auto
  with Req_disconnect show ?thesis
    by (intro carriesI [of _ 8 payload]) (simp_all add: handle_request_def disconnect_answers)
qed

lemma requests_carried:
  assumes "\<forall>r \<in> set rs. request_fits r"
  shows "\<exists>fs. list_all2 carries rs fs \<and> (\<forall>f \<in> set fs. fits_frame f)
    \<and> concat (map request_bytes rs) = concat (map request_frame fs)"
  using assms
proof (induction rs)
  case (Cons r rs)
  then obtain fs where fs: "list_all2 carries rs fs" "\<forall>f \<in> set fs. fits_frame f"
    "concat (map request_bytes rs) = concat (map request_frame fs)" by auto
  from Cons.prems have r: "request_wf r" "length (request_bytes r) < 2 ^ 32"
    by (simp_all add: request_fits_def)
  from request_carried [OF r(1)] obtain f where f: "carries r f" by blast
  then have eq: "request_bytes r = request_frame f" by (simp add: carries_def)
  with r(2) have "fits_frame f" by (simp add: fits_frame_def)
  with fs f eq show ?case by (intro exI [of _ "f # fs"]) simp
qed simp

lemma handle_all_refines:
  assumes "list_all2 carries rs fs" and "server_inv H (fst s)"
  shows "\<exists>s' busy. handle_all (handle_request H os) fs s = Some s' \<and> server_inv H (fst s')
    \<and> length busy = length rs \<and> view H (fst s') = broker_run busy rs (view H (fst s)) \<and> steady H (fst s) (fst s')
    \<and> replied_all os busy rs (view H (fst s)) (snd s) (snd s')"
  using assms
proof (induction arbitrary: s rule: list_all2_induct)
  case (Cons r rs f fs)
  from Cons.hyps(1) Cons.prems
  have "answers H os s (handle_request H os s (fst f) (snd f) (length (snd f))) r"
    by (simp del: split_paired_All add: carries_def)
  then obtain srv1 io1 b
    where "handle_request H os s (fst f) (snd f) (length (snd f)) = Some (srv1, io1)"
      and inv1: "server_inv H srv1" and "view H srv1 = broker_step b r (view H (fst s))"
      and "steady H (fst s) srv1" "replied os (view H (fst s)) (broker_reply b r (view H (fst s))) (snd s) io1"
    by (rule answersE)
  moreover from Cons.IH [of "(srv1, io1)"] inv1 obtain s' busy
    where "handle_all (handle_request H os) fs (srv1, io1) = Some s'" "server_inv H (fst s')" "length busy = length rs"
      "view H (fst s') = broker_run busy rs (view H srv1)" "steady H srv1 (fst s')"
      "replied_all os busy rs (view H srv1) io1 (snd s')" by auto
  ultimately show ?case by (intro exI [of _ s'] exI [of _ "b # busy"]) (auto intro: steady_trans)
qed simp

theorem receive_requests:
  assumes "server_inv H (fst s)" and "\<forall>r \<in> set rs. request_fits r"
    and "concat chunks = concat (map request_bytes rs) @ tail" and "incomplete tail"
  shows "\<exists>s' busy. receive_all (handle_request H os) chunks (s, []) = Some (s', tail)
    \<and> server_inv H (fst s') \<and> logs H (fst s') = fold log_step rs (logs H (fst s))
    \<and> steady H (fst s) (fst s')
    \<and> length busy = length rs \<and> view H (fst s') = broker_run busy rs (view H (fst s))
    \<and> replied_all os busy rs (view H (fst s)) (snd s) (snd s')"
proof -
  from requests_carried [OF assms(2)] obtain fs where fs: "list_all2 carries rs fs"
    "\<forall>f \<in> set fs. fits_frame f" "concat (map request_bytes rs) = concat (map request_frame fs)" by blast
  from handle_all_refines [OF fs(1) assms(1), of os] obtain s' busy
    where s': "handle_all (handle_request H os) fs s = Some s'" "server_inv H (fst s')" "steady H (fst s) (fst s')"
      and run: "length busy = length rs" "view H (fst s') = broker_run busy rs (view H (fst s))"
        "replied_all os busy rs (view H (fst s)) (snd s) (snd s')" by blast
  have "logs H (fst s') = fold log_step rs (logs H (fst s))"
    using logs_broker_run [OF run(1), of "view H (fst s)"] run(2) unfolding view_def by (metis broker.select_convs(1))
  moreover have "[] @ concat chunks = concat (map request_frame fs) @ tail" using assms(3) fs(3) by simp
  from requests.receive_all_stream [OF this fs(2) assms(4), of H os s] s'(1)
  have "receive_all (handle_request H os) chunks (s, []) = Some (s', tail)" by (simp add: incomplete_def)
  ultimately show ?thesis using s' run by blast
qed

section \<open>Start and stop\<close>

lemma Server_new_maps:
  "get_topic H (fst (Server_new os path io)) = Map.empty" "client_of H (fst (Server_new os path io)) = Map.empty"
  "producer_of H (fst (Server_new os path io)) = Map.empty"
  by (simp_all add: Server_new_def Let_def get_topic_def client_of_def producer_of_def fun_eq_iff split: prod.split)

lemma Server_new_correct:
  "server_inv H (fst (Server_new os path io))" "logs H (fst (Server_new os path io)) = Map.empty"
  "running (fst (Server_new os path io))" "alive H (fst (Server_new os path io))"
proof -
  obtain fd where fields: "topics (fst (Server_new os path io)) = HashMap_default"
    "client_index (fst (Server_new os path io)) = HashMap_default"
    "producer_topics (fst (Server_new os path io)) = HashMap_default"
    "running (fst (Server_new os path io))"
    by (auto simp: Server_new_def Let_def split: prod.split)
  note maps = Server_new_maps [of H os path io]
  then show "server_inv H (fst (Server_new os path io))" "alive H (fst (Server_new os path io))"
    by (simp_all add: server_inv_def tables_ok_def fields consistent_def alive_def)
  show "logs H (fst (Server_new os path io)) = Map.empty"
    using maps by (simp add: logs_def fun_eq_iff)
qed (auto simp: Server_new_def Let_def split: prod.split)

text \<open>\<^verbatim>\<open>stop\<close> before and after it takes \<^verbatim>\<open>server_mutex\<close>; \<open>Stopping\<close> takes the second part apart.\<close>

definition stop_begin :: "os \<Rightarrow> server_state \<Rightarrow> server_state" where
  "stop_begin os s =
     (let (srv, io) = s;
          srv = srv\<lparr>running := False\<rparr>;
          io = sys_unlink (ipc_path srv) io;
          (dummy_fd, io) = sys_open_wr_nb os (ipc_path srv) io;
          io = (if dummy_fd \<noteq> - 1 then sys_close dummy_fd (snd (sys_write os dummy_fd [0] io)) else io)
      in (srv, io))"

definition stop_finish :: "os \<Rightarrow> server_state \<Rightarrow> server_state option" where
  "stop_finish os s = do {
     let (srv, io) = s;
     (ts, io) \<leftarrow> HashMap_for_each (\<lambda>_ p io. shutdown_topic os p io) (topics srv) io;
     close_fifo (srv\<lparr>topics := ts\<rparr>, io) }"

lemma Server_stop_parts:
  "Server_stop os s = (if running (fst s) then stop_finish os (stop_begin os s) else Some s)"
  by (simp add: Server_stop_def stop_begin_def stop_finish_def Let_def split: prod.split)

text \<open>What a shutdown leaves of a topic: the log, but no subscriber and no worker.\<close>

definition topic_shut :: "hashes \<Rightarrow> topic \<Rightarrow> topic \<Rightarrow> bool" where
  "topic_shut H t t' \<longleftrightarrow> topic_inv H t' \<and> topic_name t' = topic_name t \<and> topic_log t' = topic_log t
     \<and> topic_stop t' \<and> topic_worker t' = Worker_joined \<and> find_sub H t' = Map.empty"

lemma Topic_shutdown_shut:
  assumes "topic_inv H t" and "\<not> topic_stop t"
  shows "\<exists>t' io'. Topic_shutdown os t io = Some (t', io') \<and> topic_shut H t t'"
proof -
  have "topic_name t' = topic_name t" if "Topic_shutdown os t io = Some (t', io')" for t' io'
    using that assms(2) by (auto simp: Topic_shutdown_def join_after_flag bind_eq_Some_conv)
  with Topic_shutdown_correct [OF assms, of os io] show ?thesis
    by (fastforce simp: topic_shut_def topic_log_def)
qed

lemma consistent_shut:
  assumes cons: "consistent H T C P" and "\<And>name. rel_option (topic_shut H) (T name) (T' name)"
  shows "consistent H T' C P"
proof -
  have old: "\<exists>t. T name = Some t \<and> topic_shut H t t'" if "T' name = Some t'" for name t'
    using assms(2) [of name] that by (auto simp: option_rel_Some2)
  have dom: "T' name = None \<longleftrightarrow> T name = None" for name
    using assms(2) [of name] by (auto elim: option.rel_cases)
  have "topic_entry_ok H name t'" if "T' name = Some t'" for name t'
    using old [OF that] consistentD(9) [OF cons] by (auto simp: topic_entry_ok_def topic_shut_def)
  moreover have "find_sub H t' c = None" if "T' name = Some t'" for name t' c
    using old [OF that] by (auto simp: topic_shut_def)
  ultimately show ?thesis
    using consistentD(5,6,8) [OF cons] by (simp add: consistent_def dom)
qed

theorem stop_finish_correct:
  assumes inv: "server_inv H srv" and "alive H srv" and "fifo_fd srv = Some fd"
  shows "\<exists>srv' io'. stop_finish os (srv, io) = Some (srv', io' @ [Close fd]) \<and> server_inv H srv'
    \<and> running srv' = running srv \<and> fifo_fd srv' = fifo_fd srv \<and> view H srv' = view H srv
    \<and> (\<forall>name. rel_option (topic_shut H) (get_topic H srv name) (get_topic H srv' name))"
proof -
  note ok = server_invD(1) [OF inv] and cons = server_invD(2) [OF inv]
  have hm: "hm_inv (hash_string H) (topics srv)" using ok by (simp add: tables_ok_def)
  let ?R = "\<lambda>p p'. \<exists>t t'. p = Some t \<and> p' = Some t' \<and> topic_shut H t t'"
  have body: "\<exists>p' io'. shutdown_topic os p io = Some (p', io') \<and> ?R p p'"
    if "HashMap_find (hash_string H) (topics srv) name = Some p" for name p io
  proof -
    from that obtain t where t: "get_topic H srv name = Some t" "p = Some t"
      by (auto simp: find_topic [OF ok])
    then have "topic_inv H t" "\<not> topic_stop t"
      using consistentD(1) [OF cons] assms(2) by (auto simp: alive_def)
    from Topic_shutdown_shut [OF this, of os io] t show ?thesis by (auto simp: shutdown_topic_def)
  qed
  have "\<exists>ts io2. HashMap_for_each (\<lambda>_. shutdown_topic os) (topics srv) io = Some (ts, io2)
      \<and> hm_inv (hash_string H) ts \<and> (\<forall>name. rel_option ?R (HashMap_find (hash_string H) (topics srv) name)
          (HashMap_find (hash_string H) ts name))"
    by (rule for_each_rel [OF hm]) (rule body)
  then obtain ts io2
    where each: "HashMap_for_each (\<lambda>_. shutdown_topic os) (topics srv) io = Some (ts, io2)"
      and hm': "hm_inv (hash_string H) ts"
      and rel: "\<And>name. rel_option ?R (HashMap_find (hash_string H) (topics srv) name)
          (HashMap_find (hash_string H) ts name)" by (elim exE conjE) metis
  let ?srv = "srv\<lparr>topics := ts\<rparr>"
  have not_null: "HashMap_find (hash_string H) ts name \<noteq> Some None" for name
    using rel [of name] by (cases "HashMap_find (hash_string H) (topics srv) name") auto
  have "stop_finish os (srv, io) = Some (?srv, io2 @ [Close fd])"
    using assms(3) by (simp add: stop_finish_def each close_fifo_def sys_close_def)
  moreover have shut: "rel_option (topic_shut H) (get_topic H srv name) (get_topic H ?srv name)" for name
    using rel [of name] by (cases "HashMap_find (hash_string H) (topics srv) name")
      (auto simp: get_topic_def option_rel_Some1)
  moreover have "tables_ok H ?srv"
    using ok hm' not_null by (simp add: tables_ok_def)
  moreover have same: "client_of H ?srv = client_of H srv" "producer_of H ?srv = producer_of H srv"
    by (simp_all add: client_of_def producer_of_def)
  moreover have "consistent H (get_topic H ?srv) (client_of H srv) (producer_of H srv)"
    using cons shut by (rule consistent_shut)
  moreover have "logs H ?srv name = logs H srv name" for name
    using shut [of name] by (auto simp: logs_def topic_shut_def elim: option.rel_cases)
  then have "view H ?srv = view H srv" by (simp add: view_def same fun_eq_iff)
  ultimately show ?thesis by (intro exI [of _ ?srv] exI [of _ io2]) (simp add: server_inv_def)
qed

text \<open>The flag and the log of system calls are no concern of the tables.\<close>

lemma stop_begin_same:
  obtains io' where "stop_begin os (srv, io) = (srv\<lparr>running := False\<rparr>, io')"
proof -
  have "\<exists>io'. stop_begin os (srv, io) = (srv\<lparr>running := False\<rparr>, io')"
    by (simp add: stop_begin_def Let_def split: prod.split)
  then show thesis using that by blast
qed

lemma running_irrelevant [simp]:
  "get_topic H (srv\<lparr>running := b\<rparr>) = get_topic H srv" "client_of H (srv\<lparr>running := b\<rparr>) = client_of H srv"
  "producer_of H (srv\<lparr>running := b\<rparr>) = producer_of H srv" "tables_ok H (srv\<lparr>running := b\<rparr>) = tables_ok H srv"
  "server_inv H (srv\<lparr>running := b\<rparr>) = server_inv H srv" "alive H (srv\<lparr>running := b\<rparr>) = alive H srv"
  "view H (srv\<lparr>running := b\<rparr>) = view H srv" "logs H (srv\<lparr>running := b\<rparr>) = logs H srv"
proof -
  show get: "get_topic H (srv\<lparr>running := b\<rparr>) = get_topic H srv" by (simp add: get_topic_def fun_eq_iff)
  show maps: "client_of H (srv\<lparr>running := b\<rparr>) = client_of H srv" "producer_of H (srv\<lparr>running := b\<rparr>) = producer_of H srv"
    and ok: "tables_ok H (srv\<lparr>running := b\<rparr>) = tables_ok H srv" and logs: "logs H (srv\<lparr>running := b\<rparr>) = logs H srv"
    by (simp_all add: client_of_def producer_of_def tables_ok_def logs_def get fun_eq_iff)
  show "server_inv H (srv\<lparr>running := b\<rparr>) = server_inv H srv" "alive H (srv\<lparr>running := b\<rparr>) = alive H srv"
    "view H (srv\<lparr>running := b\<rparr>) = view H srv"
    by (simp_all add: server_inv_def alive_def view_def get maps ok logs)
qed

theorem Server_stop_correct:
  assumes inv: "server_inv H srv" and "alive H srv" and "running srv" and "fifo_fd srv = Some fd"
  shows "\<exists>srv' io'. Server_stop os (srv, io) = Some (srv', io' @ [Close fd]) \<and> server_inv H srv'
    \<and> \<not> running srv' \<and> logs H srv' = logs H srv
    \<and> (\<forall>name. rel_option (topic_shut H) (get_topic H srv name) (get_topic H srv' name))"
proof -
  obtain io1 where "stop_begin os (srv, io) = (srv\<lparr>running := False\<rparr>, io1)" by (rule stop_begin_same)
  with stop_finish_correct [of H "srv\<lparr>running := False\<rparr>" fd os io1] assms show ?thesis
    by (auto simp: Server_stop_parts view_def)
qed

section \<open>The life of a server\<close>

lemma Server_run_reads:
  assumes "receive_all (handle_request H os) chunks st = Some st'"
    and "server_inv H (fst (fst st)) \<and> running (fst (fst st))"
  shows "Server_run H os (map Read chunks @ events) st = Server_run H os events st'"
  using assms
proof (induction chunks arbitrary: st)
  case (Cons chunk chunks)
  then obtain s1 buf1 where s1: "receive (handle_request H os) chunk st = Some (s1, buf1)"
    and rest: "receive_all (handle_request H os) chunks (s1, buf1) = Some st'"
    by (auto simp: bind_eq_Some_conv)
  have "server_inv H (fst s1) \<and> running (fst s1)"
    using running_requests.frame_loop_keeps [of H os "fst st" "snd st @ chunk" s1 buf1] s1 Cons.prems(2)
    by (simp add: receive_def)
  with Cons.IH [OF rest] s1 show ?case by simp
qed simp

theorem Server_lifecycle:
  assumes "server_inv H srv" and "alive H srv" and "running srv" and "fifo_fd srv = Some fd"
    and "\<forall>r \<in> set rs. request_fits r" and "concat chunks = concat (map request_bytes rs)"
  shows "\<exists>srv' io'. Server_run H os (map Read chunks @ [Signal, Read_nothing]) ((srv, io), []) = Some ((srv', io'), [])
    \<and> server_inv H srv' \<and> \<not> running srv' \<and> logs H srv' = fold log_step rs (logs H srv)
    \<and> (\<forall>name t. get_topic H srv' name = Some t \<longrightarrow> topic_stop t \<and> topic_worker t = Worker_joined \<and> find_sub H t = Map.empty)"
proof -
  have inc: "incomplete []" by (simp add: incomplete_def)
  have "server_inv H (fst (srv, io))" "concat chunks = concat (map request_bytes rs) @ []"
    using assms(1,6) by simp_all
  from receive_requests [OF this(1) assms(5) this(2) inc, of os] obtain srv1 io1
    where rec: "receive_all (handle_request H os) chunks ((srv, io), []) = Some ((srv1, io1), [])"
      and inv1: "server_inv H srv1" and logs1: "logs H srv1 = fold log_step rs (logs H srv)"
      and "steady H srv srv1" by auto
  then have st1: "running srv1" "fifo_fd srv1 = Some fd" "alive H srv1"
    using assms(2-4) by (auto simp: steady_def)
  from Server_stop_correct [OF inv1 st1(3,1,2), of os io1] obtain srv' io'
    where stop: "Server_stop os (srv1, io1) = Some (srv', io' @ [Close fd])" "server_inv H srv'"
      "\<not> running srv'" "logs H srv' = logs H srv1"
      and shut: "\<And>name. rel_option (topic_shut H) (get_topic H srv1 name) (get_topic H srv' name)" by blast
  have "fifo_fd srv' \<noteq> None"
    using stop(1) st1(1,2) by (auto simp: Server_stop_def close_fifo_def bind_eq_Some_conv split: prod.splits)
  then obtain fd' where "fifo_fd srv' = Some fd'" by blast
  with stop have "Server_run H os [Signal, Read_nothing] ((srv1, io1), []) = Some ((srv', io' @ [Close fd, Close fd']), [])"
    by (simp add: close_fifo_def sys_close_def)
  moreover have "Server_run H os (map Read chunks @ [Signal, Read_nothing]) ((srv, io), [])
      = Server_run H os [Signal, Read_nothing] ((srv1, io1), [])"
    using rec assms(1,3) by (intro Server_run_reads) simp_all
  moreover have "topic_stop t \<and> topic_worker t = Worker_joined \<and> find_sub H t = Map.empty"
    if "get_topic H srv' name = Some t" for name t
    using shut [of name] that by (auto simp: option_rel_Some2 topic_shut_def)
  ultimately show ?thesis using stop logs1 by auto
qed

section \<open>Malformed headers, failed starts\<close>

text \<open>
  The sum \<^verbatim>\<open>5 + payload_len\<close> wraps for the five largest lengths: the loop does not wait for the
  payload, and erases beyond the end of the buffer.
\<close>

theorem oversized_header:
  assumes "2 ^ 32 - 5 \<le> unat n" and "length rest < unat n"
  shows "frame_loop handle s (act # u32le n @ rest) = None"
proof -
  let ?buf = "act # u32le n @ rest"
  have "unat (5 + n) \<le> 4" using assms(1) unat_u32_bound [of n] by (simp add: unat_u32_add)
  then have "\<not> incomplete ?buf" by (auto simp: incomplete_def)
  then show ?thesis
    using assms(2) by (simp add: frame_loop_complete [of ?buf n] split: option.split Option.bind_split)
qed

text \<open>If the FIFO cannot be created, the destructor closes a descriptor that was never assigned.\<close>

theorem failed_start:
  assumes "\<And>io. os_mkfifo os io path = - 1"
  shows "Server_stop os (Server_new os path io) = None"
  using assms
  by (simp add: Server_new_def Server_stop_def Let_def sys_mkfifo_def close_fifo_def
      split: prod.split Option.bind_split)

text \<open>The destructors of topics that were shut down by \<^verbatim>\<open>stop\<close> return at once.\<close>

lemma Server_delete_stopped:
  assumes "server_inv H srv" and "\<not> running srv" and "\<And>name t. get_topic H srv name = Some t \<Longrightarrow> topic_stop t"
  shows "Server_delete os (srv, io) = Some (srv, io)"
proof -
  have ok: "tables_ok H srv" using server_invD(1) [OF assms(1)] .
  then have inv: "hm_inv (hash_string H) (topics srv)" by (simp add: tables_ok_def)
  have "destroy_topic os p io = Some (p, io)" if "(k, p) \<in> set (HashMap_entries (topics srv))" for k p
  proof -
    from that have "HashMap_find (hash_string H) (topics srv) k = Some p" by (simp add: hm.in_entries [OF inv])
    then obtain t where "p = Some t" "get_topic H srv k = Some t" by (auto simp: find_topic [OF ok])
    with assms(3) show ?thesis by (simp add: destroy_topic_def Topic_delete_def Topic_shutdown_again)
  qed
  from for_each_same [of "topics srv" "\<lambda>_ p io. destroy_topic os p io" io, OF this] assms(2) show ?thesis
    by (simp add: Server_delete_def Server_stop_def)
qed

text \<open>The whole program, from \<^verbatim>\<open>main\<close> to its exit.\<close>

theorem server_main_lifecycle:
  assumes "\<And>io. os_mkfifo os io (''/tmp/treenity.server.'' @ to_string pid) \<noteq> - 1"
    and "\<And>io. os_open_rdwr os io (''/tmp/treenity.server.'' @ to_string pid) \<noteq> - 1"
    and "\<forall>r \<in> set rs. request_fits r" and "concat chunks = concat (map request_bytes rs)"
  shows "\<exists>srv io'. server_main H os pid (map Read chunks @ [Signal]) io = Some (0, (srv, io'))
    \<and> logs H srv = fold log_step rs Map.empty
    \<and> (\<forall>name t. get_topic H srv name = Some t \<longrightarrow> topic_worker t = Worker_joined \<and> find_sub H t = Map.empty)"
proof -
  let ?path = "''/tmp/treenity.server.'' @ to_string pid"
  let ?s = "Server_new os ?path io"
  have "fifo_fd (fst ?s) \<noteq> None" and start: "correct_start (fst ?s)"
    using assms(1,2) by (simp_all add: Server_new_def Let_def sys_mkfifo_def sys_open_rdwr_def)
  then obtain fd where "fifo_fd (fst ?s) = Some fd" by blast
  from Server_lifecycle [OF Server_new_correct(1,4,3) this assms(3,4), where H = H and os = os and io = "snd ?s"] Server_new_correct(2) [of H os ?path io]
  obtain srv io' where "Server_run H os (map Read chunks @ [Signal, Read_nothing]) (?s, []) = Some ((srv, io'), [])"
    "server_inv H srv" "\<not> running srv" "logs H srv = fold log_step rs Map.empty"
    "\<forall>name t. get_topic H srv name = Some t \<longrightarrow> topic_stop t \<and> topic_worker t = Worker_joined \<and> find_sub H t = Map.empty"
    by fastforce
  moreover from this have "Server_delete os (srv, io') = Some (srv, io')" by (intro Server_delete_stopped) blast+
  ultimately show ?thesis using start
    by (intro exI [of _ srv] exI [of _ io']) (simp add: server_main_def Let_def)
qed

lemma server_main_failed:
  assumes "\<And>io. os_mkfifo os io (''/tmp/treenity.server.'' @ to_string pid) = - 1"
  shows "server_main H os pid events io = None"
  using failed_start [OF assms, of io] assms
  by (simp add: server_main_def Server_delete_def Let_def Server_new_def sys_mkfifo_def)

section \<open>The system of threads\<close>

text \<open>
  One step of the process: a request handled by the main thread, one turn of the worker of a topic
  whose wait is over, or the shutdown.
\<close>

inductive server_step :: "hashes \<Rightarrow> os \<Rightarrow> server_state \<Rightarrow> server_state \<Rightarrow> bool" for H os where
  request: "handle_request H os s act payload (length payload) = Some s' \<Longrightarrow> server_step H os s s'"
| worker: "get_topic H srv name = Some t \<Longrightarrow> topic_worker t = Worker_running \<Longrightarrow> Topic_has_work t
    \<Longrightarrow> Topic_run_iteration H os t io = Some (t', io')
    \<Longrightarrow> server_step H os (srv, io) (set_topic H srv name t', io')"
| stop: "Server_stop os s = Some s' \<Longrightarrow> server_step H os s s'"

inductive server_reachable :: "hashes \<Rightarrow> os \<Rightarrow> string \<Rightarrow> server_state \<Rightarrow> bool" for H os path where
  start: "server_reachable H os path (Server_new os path [])"
| step: "server_reachable H os path s \<Longrightarrow> server_step H os s s' \<Longrightarrow> server_reachable H os path s'"

definition system_inv :: "hashes \<Rightarrow> server \<Rightarrow> bool" where
  "system_inv H srv \<longleftrightarrow> server_inv H srv \<and> (running srv \<longrightarrow> alive H srv)"

text \<open>A log is only ever extended, and no topic disappears.\<close>

definition extends ::
    "(string \<rightharpoonup> (string \<times> string) list) \<Rightarrow> (string \<rightharpoonup> (string \<times> string) list) \<Rightarrow> bool" where
  "extends L L' \<longleftrightarrow> (\<forall>name l. L name = Some l \<longrightarrow> (\<exists>new. L' name = Some (l @ new)))"

lemma extends_refl [simp]: "extends L L"
  by (simp add: extends_def)

lemma extends_trans: "extends L L' \<Longrightarrow> extends L' L'' \<Longrightarrow> extends L L''"
  by (fastforce simp: extends_def)

lemma extends_log_step: "extends L (log_step rq L)"
  by (cases rq) (auto simp: extends_def split: option.split)

text \<open>A turn of a worker changes nothing but where its subscribers are.\<close>

lemma worker_turn:
  assumes ok: "tables_ok H srv" and cons: "consistent H (get_topic H srv) C (producer_of H srv)"
    and t: "get_topic H srv name = Some t" and turn: "Topic_run_iteration H os t io = Some (t', io')"
  defines "srv' \<equiv> set_topic H srv name t'"
  shows "get_topic H srv' = (get_topic H srv)(name \<mapsto> t')" and "tables_ok H srv'" and "view H srv' = view H srv"
    and "consistent H (get_topic H srv') C (producer_of H srv')" and "client_of H srv' = client_of H srv"
    and "running srv' = running srv" and "fifo_fd srv' = fifo_fd srv" and "alive H srv \<Longrightarrow> alive H srv'"
proof -
  note t' = Topic_run_keeps [OF consistentD(1) [OF cons t] turn]
  have "get_topic H srv name \<noteq> None" using t by simp
  note w = set_topic_correct [OF ok this, of t', folded srv'_def]
  show "get_topic H srv' = (get_topic H srv)(name \<mapsto> t')" "tables_ok H srv'" "client_of H srv' = client_of H srv"
    by (fact w)+
  show "running srv' = running srv" "fifo_fd srv' = fifo_fd srv" by (simp_all add: srv'_def set_topic_def)
  show "alive H srv \<Longrightarrow> alive H srv'" using t' t by (auto simp: alive_def w(1))
  have "logs H srv' = logs H srv" using t' t by (auto simp: logs_def topic_log_def fun_eq_iff w(1))
  then show "view H srv' = view H srv" by (simp add: view_def w)
  have "consistent H ((get_topic H srv)(name \<mapsto> t')) C (producer_of H srv)"
  proof (rule consistent_topic [OF cons])
    show "topic_entry_ok H name t'"
      using t' consistentD(9) [OF cons t] by (simp add: topic_entry_ok_def)
    show "\<exists>m. C c = Some m \<and> sub_matches name sub' m"
      if find: "find_sub H t' c = Some sub'" for c sub'
    proof -
      from t' find obtain sub where "find_sub H t c = Some sub" "same_subscriber (c, sub) (c, sub')" by blast
      with consistentD(7) [OF cons t] show ?thesis
        by (fastforce simp: sub_matches_def same_subscriber_def)
    qed
  qed
  then show "consistent H (get_topic H srv') C (producer_of H srv')" by (simp add: w)
qed

lemma server_step_keeps:
  assumes "system_inv H (fst s)" and "server_step H os s s'"
  shows "system_inv H (fst s') \<and> extends (logs H (fst s)) (logs H (fst s'))"
  using assms(2)
proof (cases rule: server_step.cases)
  case (request act payload)
  have inv: "server_inv H (fst s)" using assms(1) by (simp add: system_inv_def)
  from handle_request_answers [OF inv order.refl, of os act payload] request
  obtain rq where "server_inv H (fst s')" "steady H (fst s) (fst s')"
    "logs H (fst s') = log_step rq (logs H (fst s))" by (auto elim!: answersE)
  then show ?thesis using assms(1) extends_log_step by (auto simp: system_inv_def steady_def)
next
  case (worker srv name t io t' io')
  have inv: "server_inv H srv" using assms(1) worker by (simp add: system_inv_def)
  note turn = worker_turn [OF server_invD [OF inv] worker(3,6)]
  have "server_inv H (set_topic H srv name t')" using turn(2,4) by (simp add: server_inv_def turn(5))
  moreover have "logs H (set_topic H srv name t') = logs H srv"
    using turn(3) by (simp add: view_def)
  ultimately show ?thesis using assms(1) worker turn(6,8) by (simp add: system_inv_def)
next
  case stop
  obtain srv io where s: "s = (srv, io)" by fastforce
  have inv: "server_inv H srv" using assms(1) by (simp add: system_inv_def s)
  show ?thesis
  proof (cases "running srv")
    case False
    with stop assms(1) show ?thesis by (simp add: s Server_stop_def)
  next
    case True
    with assms(1) have alive: "alive H srv" by (simp add: system_inv_def s)
    have "fifo_fd srv \<noteq> None"
    proof
      assume "fifo_fd srv = None"
      then have "Server_stop os (srv, io) = None"
        using True by (simp add: Server_stop_def close_fifo_def Let_def split: prod.split Option.bind_split)
      with stop show False by (simp add: s)
    qed
    then obtain fd where "fifo_fd srv = Some fd" by blast
    from Server_stop_correct [OF inv alive True this, of os io] stop show ?thesis
      by (auto simp: s system_inv_def)
  qed
qed

theorem reachable_inv: "server_reachable H os path s \<Longrightarrow> system_inv H (fst s)"
proof (induction rule: server_reachable.induct)
  case start
  show ?case by (simp add: system_inv_def Server_new_correct)
next
  case (step s s')
  then show ?case using server_step_keeps by blast
qed

lemma logs_extended:
  assumes "server_reachable H os path s" and "(server_step H os)\<^sup>*\<^sup>* s s'"
  shows "extends (logs H (fst s)) (logs H (fst s')) \<and> server_reachable H os path s'"
  using assms(2)
proof (induction rule: rtranclp_induct)
  case base
  show ?case using assms(1) by simp
next
  case (step s1 s2)
  then have "system_inv H (fst s1)" using reachable_inv by blast
  from server_step_keeps [OF this step(2)] step(2,3) show ?case
    by (blast intro: extends_trans server_reachable.step)
qed

end
