(* ===== verification/Session.thy ===== *)
theory Session
  imports Client_Correct Broker
begin

text \<open>
  The client program and the server program together: what each invocation of the client writes to
  the server's FIFO, what the server answers on the client's FIFO, and what the invocation prints.
  The two processes have their own system parameters and logs; \<open>sent_to\<close> is what one writes to a
  FIFO and \<open>arriving\<close>, or the pieces given to \<open>receive_all\<close>, what the other reads from it.
\<close>

section \<open>The client's side\<close>

text \<open>
  \<open>client_asks os pid argv ipc request reply code out err\<close>: run with these arguments, the client
  writes exactly \<open>request\<close> to the FIFO \<open>ipc\<close>, and once \<open>reply\<close> has arrived, in whatever pieces, it
  has printed \<open>out\<close> and \<open>err\<close> and exits with \<open>code\<close>.
\<close>

definition client_asks ::
    "os \<Rightarrow> u32 \<Rightarrow> string list \<Rightarrow> string \<Rightarrow> u8 list \<Rightarrow> u8 list \<Rightarrow> int \<Rightarrow> string \<Rightarrow> string \<Rightarrow> bool" where
  "client_asks os pid argv ipc request reply code out err \<longleftrightarrow>
     (\<forall>s later. cl_out_good s \<and> arriving s reply later \<longrightarrow>
       (\<exists>s' new. client_main os pid argv s = Some (code, s') \<and> cl_io s' = cl_io s @ new
         \<and> (\<forall>F. sent_to ipc F new = request) \<and> cl_out s' = cl_out s @ out \<and> cl_err s' = cl_err s @ err))"

definition error_text :: "string \<Rightarrow> string" where
  "error_text payload = (if payload = '''' then ''server returned an error'' else payload) @ [newline]"

lemma write_error_text: "write_error (bytes payload) s = s\<lparr>cl_err := cl_err s @ error_text payload\<rparr>"
  by (simp add: write_error_def error_text_def cerr_def)

lemma write_output_text:
  "cl_out_good s \<Longrightarrow> write_output (bytes payload) s = s\<lparr>cl_out := cl_out s @ payload @ [newline]\<rparr>"
  by (simp add: write_output_def cout_def)

lemma exchange_goes_on: "exchange_failed \<lparr>ex_status = Complete, ex_code = st, ex_payload = p\<rparr> s = None"
  by (simp add: exchange_failed_def)

text \<open>The statuses that the server sends, with their bytes.\<close>

definition sendable :: "status_code \<Rightarrow> bool" where
  "sendable st \<longleftrightarrow> st = SUCCESS \<or> st = GENERAL_ERROR \<or> st = TOPIC_CLIENT_ERR \<or> st = IPC_ERROR"

lemma sendableD:
  assumes "sendable st"
  shows "\<exists>b. st = status_of_byte b \<and> b \<le> 3" "uint (status_byte st) = 0 \<longleftrightarrow> st = SUCCESS"
  using assms
  by (auto simp: sendable_def status_of_byte_def intro: exI [of _ 0] exI [of _ 1] exI [of _ 2] exI [of _ 3])

lemma exchange_complete:
  assumes "os_ready os" and "sendable st" and "length payload < 2 ^ 32"
    and "arriving s (serialize_response st payload @ rest) later"
  shows "\<exists>ins new. exchange_request os path pid request s =
      Some (\<lparr>ex_status = Complete, ex_code = st, ex_payload = bytes payload\<rparr>,
        s\<lparr>cl_io := cl_io s @ new, cl_input := ins\<rparr>)
    \<and> (\<forall>F. sent_to path F new = request) \<and> arriving (s\<lparr>cl_input := ins\<rparr>) rest later"
proof -
  from sendableD(1) [OF assms(2)] obtain b where "st = status_of_byte b" "b \<le> 3" by blast
  from exchange_request_complete [OF assms(1,4,3) this] show ?thesis by blast
qed

definition code_of :: "status_code \<Rightarrow> int" where
  "code_of st = uint (status_byte st)"

text \<open>The management commands: one exchange, then the status as the exit code.\<close>

lemma management_asks:
  assumes "os_ready os" and "sendable st" and "length payload < 2 ^ 32"
    and "\<And>s. client_main os pid argv s = do {
      (exchange, s) \<leftarrow> exchange_request os ipc pid request s;
      case exchange_failed exchange s of
        Some r \<Rightarrow> Some r
      | None \<Rightarrow>
          let exit_code = uint (status_byte (ex_code exchange))
          in if exit_code \<noteq> 0 then Some (exit_code, write_error (ex_payload exchange) s)
             else Some (0, success (ex_payload exchange) s) }"
    and "\<And>s. cl_out_good s \<Longrightarrow> success (bytes payload) s = s\<lparr>cl_out := cl_out s @ out\<rparr>"
  shows "client_asks os pid argv ipc request (serialize_response st payload) (code_of st)
    (if st = SUCCESS then out else '''') (if st = SUCCESS then '''' else error_text payload)"
  unfolding client_asks_def
proof (intro allI impI)
  fix s later
  assume s: "cl_out_good s \<and> arriving s (serialize_response st payload) later"
  then have "arriving s (serialize_response st payload @ []) later" by simp
  from exchange_complete [OF assms(1-3) this, of ipc pid request] obtain ins new
    where ex: "exchange_request os ipc pid request s =
      Some (\<lparr>ex_status = Complete, ex_code = st, ex_payload = bytes payload\<rparr>,
        s\<lparr>cl_io := cl_io s @ new, cl_input := ins\<rparr>)"
      and to: "\<forall>F. sent_to ipc F new = request" by blast
  show "\<exists>s' new. client_main os pid argv s = Some (code_of st, s') \<and> cl_io s' = cl_io s @ new
    \<and> (\<forall>F. sent_to ipc F new = request) \<and> cl_out s' = cl_out s @ (if st = SUCCESS then out else '''')
    \<and> cl_err s' = cl_err s @ (if st = SUCCESS then '''' else error_text payload)"
    using s to assms(5) sendableD(2) [OF assms(2)]
    by (simp add: assms(4) ex exchange_goes_on write_error_text code_of_def Let_def)
qed

lemma parse_create_command: "ipc \<noteq> '''' \<Longrightarrow> is_valid_name topic \<Longrightarrow> parse_command [prog, ipc, ''create'', topic] =
    Inr (make_empty_command\<lparr>cmd_ipc_identifier := ipc, cmd_type := CREATE, cmd_topic := topic\<rparr>)"
  by (simp add: parse_command_def Let_def make_empty_command_def)

lemma parse_list_command: "ipc \<noteq> '''' \<Longrightarrow> parse_command [prog, ipc, ''list''] =
    Inr (make_empty_command\<lparr>cmd_ipc_identifier := ipc, cmd_type := LIST\<rparr>)"
  by (simp add: parse_command_def Let_def make_empty_command_def)

lemma parse_info_command: "ipc \<noteq> '''' \<Longrightarrow> is_valid_name c \<Longrightarrow> parse_command [prog, ipc, ''info'', c] =
    Inr (make_empty_command\<lparr>cmd_ipc_identifier := ipc, cmd_type := INFO, cmd_subscriber := c\<rparr>)"
  by (simp add: parse_command_def Let_def make_empty_command_def)

lemma parse_produce_command: "ipc \<noteq> '''' \<Longrightarrow> is_valid_name topic \<Longrightarrow> parse_command [prog, ipc, ''produce'', topic] =
    Inr (make_empty_command\<lparr>cmd_ipc_identifier := ipc, cmd_type := CONNECT, cmd_topic := topic\<rparr>)"
  by (simp add: parse_command_def Let_def make_empty_command_def)

lemma create_asks:
  assumes "os_ready os" and "sendable st" and "ipc \<noteq> ''''" and "is_valid_name topic"
  shows "client_asks os pid [prog, ipc, ''create'', topic] ipc (serialize_create pid topic) (serialize_response st '''')
    (code_of st) (if st = SUCCESS then ''topic created'' @ [newline] else '''')
    (if st = SUCCESS then '''' else error_text '''')"
  by (rule management_asks [where success = "\<lambda>_. cout (''topic created'' @ [newline])", OF assms(1,2)])
    (simp_all add: client_main_def os_ready_installs parse_create_command assms execute_create_command_def cout_def make_empty_command_def)

lemma list_asks:
  assumes "os_ready os" and "sendable st" and "ipc \<noteq> ''''" and "length payload < 2 ^ 32"
  shows "client_asks os pid [prog, ipc, ''list''] ipc (serialize_list pid) (serialize_response st payload)
    (code_of st) (if st = SUCCESS then payload @ [newline] else '''') (if st = SUCCESS then '''' else error_text payload)"
  by (rule management_asks [where success = write_output, OF assms(1,2,4)])
    (simp_all add: client_main_def os_ready_installs parse_list_command assms execute_list_command_def write_output_text
      make_empty_command_def)

lemma info_asks:
  assumes "os_ready os" and "sendable st" and "ipc \<noteq> ''''" and "is_valid_name c" and "length payload < 2 ^ 32"
  shows "client_asks os pid [prog, ipc, ''info'', c] ipc (serialize_info pid c) (serialize_response st payload)
    (code_of st) (if st = SUCCESS then payload @ [newline] else '''') (if st = SUCCESS then '''' else error_text payload)"
  by (rule management_asks [where success = write_output, OF assms(1,2,5)])
    (simp_all add: client_main_def os_ready_installs parse_info_command assms execute_info_command_def write_output_text
      make_empty_command_def)

section \<open>The server's side\<close>

text \<open>
  \<open>server_answers H os srv pid request srv' reply\<close>: given the bytes of \<open>request\<close>, however they are
  cut, the server goes from \<open>srv\<close> to \<open>srv'\<close>, waits for more, and has written exactly \<open>reply\<close> to
  the FIFO of the client \<open>pid\<close>.
\<close>

definition server_answers :: "hashes \<Rightarrow> os \<Rightarrow> server \<Rightarrow> u32 \<Rightarrow> u8 list \<Rightarrow> server \<Rightarrow> u8 list \<Rightarrow> bool" where
  "server_answers H os srv pid request srv' reply \<longleftrightarrow>
     (\<forall>io chunks. concat chunks = request \<longrightarrow>
       (\<exists>new. receive_all (handle_request H os) chunks ((srv, io), []) = Some ((srv', io @ new), [])
         \<and> (\<forall>F. sent_to (client_fifo_path pid) F new = reply)))"

text \<open>A system on which the clients' FIFOs can be opened and take every write.\<close>

definition server_reaches :: "os \<Rightarrow> bool" where
  "server_reaches os \<longleftrightarrow> writes_succeed os \<and> (\<forall>io path. os_open_wr os io path \<ge> 0)"

lemma send_response_events:
  assumes "server_reaches os"
  shows "\<exists>new. send_response os pid st p io = io @ new
    \<and> (\<forall>F. sent_to (client_fifo_path pid) F new = serialize_response st p)
    \<and> open_on (client_fifo_path pid) {} new = {}"
proof -
  have "os_open_wr os io (client_fifo_path pid) \<ge> 0"
    and wr: "os_write os io' fd buf = int (length buf)" for io' fd buf
    using assms unfolding server_reaches_def writes_succeed_def by blast+
  then have "os_open_wr os io (client_fifo_path pid) \<noteq> - 1" "\<not> os_open_wr os io (client_fifo_path pid) < 0"
    by linarith+
  then show ?thesis
    by (simp add: send_response_def sys_open_wr_def sys_write_def sys_close_def Let_def wr)
qed

lemma single_request:
  assumes "concat chunks = act # u32le (word_of_nat (length payload)) @ payload"
    and "5 + length payload < 2 ^ 32"
  shows "receive_all (handle_request H os) chunks (s, []) =
    (case handle_request H os s act payload (length payload) of None \<Rightarrow> None | Some s \<Rightarrow> Some (s, []))"
proof -
  have stream: "[] @ concat chunks = concat (map request_frame [(act, payload)]) @ []"
    using assms(1) by (simp add: request_frame_def)
  have "\<forall>r \<in> set [(act, payload)]. fits_frame r" "incomplete []"
    using assms(2) by (simp_all add: fits_frame_def incomplete_def)
  from requests.receive_all_stream [OF stream this this(2), of H os s] show ?thesis
    by (simp split: option.split)
qed

lemma server_answersI:
  assumes "server_reaches os" and "request = act # u32le (word_of_nat (length payload)) @ payload"
    and "length request < 2 ^ 32"
    and "\<And>io. handle_request H os (srv, io) act payload (length payload) = Some (srv', send_response os pid st p io)"
  shows "server_answers H os srv pid request srv' (serialize_response st p)"
  unfolding server_answers_def
proof (intro allI impI)
  fix io chunks
  assume "concat chunks = request"
  then have "concat chunks = act # u32le (word_of_nat (length payload)) @ payload" "5 + length payload < 2 ^ 32"
    using assms(2,3) by simp_all
  from single_request [OF this, of H os "(srv, io)"] send_response_events [OF assms(1), of pid st p io]
  show "\<exists>new. receive_all (handle_request H os) chunks ((srv, io), []) = Some ((srv', io @ new), [])
    \<and> (\<forall>F. sent_to (client_fifo_path pid) F new = serialize_response st p)"
    by (auto simp: assms(4))
qed

lemma valid_name_identifier: "is_valid_name s = is_valid_identifier s"
  by (simp add: is_valid_name_def is_valid_identifier_def list_ex_iff list_all_iff)

lemma valid_name_short: "is_valid_name s \<Longrightarrow> length s \<le> 32"
  by (auto simp: is_valid_name_def split: if_splits)

lemma create_answered:
  assumes "server_reaches os" and "server_inv H srv" and "is_valid_name name"
  defines "fresh \<equiv> get_topic H srv name = None"
  shows "\<exists>srv'. server_answers H os srv pid (serialize_create pid name) srv'
      (serialize_response (if fresh then SUCCESS else TOPIC_CLIENT_ERR) '''')
    \<and> server_inv H srv' \<and> get_topic H srv' = (if fresh then (get_topic H srv)(name \<mapsto> Topic_new name) else get_topic H srv)"
proof -
  have wf: "named_ok (pid, name)" and small: "length (serialize_create pid name) < 2 ^ 32"
    using valid_name_short [OF assms(3)] by (simp_all add: named_ok_def serialize_create_def wire_simps)
  from create_codec.framed [OF wf, simplified] obtain payload
    where frame: "serialize_create pid name = command_code CREATE # u32le (word_of_nat (length payload)) @ payload"
      and parsed: "parse_create payload (length payload) = Some (Parsed (pid, name))" by auto
  have valid: "is_valid_identifier name" using assms(3) by (simp add: valid_name_identifier)
  obtain created srv' where c: "create_topic H srv name = (created, srv')" by fastforce
  note made = create_topic_correct [OF assms(2) valid, unfolded c]
  have "handle_request H os (srv, io) (command_code CREATE) payload (length payload) =
      Some (srv', send_response os pid (if fresh then SUCCESS else TOPIC_CLIENT_ERR) '''' io)" for io
    using made valid by (simp add: handle_request_def handle_create_def parsed c fresh_def)
  from server_answersI [OF assms(1) frame small this] made show ?thesis
    by (intro exI [of _ srv']) (simp add: fresh_def)
qed

lemma list_answered:
  assumes "server_reaches os"
  shows "server_answers H os srv pid (serialize_list pid) srv
      (serialize_response SUCCESS (join_names True '''' (map fst (HashMap_entries (topics srv)))))"
proof -
  obtain payload where frame: "serialize_list pid = command_code LIST # u32le (word_of_nat (length payload)) @ payload"
    and parsed: "parse_list payload (length payload) = Some (Parsed pid)" by (rule list_codec.framed [OF TrueI])
  have small: "length (serialize_list pid) < 2 ^ 32" by (simp add: serialize_list_def wire_simps)
  show ?thesis
    by (rule server_answersI [OF assms frame small])
      (simp add: handle_request_def handle_list_correct [OF parsed])
qed

lemma info_answered:
  assumes "server_reaches os" and "is_valid_name c"
  shows "server_answers H os srv pid (serialize_info pid c) srv (case client_of H srv c of
      None \<Rightarrow> serialize_response TOPIC_CLIENT_ERR '''' | Some m \<Rightarrow> serialize_response SUCCESS (client_json m))"
proof -
  have wf: "named_ok (pid, c)" and small: "length (serialize_info pid c) < 2 ^ 32"
    using valid_name_short [OF assms(2)] by (simp_all add: named_ok_def serialize_info_def wire_simps)
  from info_codec.framed [OF wf, simplified] obtain payload
    where frame: "serialize_info pid c = command_code INFO # u32le (word_of_nat (length payload)) @ payload"
      and parsed: "parse_info payload (length payload) = Some (Parsed (pid, c))" by auto
  note handled = handle_info_correct [OF parsed]
  show ?thesis
  proof (cases "client_of H srv c")
    case None
    then show ?thesis
      by (simp, intro server_answersI [OF assms(1) frame small]) (simp add: handle_request_def handled)
  next
    case (Some m)
    then show ?thesis
      by (simp, intro server_answersI [OF assms(1) frame small]) (simp add: handle_request_def handled)
  qed
qed

lemma connect_answered:
  assumes "server_reaches os" and "server_inv H srv" and "is_valid_name name"
  shows "\<exists>srv'. server_answers H os srv pid (serialize_connect pid name) srv'
      (serialize_response (if get_topic H srv name = None then TOPIC_CLIENT_ERR else SUCCESS) '''')
    \<and> server_inv H srv' \<and> get_topic H srv' = get_topic H srv"
proof -
  have wf: "named_ok (pid, name)" and small: "length (serialize_connect pid name) < 2 ^ 32"
    using valid_name_short [OF assms(3)] by (simp_all add: named_ok_def serialize_connect_def wire_simps)
  from connect_codec.framed [OF wf, simplified] obtain payload
    where frame: "serialize_connect pid name = command_code CONNECT # u32le (word_of_nat (length payload)) @ payload"
      and parsed: "parse_connect payload (length payload) = Some (Parsed (pid, name))" by auto
  note handled = handle_producer_connect_correct [OF assms(2) parsed, of os]
  let ?srv = "if get_topic H srv name = None then srv else srv\<lparr>producer_topics :=
    snd (HashMap_insert_or_assign (hash_uint32 H) (producer_topics srv) pid name)\<rparr>"
  have step: "handle_producer_connect H os (srv, io) payload (length payload) = Some (?srv,
      send_response os pid (if get_topic H srv name = None then TOPIC_CLIENT_ERR else SUCCESS) '''' io)" for io
    by (simp add: handle_producer_connect_def parsed split: prod.split)
  with handled [of "[]"] have "server_inv H ?srv \<and> get_topic H ?srv = get_topic H srv" by auto
  moreover have "server_answers H os srv pid (serialize_connect pid name) ?srv
      (serialize_response (if get_topic H srv name = None then TOPIC_CLIENT_ERR else SUCCESS) '''')"
    by (rule server_answersI [OF assms(1) frame small]) (simp only: handle_request_def command_code.simps,
      simp del: if_split add: step)
  ultimately show ?thesis by blast
qed

section \<open>The producer program\<close>

lemma destroy_writer:
  assumes "fd \<ge> 0"
  shows "destroy FifoReader_default \<lparr>writer_fd = fd, writer_path = path\<rparr> s = s\<lparr>cl_io := cl_io s @ [Close fd]\<rparr>"
  using assms by (simp add: destroy_def FifoWriter_close_def FifoReader_close_def FifoReader_default_def sys_close_def)

lemma producer_runs:
  assumes "os_ready os" and "arriving s (serialize_response SUCCESS '''' @ rest) later"
    and input: "cl_stdin s = input" "\<not> cl_stdin_fails s"
    and publish: "\<And>w s. FifoWriter_is_open w \<Longrightarrow> cl_stdin s = input \<Longrightarrow> \<not> cl_stdin_fails s \<Longrightarrow>
      \<exists>io. (if cmd_raw cmd then publish_raw os (cmd_topic cmd) w s else publish_text os (cmd_topic cmd) w s)
          = Some (0, s\<lparr>cl_stdin := [], cl_io := io\<rparr>)
        \<and> sent w s frames (s\<lparr>cl_stdin := [], cl_io := io\<rparr>)"
  shows "\<exists>s' new. execute_producer_command os pid cmd s = Some (0, s') \<and> cl_io s' = cl_io s @ new
    \<and> (\<forall>F. sent_to (cmd_ipc_identifier cmd) F new = serialize_connect pid (cmd_topic cmd) @ frames)
    \<and> cl_stdin s' = [] \<and> cl_out s' = cl_out s \<and> cl_err s' = cl_err s"
proof -
  let ?ipc = "cmd_ipc_identifier cmd" and ?req = "serialize_connect pid (cmd_topic cmd)"
  have "sendable SUCCESS" "length '''' < (2 :: nat) ^ 32" by (simp_all add: sendable_def)
  from exchange_complete [OF assms(1) this assms(2), of ?ipc pid ?req] obtain ins n1
    where ex: "exchange_request os ?ipc pid ?req s = Some (\<lparr>ex_status = Complete, ex_code = SUCCESS, ex_payload = []\<rparr>,
        s\<lparr>cl_io := cl_io s @ n1, cl_input := ins\<rparr>)"
      and n1: "\<And>F. sent_to ?ipc F n1 = ?req" by auto
  let ?s1 = "s\<lparr>cl_io := cl_io s @ n1, cl_input := ins\<rparr>"
  have conn: "execute_connect_command os pid cmd s = Some (0, ?s1)"
    by (simp add: execute_connect_command_def ex exchange_goes_on exit_code_from_response_code_def)
  from FifoWriter_open_ready [OF assms(1), of ?ipc 2000 "cl_io ?s1"] obtain fd
    where opened: "FifoWriter_open os ?ipc 2000 (cl_io s @ n1) =
        Some (\<lparr>writer_fd = fd, writer_path = ?ipc\<rparr>, (cl_io s @ n1) @ [Open_wr_nb ?ipc fd, Set_blocking fd])"
      and fd: "fd \<ge> 0" by auto
  let ?w = "\<lparr>writer_fd = fd, writer_path = ?ipc\<rparr>"
  let ?s2 = "?s1\<lparr>cl_io := (cl_io s @ n1) @ [Open_wr_nb ?ipc fd, Set_blocking fd]\<rparr>"
  have open_w: "FifoWriter_is_open ?w" using fd by (simp add: FifoWriter_is_open_def)
  from publish [OF this, of ?s2] input obtain io
    where pub: "(if cmd_raw cmd then publish_raw os (cmd_topic cmd) ?w ?s2 else publish_text os (cmd_topic cmd) ?w ?s2)
        = Some (0, ?s2\<lparr>cl_stdin := [], cl_io := io\<rparr>)"
      and snt: "sent ?w ?s2 frames (?s2\<lparr>cl_stdin := [], cl_io := io\<rparr>)" by auto
  from snt obtain n2 where n2: "io = cl_io ?s2 @ n2" "written fd n2 = frames" "only_writes fd n2"
    by (auto simp: sent_def)
  let ?s3 = "?s2\<lparr>cl_stdin := [], cl_io := io @ [Close fd]\<rparr>"
  have "execute_producer_command os pid cmd s = Some (0, ?s3)"
    using open_w pub fd
    by (cases "cmd_raw cmd") (simp_all add: execute_producer_command_def conn opened destroy_writer Let_def)
  then show ?thesis
    using n1 n2 fd only_writes_sent [OF n2(3)]
    by (intro exI [of _ ?s3] exI [of _ "n1 @ [Open_wr_nb ?ipc fd, Set_blocking fd] @ n2 @ [Close fd]"]) simp
qed

text \<open>A producer whose topic the server does not know publishes nothing.\<close>

lemma connect_asks:
  assumes "os_ready os" and "ipc \<noteq> ''''" and "is_valid_name topic"
  shows "client_asks os pid [prog, ipc, ''produce'', topic] ipc (serialize_connect pid topic)
    (serialize_response TOPIC_CLIENT_ERR '''') 2 '''' (error_text '''')"
  unfolding client_asks_def
proof (intro allI impI)
  fix s later
  assume "cl_out_good s \<and> arriving s (serialize_response TOPIC_CLIENT_ERR '''') later"
  then have "arriving s (serialize_response TOPIC_CLIENT_ERR '''' @ []) later" by simp
  moreover have "sendable TOPIC_CLIENT_ERR" "length '''' < (2 :: nat) ^ 32" by (simp_all add: sendable_def)
  ultimately obtain ins new where "exchange_request os ipc pid (serialize_connect pid topic) s =
      Some (\<lparr>ex_status = Complete, ex_code = TOPIC_CLIENT_ERR, ex_payload = bytes ''''\<rparr>,
        s\<lparr>cl_io := cl_io s @ new, cl_input := ins\<rparr>)"
    "\<forall>F. sent_to ipc F new = serialize_connect pid topic"
    using exchange_complete [OF assms(1)] by metis
  then show "\<exists>s' new. client_main os pid [prog, ipc, ''produce'', topic] s = Some (2, s')
      \<and> cl_io s' = cl_io s @ new \<and> (\<forall>F. sent_to ipc F new = serialize_connect pid topic)
      \<and> cl_out s' = cl_out s @ '''' \<and> cl_err s' = cl_err s @ error_text ''''"
    by (simp add: client_main_def os_ready_installs parse_produce_command assms execute_producer_command_def
        execute_connect_command_def exchange_goes_on exit_code_from_response_code_def make_empty_command_def
        write_error_text [of "''''", simplified])
qed

section \<open>The subscriber program\<close>

lemma handshake_success:
  assumes "arriving s (serialize_response SUCCESS '''' @ rest) later" and "FifoReader_is_open reader"
  shows "\<exists>ins. subscriber_handshake reader s = Some (Inr (s\<lparr>cl_input := ins\<rparr>))
    \<and> arriving (s\<lparr>cl_input := ins\<rparr>) rest later"
proof -
  have "arriving s ((0 # u32le 0) @ rest) later" using assms(1) by (simp add: serialize_response_eq)
  from client_read_arriving [OF this assms(2), of 5 2000] obtain ins
    where "client_read reader 5 2000 s = Some (True, 0 # u32le 0, s\<lparr>cl_input := ins\<rparr>)"
      "arriving (s\<lparr>cl_input := ins\<rparr>) rest later" by auto
  moreover have "parse_response_header (0 # u32le 0) = Some (Parsed \<lparr>status_code = SUCCESS, response_payload_len = 0\<rparr>)"
    by (simp add: parse_response_header_def status_of_byte_def read_u32le [of _ "[]", simplified])
  ultimately show ?thesis by (auto simp: subscriber_handshake_def)
qed

text \<open>
  The subscriber up to its loop, which may end in any way: whatever it writes to its writer comes
  after the subscription.
\<close>

lemma subscriber_runs:
  fixes cmd :: command and pid :: u32
  assumes "os_ready os" and "arriving s (serialize_response SUCCESS '''' @ stream) later"
  defines "request \<equiv> serialize_subscribe pid (cmd_subscriber cmd) (cmd_topic cmd) (cmd_prefix cmd)
      (if cmd_has_offset cmd then cmd_offset cmd else OFFSET_UNSET)"
  assumes loop: "\<And>reader w s1. FifoReader_is_open reader \<Longrightarrow> FifoWriter_is_open w \<Longrightarrow> arriving s1 stream later \<Longrightarrow>
      cl_out_good s1 = cl_out_good s \<Longrightarrow> cl_shutdown s1 = cl_shutdown s \<Longrightarrow> cl_out s1 = cl_out s \<Longrightarrow>
      \<exists>s2. subscriber_loop os cmd reader w s1 = Some (code, s2) \<and> cl_out s2 = cl_out s @ out \<and> sent w s1 acks s2"
  shows "\<exists>s' new. execute_subscriber_command os pid cmd s = Some (code, s') \<and> cl_io s' = cl_io s @ new
    \<and> (\<forall>F. sent_to (cmd_ipc_identifier cmd) F new = request @ acks) \<and> cl_out s' = cl_out s @ out"
proof -
  let ?ipc = "cmd_ipc_identifier cmd" and ?own = "client_fifo_path pid"
  from FifoReader_create_ready [OF assms(1)] obtain rfd n1
    where made: "FifoReader_create os ?own True (cl_io s) = (\<lparr>reader_fd = rfd, reader_path = ?own\<rparr>, cl_io s @ n1)"
      and rfd: "rfd \<ge> 0" and n1: "\<And>p F. sent_to p F n1 = []" by blast
  from FifoWriter_open_ready [OF assms(1)] obtain fd
    where opened: "FifoWriter_open os ?ipc 2000 (cl_io s @ n1) =
        Some (\<lparr>writer_fd = fd, writer_path = ?ipc\<rparr>, (cl_io s @ n1) @ [Open_wr_nb ?ipc fd, Set_blocking fd])"
      and fd: "fd \<ge> 0" by blast
  let ?w = "\<lparr>writer_fd = fd, writer_path = ?ipc\<rparr>" and ?r = "\<lparr>reader_fd = rfd, reader_path = ?own\<rparr>"
  let ?n2 = "n1 @ [Open_wr_nb ?ipc fd, Set_blocking fd]"
  have open_w: "FifoWriter_is_open ?w" and open_r: "FifoReader_is_open ?r" and prog: "writes_progress os"
    using fd rfd assms(1) by (simp_all add: FifoWriter_is_open_def FifoReader_is_open_def os_ready_def)
  from client_write_all [OF prog open_w, of request "s\<lparr>cl_io := cl_io s @ ?n2\<rparr>"] obtain n3
    where wr: "client_write os ?w request (s\<lparr>cl_io := cl_io s @ ?n2\<rparr>) = Some (True, s\<lparr>cl_io := cl_io s @ ?n2 @ n3\<rparr>)"
      and n3: "written fd n3 = request" "only_writes fd n3" by (auto simp: sent_def)
  let ?s1 = "s\<lparr>cl_io := cl_io s @ ?n2 @ n3\<rparr>"
  have "arriving ?s1 (serialize_response SUCCESS '''' @ stream) later" using assms(2) by (simp add: arriving_def)
  from handshake_success [OF this open_r] obtain ins
    where hs: "subscriber_handshake ?r ?s1 = Some (Inr (?s1\<lparr>cl_input := ins\<rparr>))"
      and arr: "arriving (?s1\<lparr>cl_input := ins\<rparr>) stream later" by blast
  from loop [OF open_r open_w arr] obtain s2
    where run: "subscriber_loop os cmd ?r ?w (?s1\<lparr>cl_input := ins\<rparr>) = Some (code, s2)"
      and out: "cl_out s2 = cl_out s @ out" and "sent ?w (?s1\<lparr>cl_input := ins\<rparr>) acks s2" by auto
  then obtain n4 where n4: "cl_io s2 = cl_io s @ ?n2 @ n3 @ n4" "written fd n4 = acks" "only_writes fd n4"
    by (auto simp: sent_def)
  let ?s' = "s2\<lparr>cl_io := cl_io s2 @ [Close fd, Close rfd, Unlink ?own]\<rparr>"
  have end_all: "destroy ?r ?w s2 = ?s'"
    using fd rfd by (simp add: destroy_def FifoWriter_close_def FifoReader_close_def sys_close_def sys_unlink_def client_fifo_path_def)
  have "execute_subscriber_command os pid cmd s = Some (code, ?s')"
    using open_w open_r wr hs run
    by (simp add: execute_subscriber_command_def made opened end_all request_def [symmetric] Let_def)
  then show ?thesis
    using n1 n3 n4 out fd only_writes_sent [OF n3(2)] only_writes_sent [OF n4(3)]
    by (intro exI [of _ ?s'] exI [of _ "?n2 @ n3 @ n4 @ [Close fd, Close rfd, Unlink ?own]"]) simp
qed

section \<open>Whole invocations\<close>

lemma code_of_simps [simp]: "code_of SUCCESS = 0" "code_of TOPIC_CLIENT_ERR = 2" "code_of GENERAL_ERROR = 1"
  by (simp_all add: code_of_def)

lemma sendable_simps [simp]: "sendable SUCCESS" "sendable TOPIC_CLIENT_ERR" "sendable GENERAL_ERROR"
  by (simp_all add: sendable_def)

text \<open>Messages on the standard input of a producer, in text or raw format.\<close>

definition message_ok :: "bool \<Rightarrow> string \<times> string \<Rightarrow> bool" where
  "message_ok raw m \<longleftrightarrow> (if raw then raw_ok m else text_ok m)"

definition input_of :: "bool \<Rightarrow> (string \<times> string) list \<Rightarrow> string" where
  "input_of raw msgs = (if raw then concat (map raw_record msgs) else text_of msgs)"

lemma message_ok_raw: "message_ok raw m \<Longrightarrow> raw_ok m"
  by (auto simp: message_ok_def text_ok_def raw_ok_def split: if_splits)

lemma parse_produce_flag:
  assumes "ipc \<noteq> ''''" and "is_valid_name topic"
  shows "parse_command ([prog, ipc, ''produce'', topic] @ (if raw then [''--raw''] else [])) =
    Inr (make_empty_command\<lparr>cmd_ipc_identifier := ipc, cmd_type := CONNECT, cmd_topic := topic, cmd_raw := raw\<rparr>)"
  using assms by (simp add: parse_command_def Let_def make_empty_command_def)

lemma producer_program:
  assumes "os_ready os" and "ipc \<noteq> ''''" and "is_valid_name topic" and "\<forall>m \<in> set msgs. message_ok raw m"
    and "arriving s (serialize_response SUCCESS '''' @ rest) later"
    and "cl_stdin s = input_of raw msgs" and "\<not> cl_stdin_fails s"
  shows "\<exists>s' new. client_main os pid ([prog, ipc, ''produce'', topic] @ (if raw then [''--raw''] else [])) s = Some (0, s')
    \<and> cl_io s' = cl_io s @ new \<and> (\<forall>F. sent_to ipc F new = serialize_connect pid topic @ frames_of topic msgs)
    \<and> cl_stdin s' = [] \<and> cl_out s' = cl_out s \<and> cl_err s' = cl_err s"
proof -
  let ?cmd = "make_empty_command\<lparr>cmd_ipc_identifier := ipc, cmd_type := CONNECT, cmd_topic := topic, cmd_raw := raw\<rparr>"
  have prog: "writes_progress os" using assms(1) by (simp add: os_ready_def)
  have "\<exists>io. (if cmd_raw ?cmd then publish_raw os (cmd_topic ?cmd) w s else publish_text os (cmd_topic ?cmd) w s)
        = Some (0, s\<lparr>cl_stdin := [], cl_io := io\<rparr>)
      \<and> sent w s (frames_of topic msgs) (s\<lparr>cl_stdin := [], cl_io := io\<rparr>)"
    if "FifoWriter_is_open w" "cl_stdin s = input_of raw msgs" "\<not> cl_stdin_fails s" for w s
    using publish_raw_all [OF prog that(1), of msgs s topic] publish_text_all [OF prog that(1), of msgs s topic]
      that assms(4) by (simp add: message_ok_def input_of_def)
  from producer_runs [OF assms(1,5-7), of ?cmd, OF this, of pid]
  show ?thesis
    by (simp add: client_main_def os_ready_installs [OF assms(1)] parse_produce_flag [OF assms(2,3), simplified] make_empty_command_def)
qed

lemma fold_publish:
  "L topic = Some l \<Longrightarrow> fold log_step (map (\<lambda>(k, v). Req_publish topic k v) msgs) L = L(topic \<mapsto> l @ msgs)"
proof (induction msgs arbitrary: L l)
  case (Cons m msgs)
  have "log_step (case m of (k, v) \<Rightarrow> Req_publish topic k v) L = L(topic \<mapsto> l @ [m])"
    using Cons.prems by (simp split: prod.split)
  then have "fold log_step (map (\<lambda>(k, v). Req_publish topic k v) (m # msgs)) L
      = fold log_step (map (\<lambda>(k, v). Req_publish topic k v) msgs) (L(topic \<mapsto> l @ [m]))" by simp
  also have "\<dots> = (L(topic \<mapsto> l @ [m]))(topic \<mapsto> (l @ [m]) @ msgs)" by (rule Cons.IH) simp
  finally show ?case by simp
qed auto

lemma publications_received:
  assumes "server_inv H srv" and "logs H srv topic = Some l" and "is_valid_name topic" and "\<forall>m \<in> set msgs. raw_ok m"
    and "concat chunks = frames_of topic msgs"
  shows "\<exists>srv' io'. receive_all (handle_request H os) chunks ((srv, io), []) = Some ((srv', io'), [])
    \<and> server_inv H srv' \<and> logs H srv' = (logs H srv)(topic \<mapsto> l @ msgs)"
proof -
  let ?rs = "map (\<lambda>(k, v). Req_publish topic k v) msgs"
  have "server_inv H (fst (srv, io))" using assms(1) by simp
  moreover have "request_fits r" if "r \<in> set ?rs" for r
    using that assms(4) valid_name_short [OF assms(3)]
    by (auto simp: request_fits_def produce_ok_def raw_ok_def MAX_PAYLOAD_SIZE_def serialize_produce_eq)
  then have "\<forall>r \<in> set ?rs. request_fits r" by blast
  moreover have "concat (map request_bytes ?rs) = frames_of topic msgs"
    by (induction msgs) auto
  then have "concat chunks = concat (map request_bytes ?rs) @ []" using assms(5) by simp
  moreover have "incomplete []" by (simp add: incomplete_def)
  ultimately obtain s' where s': "receive_all (handle_request H os) chunks ((srv, io), []) = Some (s', [])"
    "server_inv H (fst s')" "logs H (fst s') = fold log_step ?rs (logs H srv)"
    using receive_requests by (metis fst_conv)
  with fold_publish [of "logs H srv" topic l msgs, OF assms(2)] show ?thesis by (cases s') auto
qed

lemma subscriber_program:
  assumes "os_ready os" and "ipc \<noteq> ''''" and "is_valid_name topic" and "is_valid_name c"
    and "\<forall>d \<in> set ds. deliverable d" and "cl_out_good s" and "\<not> cl_shutdown s"
    and "arriving s (serialize_response SUCCESS '''' @ deliveries_of ds @ serialize_shutdown) later"
  shows "\<exists>s' new. client_main os pid ([prog, ipc, ''subscribe'', topic, c] @ render_options p offset raw) s = Some (0, s')
    \<and> cl_io s' = cl_io s @ new
    \<and> (\<forall>F. sent_to ipc F new = serialize_subscribe pid c topic p (case offset of None \<Rightarrow> OFFSET_UNSET | Some n \<Rightarrow> n) @ acks_of c ds)
    \<and> cl_out s' = cl_out s @ concat (map (printed raw) ds)"
proof -
  let ?cmd = "\<lparr>cmd_type = SUBSCRIBE, cmd_ipc_identifier = ipc, cmd_topic = topic, cmd_subscriber = c,
      cmd_prefix = p, cmd_offset = (case offset of None \<Rightarrow> 0 | Some n \<Rightarrow> n),
      cmd_has_offset = (offset \<noteq> None), cmd_raw = raw\<rparr>"
  have prog: "writes_progress os" using assms(1) by (simp add: os_ready_def)
  have loop: "\<exists>s2. subscriber_loop os ?cmd reader w s1 = Some (0, s2)
      \<and> cl_out s2 = cl_out s @ concat (map (printed raw) ds) \<and> sent w s1 (acks_of c ds) s2"
    if "FifoReader_is_open reader" "FifoWriter_is_open w" "arriving s1 (deliveries_of ds @ serialize_shutdown) later"
      "cl_out_good s1 = cl_out_good s" "cl_shutdown s1 = cl_shutdown s" "cl_out s1 = cl_out s" for reader w s1
    using subscriber_shutdown [OF prog that(2,1) _ _ assms(5), of s1 "[]" later ?cmd] that assms(6,7) by simp
  have main: "client_main os pid ([prog, ipc, ''subscribe'', topic, c] @ render_options p offset raw) s
      = execute_subscriber_command os pid ?cmd s"
    unfolding client_main_def parse_rendered [OF assms(2-4)] by (simp add: os_ready_installs [OF assms(1)])
  have start: "(if cmd_has_offset ?cmd then cmd_offset ?cmd else OFFSET_UNSET)
      = (case offset of None \<Rightarrow> OFFSET_UNSET | Some n \<Rightarrow> n)" by (cases offset) simp_all
  have "\<exists>s' new. execute_subscriber_command os pid ?cmd s = Some (0, s') \<and> cl_io s' = cl_io s @ new
    \<and> (\<forall>F. sent_to (cmd_ipc_identifier ?cmd) F new = serialize_subscribe pid (cmd_subscriber ?cmd) (cmd_topic ?cmd)
        (cmd_prefix ?cmd) (if cmd_has_offset ?cmd then cmd_offset ?cmd else OFFSET_UNSET) @ acks_of c ds)
    \<and> cl_out s' = cl_out s @ concat (map (printed raw) ds)"
    by (rule subscriber_runs [OF assms(1,8)]) (rule loop)
  then show ?thesis unfolding main start by simp
qed

end
