(* ===== verification/Pipeline.thy ===== *)
theory Pipeline
  imports Session
begin

text \<open>
  A message on its whole way: from a producer's frames through the server's handlers, the log of the
  topic and the turn of its worker to the FIFO of a subscriber, its output and its acknowledgements,
  and back to the offset that the server keeps. \<open>Session\<close> follows single invocations of the client;
  here the state of the server is followed across several of them.
\<close>

section \<open>What a turn and a shutdown write to one FIFO\<close>

definition turn_events :: "message list \<Rightarrow> active_subscriber \<Rightarrow> io_log" where
  "turn_events msgs sub = (if sub_fifo_fd sub = - 1 then []
     else map (delivery_event (sub_fifo_fd sub))
       (filter (\<lambda>m. prefix (sub_prefix sub) (msg_key m)) (drop (unat (sub_next_offset sub)) msgs)))"

definition shutdown_events :: "active_subscriber \<Rightarrow> io_log" where
  "shutdown_events sub = (if sub_fifo_fd sub = - 1 then []
     else [Write (sub_fifo_fd sub) serialize_shutdown (int (length serialize_shutdown)), Close (sub_fifo_fd sub)])"

definition caught_up :: "message list \<Rightarrow> active_subscriber \<Rightarrow> active_subscriber" where
  "caught_up msgs sub = sub\<lparr>sub_next_offset :=
     (if has_pending msgs sub then word_of_nat (length msgs) else sub_next_offset sub)\<rparr>"

lemma deliver_all_events:
  assumes "writes_succeed os"
  shows "deliver_all os msgs es io =
    (map (\<lambda>(c, sub). (c, caught_up msgs sub)) es, io @ concat (map (turn_events msgs \<circ> snd) es))"
proof (induction es arbitrary: io)
  case (Cons e es)
  obtain c sub where e: "e = (c, sub)" by fastforce
  have "deliver_subscriber os msgs sub io = (caught_up msgs sub, io @ turn_events msgs sub)"
    using deliver_messages_events [OF assms]
    by (cases "sub_fifo_fd sub = - 1") (simp_all add: deliver_subscriber_def turn_events_def caught_up_def)
  with Cons.IH show ?case by (simp add: e)
qed simp

lemma shutdown_all_events:
  assumes "writes_succeed os"
  shows "shutdown_all os subs io = io @ concat (map shutdown_events subs)"
  using assms by (induction subs arbitrary: io) (simp_all add: shutdown_events_def writes_succeed_def)

text \<open>Events for a subscriber that leave every FIFO alone but its own.\<close>

definition keeps_to_own :: "(active_subscriber \<Rightarrow> io_log) \<Rightarrow> bool" where
  "keeps_to_own f \<longleftrightarrow> (\<forall>path F sub. sub_fifo_fd sub \<notin> F \<longrightarrow> sent_to path F (f sub) = [] \<and> open_on path F (f sub) = F)"

lemma sent_to_deliveries:
  "sent_to path F (map (delivery_event fd) ms) = (if fd \<in> F then written fd (map (delivery_event fd) ms) else [])"
  "open_on path F (map (delivery_event fd) ms) = F"
proof -
  have only: "only_writes fd (map (delivery_event fd) ms)"
    by (induction ms) (simp_all add: delivery_event_def Let_def)
  show "open_on path F (map (delivery_event fd) ms) = F" using only_writes_sent(1) [OF only] .
  have "fd \<notin> F \<Longrightarrow> sent_to path F (map (delivery_event fd) ms) = []"
    by (induction ms) (simp_all add: delivery_event_def Let_def)
  then show "sent_to path F (map (delivery_event fd) ms) = (if fd \<in> F then written fd (map (delivery_event fd) ms) else [])"
    using only_writes_sent(2) [OF only] by simp
qed

lemma keeps_to_events: "keeps_to_own (turn_events msgs)" "keeps_to_own shutdown_events"
  by (auto simp: keeps_to_own_def turn_events_def shutdown_events_def sent_to_deliveries)

lemma keeps_to_others:
  assumes "keeps_to_own f" and "\<forall>sub \<in> set subs. sub_fifo_fd sub \<notin> F"
  shows "sent_to path F (concat (map f subs)) = [] \<and> open_on path F (concat (map f subs)) = F"
  using assms(2)
proof (induction subs)
  case (Cons sub subs)
  with assms(1) have "sent_to path F (f sub) = []" "open_on path F (f sub) = F" by (auto simp: keeps_to_own_def)
  with Cons show ?case by simp
qed simp

lemma keeps_to_one:
  assumes "keeps_to_own f" and "(c, sub) \<in> set es" and "distinct (map fst es)"
    and "\<forall>c' sub'. (c', sub') \<in> set es \<longrightarrow> c' \<noteq> c \<longrightarrow> sub_fifo_fd sub' \<noteq> fd"
    and "open_on path {fd} (f sub) \<subseteq> {fd}"
  shows "sent_to path {fd} (concat (map (f \<circ> snd) es)) = sent_to path {fd} (f sub)
    \<and> open_on path {fd} (concat (map (f \<circ> snd) es)) = open_on path {fd} (f sub)"
proof -
  obtain xs ys where es: "es = xs @ (c, sub) # ys" using assms(2) by (meson split_list)
  have others: "sub_fifo_fd s \<noteq> fd" if "s \<in> set (map snd (xs @ ys))" for s
  proof -
    from that obtain c' where in': "(c', s) \<in> set (xs @ ys)" by (metis imageE list.set_map prod.collapse)
    then have "c' \<noteq> c" using assms(3) by (force simp: es)
    with in' assms(4) show ?thesis by (auto simp: es)
  qed
  have "sent_to path {fd} (concat (map f (map snd xs))) = [] \<and> open_on path {fd} (concat (map f (map snd xs))) = {fd}"
    using others by (intro keeps_to_others assms(1)) auto
  moreover have "sent_to path F (concat (map f (map snd ys))) = [] \<and> open_on path F (concat (map f (map snd ys))) = F"
    if "F \<subseteq> {fd}" for F
    using others that by (intro keeps_to_others assms(1)) auto
  ultimately show ?thesis using assms(5) by (simp add: es comp_def)
qed


section \<open>Subscribing\<close>

text \<open>A server whose clients' FIFOs can also be opened without waiting.\<close>

definition server_opens :: "os \<Rightarrow> bool" where
  "server_opens os \<longleftrightarrow> server_reaches os \<and> (\<forall>io path. os_open_wr_nb os io path \<ge> 0)"

text \<open>A descriptor that is opened is not one that a subscriber of the topic still holds.\<close>

definition descriptors_fresh :: "hashes \<Rightarrow> os \<Rightarrow> topic \<Rightarrow> bool" where
  "descriptors_fresh H os t \<longleftrightarrow>
     (\<forall>c sub io path. find_sub H t c = Some sub \<longrightarrow> os_open_wr_nb os io path \<noteq> sub_fifo_fd sub)"

text \<open>A client that the server does not know, or that has left this topic.\<close>

definition away :: "hashes \<Rightarrow> server \<Rightarrow> string \<Rightarrow> string \<Rightarrow> bool" where
  "away H srv c name \<longleftrightarrow> (\<forall>m. client_of H srv c = Some m \<longrightarrow> \<not> meta_is_active m \<and> meta_topic m = name)"

lemma away_unsubscribed:
  assumes "server_inv H srv" and "get_topic H srv name = Some t" and "away H srv c name"
  shows "find_sub H t c = None"
proof (rule ccontr)
  assume "find_sub H t c \<noteq> None"
  then obtain sub m where "client_of H srv c = Some m" "sub_matches name sub m"
    using consistentD(7) [OF server_invD(2) [OF assms(1)] assms(2)] by blast
  with assms(3) show False by (auto simp: away_def sub_matches_def)
qed

lemma add_new_subscriber:
  assumes "topic_inv H t" and "find_sub H t c = None" and "os_open_wr_nb os io path \<noteq> - 1"
  shows "\<exists>t'. Topic_add_subscriber H os t c p path off io = Some (True, t', io @ [Open_wr_nb path (os_open_wr_nb os io path)])
    \<and> find_sub H t' = (find_sub H t)(c \<mapsto> \<lparr>sub_client_id = c, sub_prefix = p, sub_fifo_path = path,
        sub_fifo_fd = os_open_wr_nb os io path, sub_next_offset = off\<rparr>)
    \<and> topic_inv H t' \<and> same_topic t t'"
proof -
  have "hm_inv (hash_string H) (topic_subs t)" using assms(1) by (simp add: topic_inv_def)
  note ins = insert_correct(3) [OF this, of c]
  from Topic_add_subscriber_correct [OF assms(1), of os c p path off io] obtain b t' io'
    where "Topic_add_subscriber H os t c p path off io = Some (b, t', io')" "topic_inv H t'" "same_topic t t'" by blast
  with assms(2,3) ins show ?thesis
    by (auto simp: Topic_add_subscriber_def sys_open_wr_nb_def Let_def)
qed

lemma subscription_received:
  assumes "server_opens os" and "server_inv H srv" and "get_topic H srv name = Some t"
    and "is_valid_name c" and "away H srv c name" and "length (serialize_subscribe pid c name p req) < 2 ^ 32"
  shows "\<exists>srv1 t1 new fd. (\<forall>chunks. concat chunks = serialize_subscribe pid c name p req \<longrightarrow>
        receive_all (handle_request H os) chunks ((srv, io), []) = Some ((srv1, io @ new), []))
    \<and> server_inv H srv1 \<and> get_topic H srv1 = (get_topic H srv)(name \<mapsto> t1) \<and> same_topic t t1
    \<and> find_sub H t1 = (find_sub H t)(c \<mapsto> \<lparr>sub_client_id = c, sub_prefix = p, sub_fifo_path = client_fifo_path pid,
        sub_fifo_fd = fd, sub_next_offset = subscribe_offset (client_of H srv c) req\<rparr>)
    \<and> fd \<ge> 0 \<and> (\<exists>io'. fd = os_open_wr_nb os io' (client_fifo_path pid))
    \<and> sent_to (client_fifo_path pid) {} new = serialize_response SUCCESS ''''
    \<and> open_on (client_fifo_path pid) {} new = {fd}
    \<and> map_option meta_offset (client_of H srv1 c) = Some (subscribe_offset (client_of H srv c) req)"
proof -
  let ?path = "client_fifo_path pid" and ?off = "subscribe_offset (client_of H srv c) req"
  note inv = assms(2) and t = assms(3)
  have reach: "server_reaches os" using assms(1) by (simp add: server_opens_def)
  have valid: "is_valid_identifier c" "is_valid_identifier name"
    using assms(4) consistentD(3) [OF server_invD(2) [OF inv] t] by (simp_all add: valid_name_identifier)
  then have short: "length c \<le> 32" "length name \<le> 32" by (simp_all add: valid_name_short flip: valid_name_identifier)
  have "subscribe_ok (pid, c, name, p, req)"
    using assms(6) short by (simp add: subscribe_ok_def serialize_subscribe_eq)
  from subscribe_codec.framed [OF this] obtain payload
    where frame: "serialize_subscribe pid c name p req = command_code SUBSCRIBE # u32le (word_of_nat (length payload)) @ payload"
      and parsed: "parse_subscribe payload (length payload) = Some (Parsed (pid, c, name, p, req))" by auto
  have "\<not> is_duplicate os (client_of H srv c) io" and calm: "\<forall>m. client_of H srv c = Some m \<longrightarrow> \<not> meta_is_active m"
    using assms(5) by (auto simp: is_duplicate_def away_def split: option.splits)
  from handle_subscribe_accepted [OF inv parsed valid t this(1)] calm obtain srv1 io2 b t1
    where res: "handle_subscriber_connect H os (srv, io) payload (length payload) = Some (srv1, io2)" "server_inv H srv1"
        "get_topic H srv1 = (get_topic H srv)(name \<mapsto> t1)"
      and add: "Topic_add_subscriber H os t c p ?path ?off (send_response os pid SUCCESS '''' io) = Some (b, t1, io2)"
      and client: "client_of H srv1 = (client_of H srv)(c \<mapsto> \<lparr>meta_client_id = c, meta_topic = name,
        meta_offset = ?off, meta_prefix = p, meta_ipc_path = ?path, meta_is_active = True\<rparr>)"
    by metis
  obtain n1 where n1: "send_response os pid SUCCESS '''' io = io @ n1"
    "sent_to ?path {} n1 = serialize_response SUCCESS ''''" "open_on ?path {} n1 = {}"
    using send_response_events [OF reach, of pid SUCCESS "''''" io] by blast
  let ?fd = "os_open_wr_nb os (io @ n1) ?path"
  have fd: "?fd \<ge> 0" using assms(1) by (simp add: server_opens_def)
  then have "?fd \<noteq> - 1" by linarith
  from add_new_subscriber [OF consistentD(1) [OF server_invD(2) [OF inv] t] away_unsubscribed [OF inv t assms(5)] this, of p ?off]
    add n1(1)
  have io2: "io2 = io @ n1 @ [Open_wr_nb ?path ?fd]" and same: "same_topic t t1"
    and subs: "find_sub H t1 = (find_sub H t)(c \<mapsto> \<lparr>sub_client_id = c, sub_prefix = p, sub_fifo_path = ?path,
        sub_fifo_fd = ?fd, sub_next_offset = ?off\<rparr>)" by auto
  have "receive_all (handle_request H os) chunks ((srv, io), []) = Some ((srv1, io2), [])"
    if "concat chunks = serialize_subscribe pid c name p req" for chunks
  proof -
    have "5 + length payload < 2 ^ 32" using assms(6) frame by simp
    from single_request [OF that [unfolded frame] this, of H os "(srv, io)"] res(1)
    show ?thesis by (simp add: handle_request_def)
  qed
  then show ?thesis
    using res(2,3) same subs fd n1 client
    by (intro exI [of _ srv1] exI [of _ t1] exI [of _ "n1 @ [Open_wr_nb ?path ?fd]"] exI [of _ ?fd]) (auto simp: io2)
qed

section \<open>Publishing\<close>

abbreviation append_all :: "(string \<times> string) list \<Rightarrow> topic \<Rightarrow> topic" where
  "append_all \<equiv> fold (\<lambda>(k, v) t. Topic_append_message t k v)"

lemma append_all_fields:
  "topic_subs (append_all msgs t) = topic_subs t" "topic_stop (append_all msgs t) = topic_stop t"
  "topic_log (append_all msgs t) = topic_log t @ msgs" "topic_inv H t \<Longrightarrow> topic_inv H (append_all msgs t)"
  by (induction msgs arbitrary: t) (auto simp: topic_inv_append)

definition publishes :: "string \<Rightarrow> string \<times> string \<Rightarrow> u8 \<times> u8 list \<Rightarrow> bool" where
  "publishes name m f \<longleftrightarrow> fst f = 5 \<and> fits_frame f
     \<and> parse_produce (snd f) (length (snd f)) = Some (Parsed (name, fst m, snd m))"

lemma frames_published:
  assumes "is_valid_name name" and "\<forall>m \<in> set msgs. raw_ok m"
  shows "\<exists>fs. list_all2 (publishes name) msgs fs \<and> frames_of name msgs = concat (map request_frame fs)"
  using assms(2)
proof (induction msgs)
  case (Cons m msgs)
  then obtain fs where fs: "list_all2 (publishes name) msgs fs" "frames_of name msgs = concat (map request_frame fs)" by auto
  obtain k v where m: "m = (k, v)" by fastforce
  have ok: "produce_ok (name, k, v)"
    using Cons.prems m valid_name_short [OF assms(1)] by (simp add: produce_ok_def raw_ok_def MAX_PAYLOAD_SIZE_def)
  then obtain payload where frame: "serialize_produce name k v = command_code PRODUCE # u32le (word_of_nat (length payload)) @ payload"
    and parsed: "parse_produce payload (length payload) = Some (Parsed (name, k, v))"
    using produce_codec.framed [of "(name, k, v)"] by auto
  have "length (serialize_produce name k v) < 2 ^ 32"
    using Cons.prems valid_name_short [OF assms(1)] by (simp add: m raw_ok_def MAX_PAYLOAD_SIZE_def serialize_produce_eq)
  then have "publishes name m (5, payload)" using frame parsed by (simp add: publishes_def fits_frame_def m request_frame_def)
  moreover have "request_frame (5, payload) = serialize_produce name k v" by (simp add: frame request_frame_def)
  ultimately show ?case using fs by (intro exI [of _ "(5, payload) # fs"]) (simp add: m)
qed simp

lemma handle_published:
  assumes "list_all2 (publishes name) msgs fs" and "server_inv H srv" and "get_topic H srv name = Some t"
  shows "\<exists>srv'. handle_all (handle_request H os) fs (srv, io) = Some (srv', io) \<and> server_inv H srv'
    \<and> get_topic H srv' = (get_topic H srv)(name \<mapsto> append_all msgs t) \<and> client_of H srv' = client_of H srv"
  using assms
proof (induction arbitrary: srv t rule: list_all2_induct)
  case Nil
  then show ?case by (auto simp: fun_upd_idem)
next
  case (Cons m msgs f fs)
  let ?t = "Topic_append_message t (fst m) (snd m)"
  from Cons.hyps(1) have f: "fst f = 5" and parsed: "parse_produce (snd f) (length (snd f)) = Some (Parsed (name, fst m, snd m))"
    by (simp_all add: publishes_def)
  from handle_publish_correct [OF Cons.prems(1) parsed, of io] Cons.prems(2) obtain srv1
    where one: "handle_publish H (srv, io) (snd f) (length (snd f)) = Some (srv1, io)" "server_inv H srv1"
      and get1: "get_topic H srv1 = (get_topic H srv)(name \<mapsto> ?t)" and same: "client_of H srv1 = client_of H srv" by auto
  from get1 have "get_topic H srv1 name = Some ?t" by simp
  from Cons.IH [OF one(2) this] obtain srv'
    where "handle_all (handle_request H os) fs (srv1, io) = Some (srv', io)" "server_inv H srv'"
      "get_topic H srv' = (get_topic H srv1)(name \<mapsto> append_all msgs ?t)" "client_of H srv' = client_of H srv1" by blast
  moreover have "handle_request H os (srv, io) (fst f) (snd f) (length (snd f)) = Some (srv1, io)"
    using one(1) f by (simp add: handle_request_def)
  ultimately show ?case using get1 same by (intro exI [of _ srv']) (cases m, simp)
qed

lemma publications_handled:
  assumes "server_inv H srv" and "get_topic H srv name = Some t" and "is_valid_name name" and "\<forall>m \<in> set msgs. raw_ok m"
  shows "\<exists>srv'. (\<forall>chunks. concat chunks = frames_of name msgs \<longrightarrow>
        receive_all (handle_request H os) chunks ((srv, io), []) = Some ((srv', io), []))
    \<and> server_inv H srv' \<and> get_topic H srv' = (get_topic H srv)(name \<mapsto> append_all msgs t)
    \<and> client_of H srv' = client_of H srv"
proof -
  from frames_published [OF assms(3,4)] obtain fs where fs: "list_all2 (publishes name) msgs fs"
    and eq: "frames_of name msgs = concat (map request_frame fs)" by blast
  have fit: "\<forall>f \<in> set fs. fits_frame f" using fs by (induction rule: list_all2_induct) (auto simp: publishes_def)
  have none: "incomplete []" by (simp add: incomplete_def)
  from handle_published [OF fs assms(1,2), of os io] obtain srv'
    where srv': "handle_all (handle_request H os) fs (srv, io) = Some (srv', io)" "server_inv H srv'"
      "get_topic H srv' = (get_topic H srv)(name \<mapsto> append_all msgs t)" "client_of H srv' = client_of H srv" by blast
  have "receive_all (handle_request H os) chunks ((srv, io), []) = Some ((srv', io), [])"
    if "concat chunks = frames_of name msgs" for chunks
    using requests.receive_all_stream [of "[]" chunks fs "[]" H os "(srv, io)", OF _ fit none none] that eq srv'(1) by simp
  with srv'(2-4) show ?thesis by blast
qed


section \<open>Delivering\<close>

text \<open>What a subscriber is to be sent: the messages from its offset on that extend its prefix.\<close>

definition matching :: "topic \<Rightarrow> active_subscriber \<Rightarrow> message list" where
  "matching t sub = filter (\<lambda>m. prefix (sub_prefix sub) (msg_key m)) (drop (unat (sub_next_offset sub)) (topic_messages t))"

abbreviation delivery_of :: "message \<Rightarrow> u32 \<times> string \<times> string" where
  "delivery_of m \<equiv> (msg_offset m, msg_key m, msg_value m)"

lemma written_deliveries: "written fd (map (delivery_event fd) ms) = deliveries_of (map delivery_of ms)"
  by (induction ms) (simp_all add: delivery_event_def Let_def)

lemma messages_deliverable:
  assumes "topic_inv H t" and "length (topic_messages t) < 2 ^ 32 - 1"
    and "\<forall>m \<in> set (topic_messages t). raw_ok (msg_key m, msg_value m)"
    and "m \<in> set (topic_messages t)"
  shows "deliverable (delivery_of m)"
proof -
  from assms(4) obtain i where i: "i < length (topic_messages t)" "m = topic_messages t ! i"
    by (metis in_set_conv_nth)
  then have "msg_offset m = word_of_nat i" using assms(1) by (simp add: topic_inv_def)
  moreover have "unat (word_of_nat i :: u32) \<noteq> unat SHUTDOWN_OFFSET"
    using i(1) assms(2) by (simp add: SHUTDOWN_OFFSET_def)
  ultimately show ?thesis using assms(3,4) by (auto simp: deliverable_def)
qed

text \<open>The same over the log of the topic, in which a message's offset is its position.\<close>

definition numbered :: "(string \<times> string) list \<Rightarrow> (u32 \<times> string \<times> string) list" where
  "numbered l = map (\<lambda>(i, m). (word_of_nat i, m)) (enumerate 0 l)"

definition due :: "(string \<times> string) list \<Rightarrow> u32 \<Rightarrow> string \<Rightarrow> (u32 \<times> string \<times> string) list" where
  "due l start p = filter (\<lambda>(_, k, _). prefix p k) (drop (unat start) (numbered l))"

lemma numbered_log: "topic_inv H t \<Longrightarrow> map delivery_of (topic_messages t) = numbered (topic_log t)"
  by (rule nth_equalityI) (simp_all add: numbered_def topic_log_def topic_inv_def nth_enumerate_eq)

lemma matching_due:
  assumes "topic_inv H t"
  shows "map delivery_of (matching t sub) = due (topic_log t) (sub_next_offset sub) (sub_prefix sub)"
proof -
  have "due (topic_log t) (sub_next_offset sub) (sub_prefix sub) =
      filter (\<lambda>(_, k, _). prefix (sub_prefix sub) k) (map delivery_of (drop (unat (sub_next_offset sub)) (topic_messages t)))"
    by (simp add: due_def drop_map flip: numbered_log [OF assms])
  then show ?thesis by (simp add: matching_def filter_map comp_def)
qed

lemma due_deliverable:
  assumes "length l < 2 ^ 32 - 1" and "\<forall>m \<in> set l. raw_ok m" and "d \<in> set (due l start p)"
  shows "deliverable d"
proof -
  have "d \<in> set (numbered l)" using assms(3) by (auto simp: due_def dest: in_set_dropD)
  then obtain i where i: "i < length l" "d = (word_of_nat i, l ! i)"
    by (auto simp: numbered_def in_set_enumerate_eq)
  moreover have "unat (word_of_nat i :: u32) \<noteq> unat SHUTDOWN_OFFSET"
    using i(1) assms(1) by (simp add: SHUTDOWN_OFFSET_def)
  ultimately show ?thesis using assms(2) by (auto simp: deliverable_def)
qed

lemma turn_and_shutdown:
  assumes "topic_inv H t" and "\<not> topic_stop t" and "length (topic_log t) < 2 ^ 32" and "writes_succeed os"
    and "find_sub H t c = Some sub" and "sub_fifo_fd sub = fd" and "fd \<noteq> - 1"
    and "\<forall>c' sub'. find_sub H t c' = Some sub' \<longrightarrow> c' \<noteq> c \<longrightarrow> sub_fifo_fd sub' \<noteq> fd"
  shows "\<exists>t1 t2 n1 n2. Topic_run_iteration H os t io = Some (t1, io @ n1)
    \<and> Topic_shutdown os t1 (io @ n1) = Some (t2, io @ n1 @ n2)
    \<and> sent_to path {fd} n1 = deliveries_of (due (topic_log t) (sub_next_offset sub) (sub_prefix sub))
    \<and> open_on path {fd} n1 = {fd} \<and> sent_to path {fd} n2 = serialize_shutdown"
proof -
  let ?es = "HashMap_entries (topic_subs t)" and ?msgs = "topic_messages t"
  let ?es1 = "map (\<lambda>(c, sub). (c, caught_up ?msgs sub)) ?es"
  have hm: "hm_inv (hash_string H) (topic_subs t)" using assms(1) by (simp add: topic_inv_def)
  have "length ?msgs < 2 ^ 32" using assms(3) by (simp add: topic_log_def)
  from Topic_run_iteration_correct [OF assms(1,2) this deliver_all_events [OF assms(4)]] obtain t1
    where run: "Topic_run_iteration H os t io = Some (t1, io @ concat (map (turn_events ?msgs \<circ> snd) ?es))"
      and es1: "HashMap_entries (topic_subs t1) = ?es1" and t1: "same_topic t t1" "topic_inv H t1" by blast
  from t1(1) assms(2) have "\<not> topic_stop t1" by (simp add: same_topic_def)
  from Topic_shutdown_correct [OF t1(2) this, of os "io @ concat (map (turn_events ?msgs \<circ> snd) ?es)"] obtain t2
    where stop: "Topic_shutdown os t1 (io @ concat (map (turn_events ?msgs \<circ> snd) ?es)) =
      Some (t2, io @ concat (map (turn_events ?msgs \<circ> snd) ?es) @ concat (map (shutdown_events \<circ> snd) ?es1))"
    by (auto simp: es1 shutdown_all_events [OF assms(4)] comp_assoc)
  have mem: "(c, sub) \<in> set ?es" and others: "\<forall>c' sub'. (c', sub') \<in> set ?es \<longrightarrow> c' \<noteq> c \<longrightarrow> sub_fifo_fd sub' \<noteq> fd"
    using assms(5,8) by (auto simp: hm.in_entries [OF hm])
  have dist: "distinct (map fst ?es)" by (rule hm.distinct_entries [OF hm])
  have own: "turn_events ?msgs sub = map (delivery_event fd) (matching t sub)"
    using assms(6,7) by (simp add: turn_events_def matching_def)
  then have "open_on path {fd} (turn_events ?msgs sub) = {fd}" by (simp add: sent_to_deliveries)
  with keeps_to_one [OF keeps_to_events(1) mem dist others, of path ?msgs] own matching_due [OF assms(1), of sub]
  have n1: "sent_to path {fd} (concat (map (turn_events ?msgs \<circ> snd) ?es))
      = deliveries_of (due (topic_log t) (sub_next_offset sub) (sub_prefix sub))"
    "open_on path {fd} (concat (map (turn_events ?msgs \<circ> snd) ?es)) = {fd}"
    by (simp_all add: sent_to_deliveries written_deliveries)
  have "shutdown_events (caught_up ?msgs s) = shutdown_events s" for s
    by (simp add: shutdown_events_def caught_up_def)
  then have keep: "map (shutdown_events \<circ> snd) ?es1 = map (shutdown_events \<circ> snd) ?es"
    by (simp add: case_prod_beta)
  have "shutdown_events sub = [Write fd serialize_shutdown (int (length serialize_shutdown)), Close fd]"
    using assms(6,7) by (simp add: shutdown_events_def)
  with keeps_to_one [OF keeps_to_events(2) mem dist others, of path]
  have "sent_to path {fd} (concat (map (shutdown_events \<circ> snd) ?es1)) = serialize_shutdown"
    unfolding keep by simp
  with run stop n1 show ?thesis by blast
qed

section \<open>Acknowledging\<close>

text \<open>The acknowledgements of a subscriber leave the offset after the last of its deliveries.\<close>

definition resume_at :: "u32 \<Rightarrow> (u32 \<times> string \<times> string) list \<Rightarrow> u32" where
  "resume_at start ds = (if ds = [] then start else fst (last ds) + 1)"

lemma commits_run:
  assumes "length busy = length ds" and "ab_clients B c = Some m"
  shows "ab_clients (broker_run busy (map (\<lambda>d. Req_commit c (fst d + 1)) ds) B)
    = (ab_clients B)(c \<mapsto> m\<lparr>meta_offset := resume_at (meta_offset m) ds\<rparr>)"
  using assms
proof (induction busy ds arbitrary: B m rule: list_induct2)
  case (Cons b busy d ds)
  let ?B = "B\<lparr>ab_clients := (ab_clients B)(c \<mapsto> m\<lparr>meta_offset := fst d + 1\<rparr>)\<rparr>"
  have "ab_clients ?B c = Some (m\<lparr>meta_offset := fst d + 1\<rparr>)" by simp
  from Cons.IH [OF this] Cons.prems show ?case by (auto simp: resume_at_def fun_eq_iff)
qed (simp add: resume_at_def fun_upd_idem)

lemma acks_received:
  assumes "server_inv H srv" and "client_of H srv c = Some m" and "length c \<le> 32" and "concat chunks = acks_of c ds"
  shows "\<exists>srv' io'. receive_all (handle_request H os) chunks ((srv, io), []) = Some ((srv', io'), [])
    \<and> server_inv H srv' \<and> logs H srv' = logs H srv
    \<and> client_of H srv' = (client_of H srv)(c \<mapsto> m\<lparr>meta_offset := resume_at (meta_offset m) ds\<rparr>)"
proof -
  let ?rs = "map (\<lambda>d. Req_commit c (fst d + 1)) ds"
  have inv: "server_inv H (fst (srv, io))" using assms(1) by simp
  have fits: "\<forall>r \<in> set ?rs. request_fits r"
    using assms(3) by (auto simp: request_fits_def ack_ok_def serialize_ack_eq)
  have eq: "concat chunks = concat (map request_bytes ?rs) @ []" using assms(4) by (simp add: comp_def)
  from receive_requests [OF inv fits eq, of os] obtain s' busy
    where s': "receive_all (handle_request H os) chunks ((srv, io), []) = Some (s', [])" "server_inv H (fst s')"
      "logs H (fst s') = fold log_step ?rs (logs H srv)" "length busy = length ?rs"
      and view: "view H (fst s') = broker_run busy ?rs (view H srv)" by (auto simp: incomplete_def)
  have "fold log_step ?rs L = L" for L by (induction ds) simp_all
  moreover from commits_run [of busy ds "view H srv" c m] s'(4) assms(2) view
  have "client_of H (fst s') = (client_of H srv)(c \<mapsto> m\<lparr>meta_offset := resume_at (meta_offset m) ds\<rparr>)"
    by (metis broker.select_convs(2) length_map view_def)
  ultimately show ?thesis using s' by (cases s') auto
qed


section \<open>The whole way\<close>

text \<open>The offset that a subscription asks for, if its command gives none.\<close>

abbreviation requested :: "u32 option \<Rightarrow> u32" where
  "requested offset \<equiv> (case offset of None \<Rightarrow> OFFSET_UNSET | Some n \<Rightarrow> n)"

lemma pipeline:
  fixes offset :: "u32 option" and pid :: u32
  assumes "os_ready os" and "server_opens server_os" and "server_inv H srv" and "get_topic H srv topic = Some t"
    and "\<not> topic_stop t" and "descriptors_fresh H server_os t"
    and "ipc \<noteq> ''''" and "is_valid_name topic" and "is_valid_name c" and "away H srv c topic"
    and "length (serialize_subscribe pid c topic p (requested offset)) < 2 ^ 32"
    and "\<forall>m \<in> set (topic_log t @ msgs). raw_ok m" and "length (topic_log t @ msgs) < 2 ^ 32 - 1"
  defines "start \<equiv> subscribe_offset (client_of H srv c) (requested offset)"
  defines "ds \<equiv> due (topic_log t @ msgs) start p"
  shows "\<exists>srv1 srv2 t2 t3 t4 n1 n2 n3.
    (\<forall>chunks. concat chunks = serialize_subscribe pid c topic p (requested offset) \<longrightarrow>
        receive_all (handle_request H server_os) chunks ((srv, io), []) = Some ((srv1, io @ n1), []))
    \<and> (\<forall>chunks. concat chunks = frames_of topic msgs \<longrightarrow>
        receive_all (handle_request H server_os) chunks ((srv1, io @ n1), []) = Some ((srv2, io @ n1), []))
    \<and> get_topic H srv2 topic = Some t2
    \<and> Topic_run_iteration H server_os t2 (io @ n1) = Some (t3, io @ n1 @ n2)
    \<and> Topic_shutdown server_os t3 (io @ n1 @ n2) = Some (t4, io @ n1 @ n2 @ n3)
    \<and> sent_to (client_fifo_path pid) {} (n1 @ n2 @ n3) = serialize_response SUCCESS '''' @ deliveries_of ds @ serialize_shutdown
    \<and> (\<forall>s later. arriving s (sent_to (client_fifo_path pid) {} (n1 @ n2 @ n3)) later \<and> cl_out_good s \<and> \<not> cl_shutdown s \<longrightarrow>
        (\<exists>s' new. client_main os pid ([prog, ipc, ''subscribe'', topic, c] @ render_options p offset raw) s = Some (0, s')
          \<and> cl_io s' = cl_io s @ new \<and> cl_out s' = cl_out s @ concat (map (printed raw) ds)
          \<and> (\<forall>F. sent_to ipc F new = serialize_subscribe pid c topic p (requested offset) @ acks_of c ds)))
    \<and> (\<forall>chunks io. concat chunks = acks_of c ds \<longrightarrow>
        (\<exists>srv' io'. receive_all (handle_request H server_os) chunks ((srv2, io), []) = Some ((srv', io'), [])
          \<and> map_option meta_offset (client_of H srv' c) = Some (resume_at start ds)))"
proof -
  let ?path = "client_fifo_path pid"
  have writes: "writes_succeed server_os" using assms(2) by (simp add: server_opens_def server_reaches_def)
  from subscription_received [OF assms(2-4,9,10,11), of io, folded start_def] obtain srv1 t1 n1 fd
    where sub: "\<forall>chunks. concat chunks = serialize_subscribe pid c topic p (requested offset) \<longrightarrow>
        receive_all (handle_request H server_os) chunks ((srv, io), []) = Some ((srv1, io @ n1), [])"
      and inv1: "server_inv H srv1" and get1: "get_topic H srv1 = (get_topic H srv)(topic \<mapsto> t1)" and same: "same_topic t t1"
      and subs: "find_sub H t1 = (find_sub H t)(c \<mapsto> \<lparr>sub_client_id = c, sub_prefix = p, sub_fifo_path = ?path,
        sub_fifo_fd = fd, sub_next_offset = start\<rparr>)"
      and fd: "fd \<ge> 0" "\<exists>io'. fd = os_open_wr_nb server_os io' ?path"
      and n1: "sent_to ?path {} n1 = serialize_response SUCCESS ''''" "open_on ?path {} n1 = {fd}"
      and off: "map_option meta_offset (client_of H srv1 c) = Some start" by blast
  have get1': "get_topic H srv1 topic = Some t1" by (simp add: get1)
  have log1: "topic_log t1 = topic_log t" using same by (rule topic_log_same)
  let ?t2 = "append_all msgs t1"
  have raw: "\<forall>m \<in> set msgs. raw_ok m" using assms(12) by simp
  from publications_handled [OF inv1 get1' assms(8) raw, of server_os "io @ n1"] obtain srv2
    where pub: "\<forall>chunks. concat chunks = frames_of topic msgs \<longrightarrow>
        receive_all (handle_request H server_os) chunks ((srv1, io @ n1), []) = Some ((srv2, io @ n1), [])"
      and inv2: "server_inv H srv2" and upd2: "get_topic H srv2 = (get_topic H srv1)(topic \<mapsto> ?t2)"
      and clients: "client_of H srv2 = client_of H srv1" by blast
  have get2: "get_topic H srv2 topic = Some ?t2" by (simp add: upd2)
  note t2 = append_all_fields(1-3) [of msgs t1] append_all_fields(4) [of H t1 msgs]
  let ?sub = "\<lparr>sub_client_id = c, sub_prefix = p, sub_fifo_path = ?path, sub_fifo_fd = fd, sub_next_offset = start\<rparr>"
  have inv_t: "topic_inv H ?t2" using consistentD(1) [OF server_invD(2) [OF inv1] get1'] by (rule t2(4))
  have going: "\<not> topic_stop ?t2" using assms(5) same by (simp add: t2(2) same_topic_def)
  have small: "length (topic_log ?t2) < 2 ^ 32" using assms(13) by (simp add: t2(3) log1)
  have found: "find_sub H ?t2 c = Some ?sub" by (simp add: t2(1) subs)
  have open_fd: "sub_fifo_fd ?sub = fd" "fd \<noteq> - 1" using fd(1) by simp_all
  have others: "\<forall>c' sub'. find_sub H ?t2 c' = Some sub' \<longrightarrow> c' \<noteq> c \<longrightarrow> sub_fifo_fd sub' \<noteq> fd"
    using fd(2) assms(6) by (simp add: t2(1) subs) (metis descriptors_fresh_def)
  have ds: "due (topic_log ?t2) (sub_next_offset ?sub) (sub_prefix ?sub) = ds" by (simp add: ds_def t2(3) log1)
  from turn_and_shutdown [where io = "io @ n1" and path = ?path, OF inv_t going small writes found open_fd others, unfolded ds append_assoc]
  obtain t3 t4 n2 n3 where turn: "Topic_run_iteration H server_os ?t2 (io @ n1) = Some (t3, io @ n1 @ n2)"
      and stop: "Topic_shutdown server_os t3 (io @ n1 @ n2) = Some (t4, io @ n1 @ n2 @ n3)"
      and n2: "sent_to ?path {fd} n2 = deliveries_of ds" "open_on ?path {fd} n2 = {fd}"
      and n3: "sent_to ?path {fd} n3 = serialize_shutdown" by blast
  have stream: "sent_to ?path {} (n1 @ n2 @ n3) = serialize_response SUCCESS '''' @ deliveries_of ds @ serialize_shutdown"
    by (simp add: n1 n2 n3)
  have "\<forall>d \<in> set ds. deliverable d" using due_deliverable [OF assms(13,12)] by (simp add: ds_def)
  note client = subscriber_program [OF assms(1,7,8,9) this]
  have prints: "\<exists>s' new. client_main os pid ([prog, ipc, ''subscribe'', topic, c] @ render_options p offset raw) s = Some (0, s')
      \<and> cl_io s' = cl_io s @ new \<and> cl_out s' = cl_out s @ concat (map (printed raw) ds)
      \<and> (\<forall>F. sent_to ipc F new = serialize_subscribe pid c topic p (requested offset) @ acks_of c ds)"
    if "arriving s (sent_to ?path {} (n1 @ n2 @ n3)) later" "cl_out_good s" "\<not> cl_shutdown s" for s later
    using client [OF that(2,3), of later pid prog p offset raw] that(1) unfolding stream by blast
  obtain m where m: "client_of H srv2 c = Some m" "meta_offset m = start" using off clients by auto
  have acks: "\<exists>srv' io'. receive_all (handle_request H server_os) chunks ((srv2, io), []) = Some ((srv', io'), [])
      \<and> map_option meta_offset (client_of H srv' c) = Some (resume_at start ds)"
    if "concat chunks = acks_of c ds" for chunks io
    using acks_received [OF inv2 m(1) valid_name_short [OF assms(9)] that, of server_os io] m(2) by fastforce
  have prints': "\<forall>s later. arriving s (sent_to ?path {} (n1 @ n2 @ n3)) later \<and> cl_out_good s \<and> \<not> cl_shutdown s \<longrightarrow>
      (\<exists>s' new. client_main os pid ([prog, ipc, ''subscribe'', topic, c] @ render_options p offset raw) s = Some (0, s')
        \<and> cl_io s' = cl_io s @ new \<and> cl_out s' = cl_out s @ concat (map (printed raw) ds)
        \<and> (\<forall>F. sent_to ipc F new = serialize_subscribe pid c topic p (requested offset) @ acks_of c ds))"
    using prints by (intro allI impI) (elim conjE)
  have acks': "\<forall>chunks io. concat chunks = acks_of c ds \<longrightarrow>
      (\<exists>srv' io'. receive_all (handle_request H server_os) chunks ((srv2, io), []) = Some ((srv', io'), [])
        \<and> map_option meta_offset (client_of H srv' c) = Some (resume_at start ds))"
    using acks by (intro allI impI)
  show ?thesis
    by (intro exI [of _ srv1] exI [of _ srv2] exI [of _ ?t2] exI [of _ t3] exI [of _ t4] exI [of _ n1] exI [of _ n2]
        exI [of _ n3] conjI sub pub get2 turn stop stream prints' acks')
qed

end
