(* ===== verification/Stopping.thy ===== *)
theory Stopping
  imports Broker
begin

text \<open>
  \<^verbatim>\<open>Server::stop\<close> in pieces. Its loop calls \<^verbatim>\<open>Topic::shutdown\<close> for one topic after the other, and each
  shutdown is a critical section of the topic, which raises the flag, and the wait for the worker to
  end. The pieces in a row are \<open>stop_finish\<close> (\<open>sections_are_stop\<close>); \<open>Threads\<close> lets the workers run between
  them. \<open>stop_ok\<close> says what the topics look like when the stop has come so far.
\<close>

section \<open>The sections of stop\<close>

text \<open>
  The block of \<^verbatim>\<open>shutdown\<close> under \<^verbatim>\<open>topic_mutex\<close>, for a topic that was not told to stop before, and the
  \<^verbatim>\<open>join\<close>, which has no result while the worker is in its loop. A null pointer in the table, and a topic
  that was told before, are passed over: \<open>stop_topic\<close> answers whether there is a worker to wait for.
\<close>

definition Topic_raise_stop :: "os \<Rightarrow> topic \<Rightarrow> io_log \<Rightarrow> (topic \<times> io_log) option" where
  "Topic_raise_stop os t io = do {
     (subs, io) \<leftarrow> HashMap_for_each (\<lambda>_ sub io. shutdown_subscriber os sub io) (topic_subs t) io;
     Some (t\<lparr>topic_stop := True, topic_subs := HashMap_clear subs,
             topic_tree := PrefixTree_clear (topic_tree t)\<rparr>, io) }"

definition stop_topic :: "hashes \<Rightarrow> os \<Rightarrow> string \<Rightarrow> server_state \<Rightarrow> (bool \<times> server_state) option" where
  "stop_topic H os name s =
     (let (srv, io) = s
      in case HashMap_find (hash_string H) (topics srv) name of
           Some (Some t) \<Rightarrow>
             if topic_stop t then Some (False, s)
             else do { (t, io) \<leftarrow> Topic_raise_stop os t io; Some (True, (set_topic H srv name t, io)) }
         | _ \<Rightarrow> Some (False, s))"

definition join_topic :: "hashes \<Rightarrow> string \<Rightarrow> server_state \<Rightarrow> server_state option" where
  "join_topic H name s =
     (let (srv, io) = s
      in case HashMap_find (hash_string H) (topics srv) name of
           Some (Some t) \<Rightarrow> do { t \<leftarrow> Topic_join t; Some (set_topic H srv name t, io) }
         | _ \<Rightarrow> Some s)"

text \<open>
  The loop over the topics, without interference but for the worker that the \<^verbatim>\<open>join\<close> waits for, in the order
  of the table.
\<close>

definition worker_exits :: "hashes \<Rightarrow> string \<Rightarrow> server_state \<Rightarrow> server_state" where
  "worker_exits H name s =
     (let (srv, io) = s
      in case HashMap_find (hash_string H) (topics srv) name of
           Some (Some t) \<Rightarrow> (set_topic H srv name (worker_sees_flag t), io)
         | _ \<Rightarrow> s)"

fun stop_topics :: "hashes \<Rightarrow> os \<Rightarrow> string list \<Rightarrow> server_state \<Rightarrow> server_state option" where
  "stop_topics H os [] s = Some s"
| "stop_topics H os (name # names) s = do {
     (joins, s) \<leftarrow> stop_topic H os name s;
     s \<leftarrow> (if joins then join_topic H name (worker_exits H name s) else Some s);
     stop_topics H os names s }"

definition topic_names :: "server \<Rightarrow> string list" where
  "topic_names srv = map fst (HashMap_entries (topics srv))"

lemma raise_stop_raises: "Topic_raise_stop os t io = Some (t', io') \<Longrightarrow> topic_stop t'"
  by (auto simp: Topic_raise_stop_def bind_eq_Some_conv)

lemma Topic_shutdown_parts: "Topic_shutdown os t io = (if topic_stop t then Some (t, io)
    else do { (t, io) \<leftarrow> Topic_raise_stop os t io; Some (t\<lparr>topic_worker := Worker_joined\<rparr>, io) })"
  by (simp add: Topic_shutdown_def Topic_raise_stop_def join_after_flag Let_def split: Option.bind_split)

lemma stop_topics_each:
  assumes "hm_inv (hash_string H) (topics srv)" and "\<forall>n \<in> set names. HashMap_find (hash_string H) (topics srv) n \<noteq> None"
  shows "stop_topics H os names (srv, io) = do {
     (ts, io) \<leftarrow> replace_each (hash_string H) (\<lambda>_ p io. shutdown_topic os p io) names (topics srv) io;
     Some (srv\<lparr>topics := ts\<rparr>, io) }"
  using assms
proof (induction names arbitrary: srv io)
  case (Cons n ns)
  let ?h = "hash_string H"
  from Cons.prems(2) obtain p where p: "HashMap_find ?h (topics srv) n = Some p" by auto
  note same = replace_same [OF p]
  show ?case
  proof (cases p)
    case None
    with p Cons same show ?thesis by (simp add: stop_topic_def shutdown_topic_def)
  next
    case (Some t)
    show ?thesis
    proof (cases "topic_stop t \<or> Topic_raise_stop os t io = None")
      case True
      with p Some Cons same show ?thesis by (auto simp: stop_topic_def shutdown_topic_def Topic_shutdown_parts)
    next
      case False
      then obtain t' io' where t': "Topic_raise_stop os t io = Some (t', io')" by auto
      let ?srv = "srv\<lparr>topics := snd (HashMap_replace ?h (topics srv) n (Some (t'\<lparr>topic_worker := Worker_joined\<rparr>)))\<rparr>"
      note r = replace_correct [OF Cons.prems(1), of n]
      have "join_topic H n (worker_exits H n (set_topic H srv n t', io')) = Some (?srv, io')"
        using p join_after_flag [OF raise_stop_raises [OF t']]
        by (simp add: join_topic_def worker_exits_def set_topic_def r(1,3) replace_twice [OF Cons.prems(1)] replace_correct(3))
      moreover have "hm_inv ?h (topics ?srv)" "\<forall>n \<in> set ns. HashMap_find ?h (topics ?srv) n \<noteq> None"
        using Cons.prems r(1,3) p by auto
      ultimately show ?thesis
        using p Some t' False Cons.IH [of ?srv] by (simp add: stop_topic_def shutdown_topic_def Topic_shutdown_parts)
    qed
  qed
qed simp

text \<open>The sections in a row are the loop of \<^verbatim>\<open>stop\<close>, undefined behaviour included.\<close>

theorem sections_are_stop:
  assumes "tables_ok H srv"
  shows "stop_finish os (srv, io) = Option.bind (stop_topics H os (topic_names srv) (srv, io)) close_fifo"
proof -
  have inv: "hm_inv (hash_string H) (topics srv)" using assms by (simp add: tables_ok_def)
  have "HashMap_find (hash_string H) (topics srv) n \<noteq> None" if "n \<in> set (topic_names srv)" for n
    using that by (force simp: topic_names_def simp flip: hm.in_entries [OF inv])
  then have "stop_topics H os (topic_names srv) (srv, io) = do {
       (ts, io) \<leftarrow> HashMap_for_each (\<lambda>_ p io. shutdown_topic os p io) (topics srv) io;
       Some (srv\<lparr>topics := ts\<rparr>, io) }"
    using stop_topics_each [OF inv] by (simp add: for_each_replaces [OF inv] topic_names_def)
  then show ?thesis
    by (cases "HashMap_for_each (\<lambda>_. shutdown_topic os) (topics srv) io") (auto simp: stop_finish_def)
qed


section \<open>What the sections do to the broker\<close>

text \<open>Whether a topic was told to stop, and where its worker is.\<close>

definition flags :: "hashes \<Rightarrow> server \<Rightarrow> string \<rightharpoonup> bool \<times> worker" where
  "flags H srv n = map_option (\<lambda>t. (topic_stop t, topic_worker t)) (get_topic H srv n)"

lemma alive_flags: "alive H srv \<longleftrightarrow> (\<forall>n f. flags H srv n = Some f \<longrightarrow> f = (False, Worker_running))"
  by (auto simp: alive_def flags_def)

lemma tidy_flags: "tidy H srv \<longleftrightarrow> (\<forall>n b w. flags H srv n = Some (b, w) \<longrightarrow> w = (if b then Worker_joined else Worker_running))"
  by (simp add: tidy_def flags_def) blast

lemma flags_running [simp]: "flags H (srv\<lparr>running := b\<rparr>) = flags H srv"
  by (simp add: flags_def fun_eq_iff)

lemma topic_names_distinct: "tables_ok H srv \<Longrightarrow> distinct (topic_names srv)"
  by (simp add: topic_names_def tables_ok_def hm_inv_def HashMap_entries_def)

lemma in_topic_names:
  assumes "tables_ok H srv"
  shows "n \<in> set (topic_names srv) \<longleftrightarrow> get_topic H srv n \<noteq> None"
proof -
  have inv: "hm_inv (hash_string H) (topics srv)" using assms by (simp add: tables_ok_def)
  have "n \<in> set (topic_names srv) \<longleftrightarrow> (\<exists>p. (n, p) \<in> set (HashMap_entries (topics srv)))"
    by (force simp: topic_names_def)
  then have "n \<in> set (topic_names srv) \<longleftrightarrow> HashMap_find (hash_string H) (topics srv) n \<noteq> None"
    by (simp add: hm.in_entries [OF inv])
  then show ?thesis by (simp add: find_topic [OF assms])
qed

text \<open>A topic may be replaced by one with the same log and no new subscriber.\<close>

lemma topic_written:
  assumes inv: "server_inv H srv" and t: "get_topic H srv n = Some t"
    and "topic_inv H t'" and "topic_name t' = topic_name t" and "topic_messages t' = topic_messages t"
    and subs: "\<And>c sub. find_sub H t' c = Some sub \<Longrightarrow> find_sub H t c = Some sub"
  shows "server_inv H (set_topic H srv n t')" and "view H (set_topic H srv n t') = view H srv"
    and "get_topic H (set_topic H srv n t') = (get_topic H srv)(n \<mapsto> t')"
    and "flags H (set_topic H srv n t') = (flags H srv)(n \<mapsto> (topic_stop t', topic_worker t'))"
    and "running (set_topic H srv n t') = running srv" and "fifo_fd (set_topic H srv n t') = fifo_fd srv"
proof -
  note ok = server_invD(1) [OF inv] and cons = server_invD(2) [OF inv]
  have "get_topic H srv n \<noteq> None" using t by simp
  note w = set_topic_correct [OF ok this, of t']
  show "get_topic H (set_topic H srv n t') = (get_topic H srv)(n \<mapsto> t')" by (fact w(1))
  show "flags H (set_topic H srv n t') = (flags H srv)(n \<mapsto> (topic_stop t', topic_worker t'))"
    by (simp add: flags_def fun_eq_iff w(1))
  show "running (set_topic H srv n t') = running srv" "fifo_fd (set_topic H srv n t') = fifo_fd srv"
    by (simp_all add: set_topic_def)
  have "consistent H ((get_topic H srv)(n \<mapsto> t')) (client_of H srv) (producer_of H srv)"
    using assms(3,4) consistentD(9) [OF cons t] subs consistentD(7) [OF cons t]
    by (intro consistent_topic [OF cons]) (auto simp: topic_entry_ok_def)
  with w show "server_inv H (set_topic H srv n t')" by (simp add: server_inv_def)
  have "logs H (set_topic H srv n t') = logs H srv"
    using t assms(5) by (auto simp: logs_def topic_log_def fun_eq_iff w(1))
  then show "view H (set_topic H srv n t') = view H srv" by (simp add: view_def w)
qed

lemma topic_inv_worker [simp]: "topic_inv H (t\<lparr>topic_worker := w\<rparr>) = topic_inv H t"
proof -
  have "registrations H (t\<lparr>topic_worker := w\<rparr>) = registrations H t" by (simp add: registrations_def fun_eq_iff)
  then show ?thesis by (simp add: topic_inv_def)
qed

lemma Topic_raise_stop_correct:
  assumes "topic_inv H t" and "\<not> topic_stop t"
  shows "\<exists>t' io'. Topic_raise_stop os t io = Some (t', io') \<and> topic_inv H t' \<and> topic_name t' = topic_name t
    \<and> topic_messages t' = topic_messages t \<and> topic_stop t' \<and> topic_worker t' = topic_worker t \<and> find_sub H t' = Map.empty"
proof -
  from Topic_shutdown_correct [OF assms, of os io] obtain t1 io1 where shut: "Topic_shutdown os t io = Some (t1, io1)"
    and t1: "topic_inv H t1" "find_sub H t1 = Map.empty" by (auto simp: fun_eq_iff)
  then obtain t' where t': "Topic_raise_stop os t io = Some (t', io1)" "t1 = t'\<lparr>topic_worker := Worker_joined\<rparr>"
    using assms(2) by (auto simp: Topic_shutdown_parts bind_eq_Some_conv)
  then have "topic_name t' = topic_name t \<and> topic_messages t' = topic_messages t \<and> topic_stop t' \<and> topic_worker t' = topic_worker t"
    by (auto simp: Topic_raise_stop_def bind_eq_Some_conv)
  with t' t1 show ?thesis by (intro exI [of _ t'] exI [of _ io1]) simp
qed

text \<open>The two sections of a topic's shutdown.\<close>

lemma stop_topic_correct:
  assumes inv: "server_inv H srv" and live: "flags H srv n = Some (False, Worker_running)"
  shows "\<exists>srv' io'. stop_topic H os n (srv, io) = Some (True, (srv', io')) \<and> server_inv H srv' \<and> view H srv' = view H srv
    \<and> flags H srv' = (flags H srv)(n \<mapsto> (True, Worker_running)) \<and> running srv' = running srv \<and> fifo_fd srv' = fifo_fd srv
    \<and> (\<forall>m. get_topic H srv m \<noteq> None \<longrightarrow> get_topic H srv' m \<noteq> None)
    \<and> (\<forall>m. m \<noteq> n \<longrightarrow> get_topic H srv' m = get_topic H srv m)"
proof -
  obtain t where t: "get_topic H srv n = Some t" "\<not> topic_stop t" "topic_worker t = Worker_running"
    using live by (auto simp: flags_def)
  have "topic_inv H t" using consistentD(1) [OF server_invD(2) [OF inv] t(1)] .
  from Topic_raise_stop_correct [OF this t(2), of os io] obtain t' io' where
    t': "Topic_raise_stop os t io = Some (t', io')" "topic_inv H t'" "topic_name t' = topic_name t"
      "topic_messages t' = topic_messages t" "topic_stop t'" "topic_worker t' = topic_worker t" "find_sub H t' = Map.empty" by blast
  note w = topic_written [OF inv t(1) t'(2-4)]
  have "stop_topic H os n (srv, io) = Some (True, (set_topic H srv n t', io'))"
    using t t'(1) by (simp add: stop_topic_def find_topic [OF server_invD(1) [OF inv]])
  with w t' t(3) show ?thesis by (intro exI [of _ "set_topic H srv n t'"] exI [of _ io']) simp
qed

lemma join_topic_correct:
  assumes inv: "server_inv H srv" and left: "flags H srv n = Some (True, Worker_finished)"
  shows "\<exists>srv'. join_topic H n (srv, io) = Some (srv', io) \<and> server_inv H srv' \<and> view H srv' = view H srv
    \<and> flags H srv' = (flags H srv)(n \<mapsto> (True, Worker_joined)) \<and> running srv' = running srv \<and> fifo_fd srv' = fifo_fd srv
    \<and> (\<forall>m. get_topic H srv m \<noteq> None \<longrightarrow> get_topic H srv' m \<noteq> None)
    \<and> (\<forall>m. m \<noteq> n \<longrightarrow> get_topic H srv' m = get_topic H srv m)"
proof -
  obtain t where t: "get_topic H srv n = Some t" "topic_stop t" "topic_worker t = Worker_finished"
    using left by (auto simp: flags_def)
  have "topic_inv H t" using consistentD(1) [OF server_invD(2) [OF inv] t(1)] .
  then have "topic_inv H (t\<lparr>topic_worker := Worker_joined\<rparr>)" by simp
  note w = topic_written [OF inv t(1) this]
  have "join_topic H n (srv, io) = Some (set_topic H srv n (t\<lparr>topic_worker := Worker_joined\<rparr>), io)"
    using t by (simp add: join_topic_def Topic_join_def find_topic [OF server_invD(1) [OF inv]])
  with w t show ?thesis by simp
qed

section \<open>How far a stop has come\<close>

text \<open>
  The phase of a stop: not begun or over, the topics yet to be shut down, or waiting for the worker of
  one of them. The topics that are left run, those done have no worker, and the one waited for has the
  flag raised.
\<close>

datatype stop_phase =
    No_stop
  | Shutting "string list"
  | Joining string "string list"

fun stop_ok :: "bool \<Rightarrow> (string \<rightharpoonup> bool \<times> worker) \<Rightarrow> stop_phase \<Rightarrow> bool" where
  "stop_ok up F No_stop \<longleftrightarrow> (\<forall>n b w. F n = Some (b, w) \<longrightarrow> w = (if b then Worker_joined else Worker_running))
     \<and> (up \<longrightarrow> (\<forall>n f. F n = Some f \<longrightarrow> f = (False, Worker_running)))"
| "stop_ok up F (Shutting left) \<longleftrightarrow> \<not> up \<and> distinct left
     \<and> (\<forall>n \<in> set left. F n = Some (False, Worker_running))
     \<and> (\<forall>n. n \<notin> set left \<longrightarrow> F n = None \<or> F n = Some (True, Worker_joined))"
| "stop_ok up F (Joining name left) \<longleftrightarrow> \<not> up \<and> distinct (name # left)
     \<and> (\<forall>n \<in> set left. F n = Some (False, Worker_running))
     \<and> (F name = Some (True, Worker_running) \<or> F name = Some (True, Worker_finished))
     \<and> (\<forall>n. n \<notin> set left \<longrightarrow> n \<noteq> name \<longrightarrow> F n = None \<or> F n = Some (True, Worker_joined))"

fun topics_left :: "stop_phase \<Rightarrow> string list" where
  "topics_left No_stop = []"
| "topics_left (Shutting left) = left"
| "topics_left (Joining name left) = left"

text \<open>The steps a stop still takes: for each topic to raise the flag, to notify, to see it and to join, and the end.\<close>

fun stop_work :: "(string \<rightharpoonup> bool \<times> worker) \<Rightarrow> stop_phase \<Rightarrow> nat" where
  "stop_work F No_stop = 0"
| "stop_work F (Shutting left) = 4 * length left + 1"
| "stop_work F (Joining name left) = 4 * length left + (if F name = Some (True, Worker_running) then 3 else 2)"

lemma stop_ok_idle: "stop_ok (running srv) (flags H srv) No_stop \<longleftrightarrow> tidy H srv \<and> (running srv \<longrightarrow> alive H srv)"
  by (simp only: stop_ok.simps tidy_flags alive_flags)

lemma stop_starts:
  assumes "tables_ok H srv" and "alive H srv"
  shows "stop_ok False (flags H srv) (Shutting (topic_names srv))"
  using assms topic_names_distinct [OF assms(1)] in_topic_names [OF assms(1)]
  by (auto simp: alive_def flags_def)

text \<open>
  The topics that were not told to stop. When the server is destroyed their destructors still have to shut
  them down; those of the others return at once.
\<close>

definition unstopped_topics :: "hashes \<Rightarrow> server \<Rightarrow> string list" where
  "unstopped_topics H srv =
     filter (\<lambda>n. case get_topic H srv n of None \<Rightarrow> False | Some t \<Rightarrow> \<not> topic_stop t) (topic_names srv)"

lemma destruction_starts:
  assumes "tables_ok H srv" and "stop_ok False (flags H srv) No_stop"
  shows "stop_ok False (flags H srv) (Shutting (unstopped_topics H srv))"
proof -
  have F: "w = (if b then Worker_joined else Worker_running)" if "flags H srv n = Some (b, w)" for n b w
    using assms(2) that by simp
  have in_left: "n \<in> set (unstopped_topics H srv) \<longleftrightarrow> (\<exists>w. flags H srv n = Some (False, w))" for n
    using in_topic_names [OF assms(1), of n] by (auto simp: unstopped_topics_def flags_def split: option.splits)
  have "flags H srv n = None \<or> flags H srv n = Some (True, Worker_joined)" if "n \<notin> set (unstopped_topics H srv)" for n
  proof (cases "flags H srv n")
    case (Some f)
    with that in_left [of n] F [of n "fst f" "snd f"] show ?thesis by (cases f) auto
  qed simp
  moreover have "flags H srv n = Some (False, Worker_running)" if "n \<in> set (unstopped_topics H srv)" for n
    using that in_left [of n] F [of n False] by auto
  ultimately show ?thesis
    using topic_names_distinct [OF assms(1)] by (simp add: unstopped_topics_def)
qed

lemma stop_raises: "stop_ok up F (Shutting (n # left)) \<Longrightarrow> stop_ok up (F(n \<mapsto> (True, Worker_running))) (Joining n left)"
  by auto

lemma stop_sees: "stop_ok up F (Joining n left) \<Longrightarrow> stop_ok up (F(n \<mapsto> (True, Worker_finished))) (Joining n left)"
  by auto

lemma stop_joins: "stop_ok up F (Joining n left) \<Longrightarrow> stop_ok up (F(n \<mapsto> (True, Worker_joined))) (Shutting left)"
  by auto

lemma stop_ends: "stop_ok up F (Shutting []) \<Longrightarrow> stop_ok up F No_stop"
  by (simp; metis option.discI option.inject prod.inject)

text \<open>The only topic with the flag raised and its worker not yet gone is the one that the stop waits for.\<close>

lemma stop_waits_for:
  assumes "stop_ok up F p" and "F n = Some (True, w)" and "w \<noteq> Worker_joined"
  shows "\<exists>left. p = Joining n left"
proof (cases p)
  case (Shutting left)
  with assms show ?thesis by (cases "n \<in> set left") auto
next
  case (Joining m left)
  with assms show ?thesis by (cases "n \<in> set left"; cases "n = m") auto
next
  case No_stop
  with assms(1) have "\<forall>n b w. F n = Some (b, w) \<longrightarrow> w = (if b then Worker_joined else Worker_running)" by simp
  with assms(2,3) show ?thesis by (metis (full_types))
qed

lemma stop_ok_alive:
  assumes "stop_ok (running srv) (flags H srv) p" and "running srv"
  shows "alive H srv"
proof (cases p)
  case No_stop
  with assms show ?thesis unfolding No_stop stop_ok_idle by blast
qed (use assms in auto)

lemma stop_ok_waiting:
  "stop_ok up F (Joining n left) \<Longrightarrow> F n = Some (True, Worker_running) \<or> F n = Some (True, Worker_finished)"
  "stop_ok up F (Shutting (n # left)) \<Longrightarrow> F n = Some (False, Worker_running)"
  by simp_all

declare stop_ok.simps [simp del]

text \<open>A worker that has not left its loop cannot be joined.\<close>

lemma join_topic_waits:
  assumes "tables_ok H srv" and "flags H srv n = Some (b, Worker_running)"
  shows "join_topic H n (srv, io) = None"
  using assms(2) by (auto simp: flags_def join_topic_def Topic_join_def find_topic [OF assms(1)])

end
