(* ===== verification/Sections.thy ===== *)
theory Sections
  imports Stopping
begin

text \<open>
  The handlers of \<^verbatim>\<open>src/server/src/Server.cpp\<close> cut into critical sections. \<open>Server\<close> treats a handler as one
  step; here it is the sequence of its sections (\<open>run_task\<close>), between which other threads may run. The
  sections in a row are the handlers (\<open>sections_are_handlers\<close>), and each of them ends, keeps what is true
  between sections, and performs the request or leaves the broker as it is (\<open>run_task_done\<close>).
\<close>

section \<open>Critical sections of the main thread\<close>

text \<open>
  What the main thread does next, with the local variables it still needs. \<open>Register\<close> and
  \<open>Unregister\<close> are nested: they begin with \<^verbatim>\<open>server_mutex\<close> held. A pointer to a topic is the name of
  the topic, which stays in the table as long as the server lives.
\<close>

datatype task =
    Idle
  | Dispatch u8 "u8 list"
  | Respond u32 status_code
  | Create u32 string
  | List_topics u32
  | Info u32 string
  | Find_producer_topic u32 string
  | Insert_producer u32 string
  | Find_topic string string string
  | Append string string string
  | Subscribe u32 string string string u32
  | Register u32 string string string u32
  | Commit string u32
  | Deactivate string
  | Unregister string string

text \<open>The parsing and the tests that come before the first mutex.\<close>

fun dispatch :: "u8 \<Rightarrow> u8 list \<Rightarrow> task option" where
  "dispatch act payload =
     (if act = 1 then
        (case parse_create payload (length payload) of None \<Rightarrow> None | Some Rejected \<Rightarrow> Some Idle
         | Some (Parsed (pid, name)) \<Rightarrow> Some (if \<not> is_valid_identifier name then Respond pid GENERAL_ERROR else Create pid name))
      else if act = 2 then
        (case parse_list payload (length payload) of None \<Rightarrow> None | Some Rejected \<Rightarrow> Some Idle
         | Some (Parsed pid) \<Rightarrow> Some (List_topics pid))
      else if act = 3 then
        (case parse_info payload (length payload) of None \<Rightarrow> None | Some Rejected \<Rightarrow> Some Idle
         | Some (Parsed (pid, client_id)) \<Rightarrow> Some (Info pid client_id))
      else if act = 4 then
        (case parse_connect payload (length payload) of None \<Rightarrow> None | Some Rejected \<Rightarrow> Some Idle
         | Some (Parsed (pid, name)) \<Rightarrow> Some (Find_producer_topic pid name))
      else if act = 5 then
        (case parse_produce payload (length payload) of None \<Rightarrow> None | Some Rejected \<Rightarrow> Some Idle
         | Some (Parsed (name, key, val)) \<Rightarrow> Some (if name \<noteq> [] then Find_topic name key val else Idle))
      else if act = 6 then
        (case parse_subscribe payload (length payload) of None \<Rightarrow> None | Some Rejected \<Rightarrow> Some Idle
         | Some (Parsed (pid, client_id, name, prfx, req_offset)) \<Rightarrow>
             Some (if \<not> is_valid_identifier client_id \<or> \<not> is_valid_identifier name then Respond pid GENERAL_ERROR
                   else Subscribe pid client_id name prfx req_offset))
      else if act = 7 then
        (case parse_ack payload (length payload) of None \<Rightarrow> None | Some Rejected \<Rightarrow> Some Idle
         | Some (Parsed (client_id, next_offset)) \<Rightarrow> Some (Commit client_id next_offset))
      else if act = 8 then
        (case parse_disconnect payload (length payload) of None \<Rightarrow> None | Some Rejected \<Rightarrow> Some Idle
         | Some (Parsed client_id) \<Rightarrow> Some (Deactivate client_id))
      else Some Idle)"

text \<open>
  The section of \<^verbatim>\<open>handle_subscriber_connect\<close> from the lock of \<^verbatim>\<open>server_mutex\<close> up to the registration in the
  topic. Both refusals are sent in it, before the mutex is released.
\<close>

definition subscribe_section ::
    "hashes \<Rightarrow> os \<Rightarrow> u32 \<Rightarrow> string \<Rightarrow> string \<Rightarrow> string \<Rightarrow> u32 \<Rightarrow> server_state \<Rightarrow> task \<times> server_state" where
  "subscribe_section H os client_pid client_id name prfx req_offset s =
     (let (srv, io) = s
      in case HashMap_find (hash_string H) (topics srv) name of
           None \<Rightarrow> (Idle, (srv, send_response os client_pid TOPIC_CLIENT_ERR '''' io))
         | Some found_topic \<Rightarrow>
             let meta = HashMap_find (hash_string H) (client_index srv) client_id;
                 (duplicate, io) = (case meta of None \<Rightarrow> (False, io)
                    | Some m \<Rightarrow> if meta_is_active m then is_reader_active os (meta_ipc_path m) io
                                else (False, io))
             in if duplicate then (Idle, (srv, send_response os client_pid TOPIC_CLIENT_ERR '''' io))
                else let start_offset = (if req_offset \<noteq> OFFSET_UNSET then req_offset
                           else case meta of Some m \<Rightarrow> meta_offset m | None \<Rightarrow> 0);
                         new_meta = \<lparr>meta_client_id = client_id, meta_topic = name,
                           meta_offset = start_offset, meta_prefix = prfx,
                           meta_ipc_path = client_fifo_path client_pid, meta_is_active = True\<rparr>;
                         srv = srv\<lparr>client_index :=
                           snd (HashMap_insert_or_assign (hash_string H) (client_index srv) client_id new_meta)\<rparr>
                     in (Register client_pid client_id name prfx start_offset,
                         (srv, send_response os client_pid SUCCESS '''' io)))"

text \<open>The topic behind a pointer; a pointer that is null or dangles has undefined behaviour.\<close>

definition at_topic :: "hashes \<Rightarrow> server \<Rightarrow> string \<Rightarrow> (topic \<Rightarrow> (topic \<times> io_log) option) \<Rightarrow> server_state option" where
  "at_topic H srv name f =
     (case HashMap_find (hash_string H) (topics srv) name of
        Some (Some t) \<Rightarrow> do { (t, io) \<leftarrow> f t; Some (set_topic H srv name t, io) }
      | _ \<Rightarrow> None)"

fun run_task :: "hashes \<Rightarrow> os \<Rightarrow> task \<Rightarrow> server_state \<Rightarrow> (task \<times> server_state) option" where
  "run_task H os Idle s = Some (Idle, s)"
| "run_task H os (Dispatch act payload) s = do { t \<leftarrow> dispatch act payload; Some (t, s) }"
| "run_task H os (Respond client_pid status) (srv, io) = Some (Idle, (srv, send_response os client_pid status '''' io))"
| "run_task H os (Create client_pid name) (srv, io) =
     (let (created, srv) = create_topic H srv name
      in Some (Respond client_pid (if \<not> created then TOPIC_CLIENT_ERR else SUCCESS), (srv, io)))"
| "run_task H os (List_topics client_pid) (srv, io) = do {
     pairs \<leftarrow> HashMap_iterate (topics srv);
     Some (Idle, (srv, send_response os client_pid SUCCESS (join_names True '''' (map fst pairs)) io)) }"
| "run_task H os (Info client_pid client_id) (srv, io) =
     (case HashMap_find (hash_string H) (client_index srv) client_id of
        None \<Rightarrow> Some (Idle, (srv, send_response os client_pid TOPIC_CLIENT_ERR '''' io))
      | Some meta \<Rightarrow> Some (Idle, (srv, send_response os client_pid SUCCESS (client_json meta) io)))"
| "run_task H os (Find_producer_topic client_pid name) (srv, io) =
     Some (if get_topic H srv name = None then Respond client_pid TOPIC_CLIENT_ERR else Insert_producer client_pid name, (srv, io))"
| "run_task H os (Insert_producer client_pid name) (srv, io) =
     (let (_, ps) = HashMap_insert_or_assign (hash_uint32 H) (producer_topics srv) client_pid name
      in Some (Respond client_pid SUCCESS, (srv\<lparr>producer_topics := ps\<rparr>, io)))"
| "run_task H os (Find_topic name key val) (srv, io) =
     Some (if get_topic H srv name = None then Idle else Append name key val, (srv, io))"
| "run_task H os (Append name key val) (srv, io) = do {
     s \<leftarrow> at_topic H srv name (\<lambda>t. Some (Topic_append_message t key val, io));
     Some (Idle, s) }"
| "run_task H os (Subscribe client_pid client_id name prfx req_offset) s =
     Some (subscribe_section H os client_pid client_id name prfx req_offset s)"
| "run_task H os (Register client_pid client_id name prfx start_offset) (srv, io) = do {
     s \<leftarrow> at_topic H srv name (\<lambda>t. do {
       (_, t, io) \<leftarrow> Topic_add_subscriber H os t client_id prfx (client_fifo_path client_pid) start_offset io;
       Some (t, io) });
     Some (Idle, s) }"
| "run_task H os (Commit client_id next_offset) (srv, io) =
     (case HashMap_find (hash_string H) (client_index srv) client_id of
        None \<Rightarrow> Some (Idle, (srv, io))
      | Some meta \<Rightarrow> Some (Idle, (set_client H srv client_id (meta\<lparr>meta_offset := next_offset\<rparr>), io)))"
| "run_task H os (Deactivate client_id) (srv, io) =
     (case HashMap_find (hash_string H) (client_index srv) client_id of
        None \<Rightarrow> Some (Idle, (srv, io))
      | Some meta \<Rightarrow>
          let srv = set_client H srv client_id (meta\<lparr>meta_is_active := False\<rparr>)
          in Some (if HashMap_find (hash_string H) (topics srv) (meta_topic meta) = None then Idle
                   else Unregister client_id (meta_topic meta), (srv, io)))"
| "run_task H os (Unregister client_id name) (srv, io) = do {
     s \<leftarrow> at_topic H srv name (\<lambda>t. do {
       (_, t, io) \<leftarrow> Topic_remove_subscriber H t client_id io;
       Some (t, io) });
     Some (Idle, s) }"

text \<open>The sections in a row. A handler has at most four.\<close>

fun run_tasks :: "hashes \<Rightarrow> os \<Rightarrow> nat \<Rightarrow> task \<Rightarrow> server_state \<Rightarrow> server_state option" where
  "run_tasks H os n Idle s = Some s"
| "run_tasks H os 0 t s = None"
| "run_tasks H os (Suc n) t s = do { (t, s) \<leftarrow> run_task H os t s; run_tasks H os n t s }"

lemma at_topic_get:
  "at_topic H srv name f = (case get_topic H srv name of None \<Rightarrow> None
     | Some t \<Rightarrow> do { (t, io) \<leftarrow> f t; Some (set_topic H srv name t, io) })"
  by (simp add: at_topic_def get_topic_def split: option.split)

lemma run_tasks_Suc: "run_tasks H os (Suc n) t s =
    (if t = Idle then Some s else do { (t, s) \<leftarrow> run_task H os t s; run_tasks H os n t s })"
  by (cases t) simp_all

lemma run_tasks_0: "run_tasks H os 0 t s = (if t = Idle then Some s else None)"
  by (cases t) simp_all

lemma run_tasks_4: "run_tasks H os 4 = run_tasks H os (Suc (Suc (Suc (Suc 0))))"
  by (rule arg_cong [where f = "run_tasks H os"]) simp

text \<open>
  C13: The critical sections, run one after the other without interference, are the handlers: for every
  action byte and every payload they have the same result, undefined behaviour included.
\<close>

theorem sections_are_handlers:
  "run_tasks H os 4 (Dispatch act payload) s = handle_request H os s act payload (length payload)"
  unfolding run_tasks_4
proof -
  let ?eq = "run_tasks H os (Suc (Suc (Suc (Suc 0)))) (Dispatch act payload) s
    = handle_request H os s act payload (length payload)"
  obtain srv io where s: "s = (srv, io)" by fastforce
  let ?n = "length payload"
  note steps = run_tasks_Suc run_tasks_0
  note split = parse_result.split prod.split option.split
  have "act = 1 \<Longrightarrow> ?eq"
    by (cases "parse_create payload ?n") (auto simp: s steps handle_request_def handle_create_def split: split)
  moreover have "act = 2 \<Longrightarrow> ?eq"
    by (cases "parse_list payload ?n"; cases "HashMap_iterate (topics srv)")
      (auto simp: s steps handle_request_def handle_list_def split: split)
  moreover have "act = 3 \<Longrightarrow> ?eq"
    by (cases "parse_info payload ?n") (auto simp: s steps handle_request_def handle_info_def split: split)
  moreover have "act = 4 \<Longrightarrow> ?eq"
    by (cases "parse_connect payload ?n") (auto simp: s steps handle_request_def handle_producer_connect_def split: split)
  moreover have "act = 5 \<Longrightarrow> ?eq"
    by (cases "parse_produce payload ?n")
      (auto simp: s steps handle_request_def handle_publish_def at_topic_get split: split)
  moreover have "act = 6 \<Longrightarrow> ?eq"
    by (cases "parse_subscribe payload ?n")
      (auto simp: s steps handle_request_def handle_subscriber_connect_def subscribe_section_def at_topic_def Let_def
        split: split Option.bind_split)
  moreover have "act = 7 \<Longrightarrow> ?eq"
    by (cases "parse_ack payload ?n") (auto simp: s steps handle_request_def handle_commit_def split: split)
  moreover have "act = 8 \<Longrightarrow> ?eq"
    by (cases "parse_disconnect payload ?n")
      (auto simp: s steps handle_request_def handle_disconnect_def at_topic_def Let_def
        split: split Option.bind_split)
  moreover have "act \<notin> {1, 2, 3, 4, 5, 6, 7, 8} \<Longrightarrow> ?eq"
    by (simp add: s steps handle_request_def)
  ultimately show ?eq by blast
qed

section \<open>What a section does to the broker\<close>

text \<open>The request in a frame, if its payload is one, and the request that a task has yet to perform.\<close>

fun parsed :: "'a parse_result option \<Rightarrow> 'a option" where
  "parsed (Some (Parsed x)) = Some x"
| "parsed _ = None"

definition request_of :: "u8 \<Rightarrow> u8 list \<Rightarrow> request option" where
  "request_of act payload =
     (let len = length payload
      in if act = 1 then map_option (\<lambda>(pid, name). Req_create pid name) (parsed (parse_create payload len))
      else if act = 2 then map_option Req_list (parsed (parse_list payload len))
      else if act = 3 then map_option (\<lambda>(pid, c). Req_info pid c) (parsed (parse_info payload len))
      else if act = 4 then map_option (\<lambda>(pid, name). Req_connect pid name) (parsed (parse_connect payload len))
      else if act = 5 then map_option (\<lambda>(name, k, v). Req_publish name k v) (parsed (parse_produce payload len))
      else if act = 6 then map_option (\<lambda>(pid, c, name, p, n). Req_subscribe pid c name p n) (parsed (parse_subscribe payload len))
      else if act = 7 then map_option (\<lambda>(c, n). Req_commit c n) (parsed (parse_ack payload len))
      else if act = 8 then map_option Req_disconnect (parsed (parse_disconnect payload len))
      else None)"

fun to_do :: "task \<Rightarrow> request option" where
  "to_do (Dispatch act payload) = request_of act payload"
| "to_do (Create pid name) = Some (Req_create pid name)"
| "to_do (List_topics pid) = Some (Req_list pid)"
| "to_do (Info pid c) = Some (Req_info pid c)"
| "to_do (Find_producer_topic pid name) = Some (Req_connect pid name)"
| "to_do (Insert_producer pid name) = Some (Req_connect pid name)"
| "to_do (Find_topic name k v) = Some (Req_publish name k v)"
| "to_do (Append name k v) = Some (Req_publish name k v)"
| "to_do (Subscribe pid c name p n) = Some (Req_subscribe pid c name p n)"
| "to_do (Commit c n) = Some (Req_commit c n)"
| "to_do (Deactivate c) = Some (Req_disconnect c)"
| "to_do _ = None"

text \<open>
  The invariant between two sections. Inside a subscription or a disconnection the record of the
  client is ahead of its registration: the tables are consistent with the record it had before.
\<close>

fun earlier :: "hashes \<Rightarrow> server \<Rightarrow> task \<Rightarrow> (string \<rightharpoonup> client_metadata) \<Rightarrow> bool" where
  "earlier H srv (Register pid c name p n) C \<longleftrightarrow> client_of H srv = C(c \<mapsto> \<lparr>meta_client_id = c,
     meta_topic = name, meta_offset = n, meta_prefix = p, meta_ipc_path = client_fifo_path pid, meta_is_active = True\<rparr>)"
| "earlier H srv (Unregister c name) C \<longleftrightarrow> (\<exists>m. C c = Some m \<and> meta_topic m = name
     \<and> client_of H srv = C(c \<mapsto> m\<lparr>meta_is_active := False\<rparr>))"
| "earlier H srv _ C \<longleftrightarrow> C = client_of H srv"

fun task_ok :: "hashes \<Rightarrow> server \<Rightarrow> task \<Rightarrow> bool" where
  "task_ok H srv (Create pid name) \<longleftrightarrow> is_valid_identifier name"
| "task_ok H srv (Insert_producer pid name) \<longleftrightarrow> get_topic H srv name \<noteq> None"
| "task_ok H srv (Append name k v) \<longleftrightarrow> get_topic H srv name \<noteq> None"
| "task_ok H srv (Subscribe pid c name p n) \<longleftrightarrow> is_valid_identifier c \<and> is_valid_identifier name"
| "task_ok H srv (Register pid c name p n) \<longleftrightarrow> is_valid_identifier c \<and> get_topic H srv name \<noteq> None"
| "task_ok H srv (Unregister c name) \<longleftrightarrow> get_topic H srv name \<noteq> None"
| "task_ok H srv _ \<longleftrightarrow> True"

definition between :: "hashes \<Rightarrow> server \<Rightarrow> task \<Rightarrow> bool" where
  "between H srv t \<longleftrightarrow> tables_ok H srv \<and> task_ok H srv t
     \<and> (\<exists>C. earlier H srv t C \<and> consistent H (get_topic H srv) C (producer_of H srv))"

text \<open>
  The mutexes of a section, and whether it begins with \<^verbatim>\<open>server_mutex\<close> held. \<open>Respond\<close> stands only for answers
  that are sent outside the mutex: to a name that is not valid, and by \<^verbatim>\<open>handle_create\<close> and
  \<^verbatim>\<open>handle_producer_connect\<close>, which have released it by then. The answers sent under the mutex are part of
  the sections \<open>List_topics\<close>, \<open>Info\<close> and \<open>Subscribe\<close>.
\<close>

fun takes_server :: "task \<Rightarrow> bool" where
  "takes_server Idle = False"
| "takes_server (Dispatch act payload) = False"
| "takes_server (Respond pid st) = False"
| "takes_server (Append name k v) = False"
| "takes_server _ = True"

fun keeps_server :: "task \<Rightarrow> bool" where
  "keeps_server (Register pid c name p n) = True"
| "keeps_server (Unregister c name) = True"
| "keeps_server _ = False"

fun topic_lock :: "task \<Rightarrow> string option" where
  "topic_lock (Append name k v) = Some name"
| "topic_lock (Register pid c name p n) = Some name"
| "topic_lock (Unregister c name) = Some name"
| "topic_lock _ = None"

text \<open>
  The effect of a section: the request is performed by exactly one of its sections, and the others
  leave the broker as it is; a topic whose mutex the section does not hold is not touched.
\<close>

definition performs :: "hashes \<Rightarrow> task \<Rightarrow> server \<Rightarrow> task \<Rightarrow> server \<Rightarrow> bool" where
  "performs H t srv t' srv' \<longleftrightarrow> (to_do t' = to_do t \<and> view H srv' = view H srv)
     \<or> (\<exists>r busy. to_do t = Some r \<and> to_do t' = None \<and> view H srv' = broker_step busy r (view H srv))"

definition untouched :: "hashes \<Rightarrow> task \<Rightarrow> server \<Rightarrow> server \<Rightarrow> bool" where
  "untouched H t srv srv' \<longleftrightarrow> (\<forall>n tp. topic_lock t \<noteq> Some n \<longrightarrow> get_topic H srv n = Some tp \<longrightarrow> get_topic H srv' n = Some tp)"

fun rank :: "task \<Rightarrow> nat" where
  "rank Idle = 0"
| "rank (Dispatch act payload) = 4"
| "rank (Find_producer_topic pid name) = 3"
| "rank (Respond pid st) = 1"
| "rank (List_topics pid) = 1"
| "rank (Info pid c) = 1"
| "rank (Append name k v) = 1"
| "rank (Register pid c name p n) = 1"
| "rank (Commit c n) = 1"
| "rank (Unregister c name) = 1"
| "rank _ = 2"

definition section_done :: "hashes \<Rightarrow> task \<Rightarrow> server \<Rightarrow> (task \<times> server_state) option \<Rightarrow> bool" where
  "section_done H t srv res \<longleftrightarrow> (\<exists>t' srv' io'. res = Some (t', (srv', io')) \<and> between H srv' t' \<and> steady H srv srv'
     \<and> performs H t srv t' srv' \<and> untouched H t srv srv' \<and> rank t' < rank t)"

lemma between_inv: "\<not> keeps_server t \<Longrightarrow> between H srv t \<longleftrightarrow> server_inv H srv \<and> task_ok H srv t"
  by (cases t) (auto simp: between_def server_inv_def)

lemma section_doneI:
  assumes "res = Some (t', (srv', io'))" and "between H srv' t'" and "steady H srv srv'"
    and "performs H t srv t' srv'" and "untouched H t srv srv'" and "rank t' < rank t"
  shows "section_done H t srv res"
  using assms by (auto simp: section_done_def)

text \<open>A section that only looks at the tables.\<close>

lemma section_reads:
  assumes "res = Some (t', (srv, io'))" and "between H srv t'" and "rank t' < rank t"
    and "to_do t' = to_do t \<or> (\<exists>r busy. to_do t = Some r \<and> to_do t' = None \<and> view H srv = broker_step busy r (view H srv))"
  shows "section_done H t srv res"
  using assms by (intro section_doneI [OF assms(1,2)]) (auto simp: performs_def untouched_def)

lemma broker_step_reads [simp]: "broker_step busy (Req_list pid) B = B" "broker_step busy (Req_info pid c) B = B"
  by simp_all

lemma between_read: "between H srv t \<Longrightarrow> \<not> keeps_server t \<Longrightarrow> \<not> keeps_server t' \<Longrightarrow> task_ok H srv t' \<Longrightarrow> between H srv t'"
  by (simp add: between_inv)

lemma dispatch_done:
  assumes "between H srv (Dispatch act payload)"
  shows "section_done H (Dispatch act payload) srv (run_task H os (Dispatch act payload) (srv, io))"
proof -
  have inv: "server_inv H srv" using assms by (simp add: between_inv)
  have "get_topic H srv [] = None"
    using consistentD(3) [OF server_invD(2) [OF inv], of "[]"] by (cases "get_topic H srv []") (auto simp: is_valid_identifier_def)
  then have unnamed: "ab_logs (view H srv) [] = None" by (simp add: view_def logs_None)
  have def: "\<exists>t'. dispatch act payload = Some t' \<and> \<not> keeps_server t' \<and> task_ok H srv t' \<and> rank t' < 4
      \<and> (to_do t' = request_of act payload \<or> (\<exists>r. request_of act payload = Some r \<and> to_do t' = None
          \<and> view H srv = broker_step False r (view H srv)))"
    using create_codec.defined [OF order.refl, of payload] list_codec.defined [OF order.refl, of payload]
      info_codec.defined [OF order.refl, of payload] connect_codec.defined [OF order.refl, of payload]
      produce_codec.defined [OF order.refl, of payload] subscribe_codec.defined [OF order.refl, of payload]
      ack_codec.defined [OF order.refl, of payload] disconnect_codec.defined [OF order.refl, of payload] unnamed
    by (auto simp: request_of_def accepts_def split: parse_result.split)
  then show ?thesis
    using between_read [OF assms] by (elim exE conjE) (rule section_reads, auto)
qed

lemma respond_done: "between H srv (Respond pid st) \<Longrightarrow> section_done H (Respond pid st) srv (run_task H os (Respond pid st) (srv, io))"
  by (rule section_reads) (auto simp: between_inv)

lemma list_done: "between H srv (List_topics pid) \<Longrightarrow> section_done H (List_topics pid) srv (run_task H os (List_topics pid) (srv, io))"
  by (rule section_reads) (auto simp: between_inv iterate_entries)

lemma info_done: "between H srv (Info pid c) \<Longrightarrow> section_done H (Info pid c) srv (run_task H os (Info pid c) (srv, io))"
  by (cases "HashMap_find (hash_string H) (client_index srv) c")
    (rule section_reads, auto simp: between_inv)+

lemma find_producer_done:
  assumes "between H srv (Find_producer_topic pid name)"
  shows "section_done H (Find_producer_topic pid name) srv (run_task H os (Find_producer_topic pid name) (srv, io))"
  by (rule section_reads) (use assms in \<open>auto simp: between_inv view_def logs_None\<close>)

lemma find_topic_done:
  assumes "between H srv (Find_topic name k v)"
  shows "section_done H (Find_topic name k v) srv (run_task H os (Find_topic name k v) (srv, io))"
proof (rule section_reads)
  show "between H srv (if get_topic H srv name = None then Idle else Append name k v)"
    using assms by (auto simp: between_inv)
qed (auto simp: view_def simp flip: logs_None)

lemma create_done:
  assumes "between H srv (Create pid name)"
  shows "section_done H (Create pid name) srv (run_task H os (Create pid name) (srv, io))"
proof -
  have inv: "server_inv H srv" and valid: "is_valid_identifier name" using assms by (simp_all add: between_inv)
  obtain created srv' where c: "create_topic H srv name = (created, srv')" by fastforce
  note made = create_topic_correct [OF inv valid, unfolded c fst_conv snd_conv]
  have "view H srv' = broker_step False (Req_create pid name) (view H srv)"
    using made(2-4) valid by (auto simp: view_def logs_def fun_eq_iff)
  then show ?thesis
    using made(2,5,6) by (intro section_doneI) (auto simp: c between_inv performs_def untouched_def)
qed

lemma insert_producer_done:
  assumes "between H srv (Insert_producer pid name)"
  shows "section_done H (Insert_producer pid name) srv (run_task H os (Insert_producer pid name) (srv, io))"
proof -
  have inv: "server_inv H srv" and known: "get_topic H srv name \<noteq> None" using assms by (simp_all add: between_inv)
  obtain b ps where ps: "HashMap_insert_or_assign (hash_uint32 H) (producer_topics srv) pid name = (b, ps)" by fastforce
  note w = producers_write [OF inv known ps]
  have "view H (srv\<lparr>producer_topics := ps\<rparr>) = broker_step False (Req_connect pid name) (view H srv)"
    using known by (auto simp: view_def w(2-4) logs_None logs_same [OF w(2)])
  then show ?thesis
    using w(1,2) by (intro section_doneI) (auto simp: ps between_inv performs_def untouched_def)
qed

lemma commit_done:
  assumes "between H srv (Commit c n)"
  shows "section_done H (Commit c n) srv (run_task H os (Commit c n) (srv, io))"
proof (cases "client_of H srv c")
  case None
  with assms show ?thesis by (intro section_reads) (auto simp: client_of_def between_inv view_def)
next
  case (Some m)
  have inv: "server_inv H srv" using assms by (simp add: between_inv)
  note w = commit_write [OF inv Some, where n = n]
  have "view H (set_client H srv c (m\<lparr>meta_offset := n\<rparr>)) = broker_step False (Req_commit c n) (view H srv)"
    using Some by (simp add: view_def w(2-4) logs_same [OF w(2)])
  then show ?thesis
    using w(1,2) Some by (intro section_doneI) (auto simp: between_inv performs_def untouched_def client_of_def)
qed

text \<open>The sections under a topic's mutex.\<close>

lemma at_topic_done:
  assumes "tables_ok H srv" and "get_topic H srv name = Some tp" and "f tp = Some (tp', io')"
    and "topic_stop tp' = topic_stop tp" and "topic_worker tp' = topic_worker tp"
    and "consistent H ((get_topic H srv)(name \<mapsto> tp')) (client_of H srv) (producer_of H srv)"
    and "topic_lock t = Some name"
  shows "at_topic H srv name f = Some (set_topic H srv name tp', io')"
    and "between H (set_topic H srv name tp') Idle" and "steady H srv (set_topic H srv name tp')"
    and "untouched H t srv (set_topic H srv name tp')"
    and "get_topic H (set_topic H srv name tp') = (get_topic H srv)(name \<mapsto> tp')"
    and "client_of H (set_topic H srv name tp') = client_of H srv"
    and "producer_of H (set_topic H srv name tp') = producer_of H srv"
proof -
  have "get_topic H srv name \<noteq> None" using assms(2) by simp
  note w = set_topic_correct [OF assms(1) this, of tp']
  show "at_topic H srv name f = Some (set_topic H srv name tp', io')" by (simp add: at_topic_get assms(2,3))
  show "between H (set_topic H srv name tp') Idle" using assms(6) by (simp add: between_def w)
  show "steady H srv (set_topic H srv name tp')" by (rule steady_set_topic [OF assms(1,2,4,5)])
  show "untouched H t srv (set_topic H srv name tp')" using assms(7) by (auto simp: untouched_def w)
qed (use assms(2) set_topic_correct [OF assms(1), of name tp'] in auto)

lemma append_done:
  assumes "between H srv (Append name k v)"
  shows "section_done H (Append name k v) srv (run_task H os (Append name k v) (srv, io))"
proof -
  have inv: "server_inv H srv" using assms by (simp add: between_inv)
  obtain tp where tp: "get_topic H srv name = Some tp" using assms by (auto simp: between_inv)
  let ?tp = "Topic_append_message tp k v"
  have cons: "consistent H ((get_topic H srv)(name \<mapsto> ?tp)) (client_of H srv) (producer_of H srv)"
    by (rule consistent_appended [OF server_invD(2) [OF inv] tp])
  note w = at_topic_done [where t = "Append name k v" and f = "\<lambda>t. Some (Topic_append_message t k v, io)" and tp' = ?tp,
      OF server_invD(1) [OF inv] tp _ _ _ cons]
  have "view H (set_topic H srv name ?tp) = broker_step False (Req_publish name k v) (view H srv)"
    by (simp add: view_def w(6,7) logs_upd [OF w(5)]) (simp add: logs_def tp)
  then show ?thesis
    using w(1-4) by (intro section_doneI) (auto simp: performs_def)
qed

lemma locked_section:
  assumes "tables_ok H srv" and "get_topic H srv name = Some tp" and "f tp = Some (tp', io')" and "same_topic tp tp'"
    and "consistent H ((get_topic H srv)(name \<mapsto> tp')) (client_of H srv) (producer_of H srv)"
    and "topic_lock t = Some name"
  shows "at_topic H srv name f = Some (set_topic H srv name tp', io')"
    and "between H (set_topic H srv name tp') Idle" and "steady H srv (set_topic H srv name tp')"
    and "untouched H t srv (set_topic H srv name tp')" and "view H (set_topic H srv name tp') = view H srv"
proof -
  have "topic_stop tp' = topic_stop tp" "topic_worker tp' = topic_worker tp" using assms(4) by (simp_all add: same_topic_def)
  note w = at_topic_done [where f = f, OF assms(1-3) this assms(5,6)]
  have "logs H (set_topic H srv name tp') = logs H srv"
    by (rule ext) (simp add: logs_def w(5) assms(2) topic_log_same [OF assms(4)])
  then show "view H (set_topic H srv name tp') = view H srv" by (simp add: view_def w(6,7))
qed (use at_topic_done [where f = f, OF assms(1-3) _ _ assms(5,6)] assms(4) in \<open>simp_all add: same_topic_def\<close>)

lemma register_done:
  assumes "between H srv (Register pid c name p n)"
  shows "section_done H (Register pid c name p n) srv (run_task H os (Register pid c name p n) (srv, io))"
proof -
  let ?t = "Register pid c name p n"
  let ?m = "\<lparr>meta_client_id = c, meta_topic = name, meta_offset = n, meta_prefix = p,
    meta_ipc_path = client_fifo_path pid, meta_is_active = True\<rparr>"
  from assms obtain C tp where ok: "tables_ok H srv" and valid: "is_valid_identifier c"
    and cons: "consistent H (get_topic H srv) C (producer_of H srv)" and client: "client_of H srv = C(c \<mapsto> ?m)"
    and tp: "get_topic H srv name = Some tp" by (auto simp: between_def)
  have "topic_inv H tp" by (rule consistentD(1) [OF cons tp])
  from Topic_add_subscriber_correct [OF this, of os c p "client_fifo_path pid" n io] obtain b tp' io'
    where add: "Topic_add_subscriber H os tp c p (client_fifo_path pid) n io = Some (b, tp', io')"
      and tp': "topic_inv H tp'" "same_topic tp tp'"
      and subs: "if b then \<exists>fd. fd \<noteq> - 1 \<and> find_sub H tp' = (find_sub H tp)(c \<mapsto> \<lparr>sub_client_id = c,
             sub_prefix = p, sub_fifo_path = client_fifo_path pid, sub_fifo_fd = fd, sub_next_offset = n\<rparr>)
          else find_sub H tp' = (find_sub H tp)(c := None)" by blast
  have cons': "consistent H ((get_topic H srv)(name \<mapsto> tp')) (client_of H srv) (producer_of H srv)"
    unfolding client by (rule consistent_registered [OF cons tp tp' valid subs])
  let ?f = "\<lambda>t. do { (_, t, io) \<leftarrow> Topic_add_subscriber H os t c p (client_fifo_path pid) n io; Some (t, io) }"
  have "?f tp = Some (tp', io')" "topic_lock ?t = Some name" by (simp_all add: add)
  from locked_section [where f = ?f, OF ok tp this(1) tp'(2) cons' this(2)] show ?thesis
    by (intro section_doneI) (auto simp: performs_def)
qed

lemma unregister_done:
  assumes "between H srv (Unregister c name)"
  shows "section_done H (Unregister c name) srv (run_task H os (Unregister c name) (srv, io))"
proof -
  let ?t = "Unregister c name"
  from assms obtain C m tp where ok: "tables_ok H srv"
    and cons: "consistent H (get_topic H srv) C (producer_of H srv)" and client: "client_of H srv = C(c \<mapsto> m\<lparr>meta_is_active := False\<rparr>)"
    and m: "C c = Some m" "meta_topic m = name"
    and tp: "get_topic H srv name = Some tp" by (auto simp: between_def)
  have "topic_inv H tp" by (rule consistentD(1) [OF cons tp])
  from Topic_remove_subscriber_correct [OF this, of c io] obtain b tp' io'
    where rem: "Topic_remove_subscriber H tp c io = Some (b, tp', io')"
      and tp': "topic_inv H tp'" "same_topic tp tp'" "find_sub H tp' = (find_sub H tp)(c := None)" by blast
  have cons': "consistent H ((get_topic H srv)(name \<mapsto> tp')) (client_of H srv) (producer_of H srv)"
    unfolding client m(2) [symmetric] by (rule consistent_unregistered [OF cons m(1) _ tp']) (simp add: m tp)
  let ?f = "\<lambda>t. do { (_, t, io) \<leftarrow> Topic_remove_subscriber H t c io; Some (t, io) }"
  have "?f tp = Some (tp', io')" "topic_lock ?t = Some name" by (simp_all add: rem)
  from locked_section [where f = ?f, OF ok tp this(1) tp'(2) cons' this(2)] show ?thesis
    by (intro section_doneI) (auto simp: performs_def)
qed

lemma subscribe_done:
  assumes "between H srv (Subscribe pid c name p n)"
  shows "section_done H (Subscribe pid c name p n) srv (run_task H os (Subscribe pid c name p n) (srv, io))"
proof -
  let ?t = "Subscribe pid c name p n"
  have inv: "server_inv H srv" and valid: "is_valid_identifier c" "is_valid_identifier name"
    using assms by (simp_all add: between_inv)
  note ok = server_invD(1) [OF inv]
  obtain dup io1 where probe: "(case client_of H srv c of None \<Rightarrow> (False, io)
      | Some m \<Rightarrow> if meta_is_active m then is_reader_active os (meta_ipc_path m) io else (False, io)) = (dup, io1)"
    by (rule prod.exhaust)
  show ?thesis
  proof (cases "get_topic H srv name = None \<or> dup")
    case True
    then obtain io' where res: "run_task H os ?t (srv, io) = Some (Idle, (srv, io'))"
      using probe by (cases "get_topic H srv name") (auto simp: subscribe_section_def find_topic [OF ok] client_of_def)
    have "\<not> accepts dup (view H srv) c name"
      using True probe by (auto simp: accepts_def view_def logs_None split: option.splits if_splits)
    then have "view H srv = broker_step dup (Req_subscribe pid c name p n) (view H srv)" by simp
    with res inv show ?thesis by (intro section_reads) (auto simp: between_inv simp del: broker_step.simps)
  next
    case False
    then obtain tp where tp: "get_topic H srv name = Some tp" by auto
    let ?n = "subscribe_offset (client_of H srv c) n"
    let ?m = "\<lparr>meta_client_id = c, meta_topic = name, meta_offset = ?n, meta_prefix = p,
      meta_ipc_path = client_fifo_path pid, meta_is_active = True\<rparr>"
    let ?srv = "srv\<lparr>client_index := snd (HashMap_insert_or_assign (hash_string H) (client_index srv) c ?m)\<rparr>"
    have res: "run_task H os ?t (srv, io) = Some (Register pid c name p ?n, (?srv, send_response os pid SUCCESS '''' io1))"
      using probe False tp
      by (simp add: subscribe_section_def find_topic [OF ok] Let_def flip: client_of_def subscribe_offset_def)
    have hm: "hm_inv (hash_string H) (client_index srv)" using ok by (simp add: tables_ok_def)
    note w = clients_write [OF ok insert_or_assign_correct(1,3) [OF hm, of c ?m, folded client_of_def]]
    have "between H ?srv (Register pid c name p ?n)"
      unfolding between_def using w valid tp server_invD(2) [OF inv] by auto
    moreover have "accepts False (view H srv) c name" using valid tp by (simp add: accepts_def view_def logs_None)
    then have "view H ?srv = broker_step False (Req_subscribe pid c name p n) (view H srv)"
      by (simp add: view_def w(1,3) logs_same [OF w(2)])
    then have "performs H ?t srv (Register pid c name p ?n) ?srv" unfolding performs_def by auto
    ultimately show ?thesis
      using w(2) by (intro section_doneI [OF res]) (auto simp: untouched_def)
  qed
qed

lemma deactivate_done:
  assumes "between H srv (Deactivate c)"
  shows "section_done H (Deactivate c) srv (run_task H os (Deactivate c) (srv, io))"
proof (cases "client_of H srv c")
  case None
  with assms show ?thesis by (intro section_reads) (auto simp: client_of_def between_inv view_def)
next
  case (Some m)
  have inv: "server_inv H srv" using assms by (simp add: between_inv)
  note ok = server_invD(1) [OF inv] and cons = server_invD(2) [OF inv]
  let ?srv = "set_client H srv c (m\<lparr>meta_is_active := False\<rparr>)"
  have "client_of H srv c \<noteq> None" using Some by simp
  note w = set_client_correct [OF ok this, of "m\<lparr>meta_is_active := False\<rparr>"]
  obtain tp where tp: "get_topic H srv (meta_topic m) = Some tp" using consistentD(5) [OF cons Some] by blast
  have "run_task H os (Deactivate c) (srv, io) = Some (Unregister c (meta_topic m), (?srv, io))"
    using Some tp by (simp add: find_topic [OF w(4)] w(2) flip: client_of_def)
  moreover have "between H ?srv (Unregister c (meta_topic m))"
    unfolding between_def using w tp cons Some by auto
  moreover have "view H ?srv = broker_step False (Req_disconnect c) (view H srv)"
    using Some by (simp add: view_def w(1,3) logs_same [OF w(2)])
  then have "performs H (Deactivate c) srv (Unregister c (meta_topic m)) ?srv" unfolding performs_def by auto
  ultimately show ?thesis
    using w(2) by (intro section_doneI) (auto simp: untouched_def)
qed

theorem run_task_done:
  assumes "between H srv t" and "t \<noteq> Idle"
  shows "section_done H t srv (run_task H os t (srv, io))"
  using assms
  by (cases t) (auto simp del: run_task.simps intro: dispatch_done respond_done create_done list_done info_done
    find_producer_done insert_producer_done find_topic_done append_done subscribe_done register_done commit_done
    deactivate_done unregister_done)

section \<open>Which workers a section wakes\<close>

text \<open>
  The topics whose condition variable a section notifies: \<^verbatim>\<open>append_message\<close> always does, \<^verbatim>\<open>add_subscriber\<close> if it has
  opened the subscriber's FIFO.
\<close>

fun notified :: "hashes \<Rightarrow> os \<Rightarrow> task \<Rightarrow> server_state \<Rightarrow> string set" where
  "notified H os (Append name key val) s = {name}"
| "notified H os (Register client_pid client_id name prfx start_offset) (srv, io) =
     (case get_topic H srv name of
        None \<Rightarrow> {}
      | Some t \<Rightarrow> (case Topic_add_subscriber H os t client_id prfx (client_fifo_path client_pid) start_offset io of
            Some (True, _) \<Rightarrow> {name}
          | _ \<Rightarrow> {}))"
| "notified H os _ s = {}"

lemma has_work_subs:
  assumes "topic_inv H tp"
  shows "Topic_has_work tp \<longleftrightarrow> topic_stop tp \<or> (\<exists>c sub. find_sub H tp c = Some sub \<and> has_pending (topic_messages tp) sub)"
proof -
  have "hm_inv (hash_string H) (topic_subs tp)" using assms by (simp add: topic_inv_def)
  note entries = hm.in_entries [OF this]
  show ?thesis by (fastforce simp: Topic_has_work_def simp flip: entries)
qed

lemma no_new_work:
  assumes "topic_inv H tp" and "topic_inv H tp'" and "same_topic tp tp'" and "find_sub H tp' = (find_sub H tp)(c := None)"
    and "\<not> Topic_has_work tp"
  shows "\<not> Topic_has_work tp'"
  using assms(3-5) unfolding has_work_subs [OF assms(1)] has_work_subs [OF assms(2)]
  by (auto simp: same_topic_def split: if_splits)

text \<open>A section makes work for a worker only if it notifies it.\<close>

theorem run_task_wakes:
  assumes between: "between H srv t" and run: "run_task H os t (srv, io) = Some (t', (srv', io'))"
    and tp: "get_topic H srv n = Some tp" and idle: "\<not> Topic_has_work tp" and quiet: "n \<notin> notified H os t (srv, io)"
  shows "\<exists>tp'. get_topic H srv' n = Some tp' \<and> \<not> Topic_has_work tp'"
proof (cases "topic_lock t = Some n")
  case False
  show ?thesis
  proof (cases "t = Idle")
    case True
    with run tp idle show ?thesis by simp
  next
    case busy: False
    have "untouched H t srv srv'" using run_task_done [OF between busy, of os io] run by (auto simp: section_done_def)
    with False tp idle show ?thesis by (auto simp: untouched_def)
  qed
next
  case True
  obtain C where ok: "tables_ok H srv" and cons: "consistent H (get_topic H srv) C (producer_of H srv)"
    using between by (auto simp: between_def)
  have inv: "topic_inv H tp" by (rule consistentD(1) [OF cons tp])
  have "get_topic H srv n \<noteq> None" using tp by simp
  note written = set_topic_correct(1) [OF ok this]
  from True show ?thesis
  proof (cases t)
    case (Register pid c name p off)
    with True have name: "name = n" by simp
    from Topic_add_subscriber_correct [OF inv, of os c p "client_fifo_path pid" off io] obtain b tp' io1
      where add: "Topic_add_subscriber H os tp c p (client_fifo_path pid) off io = Some (b, tp', io1)"
        and tp': "topic_inv H tp'" "same_topic tp tp'" "\<not> b \<Longrightarrow> find_sub H tp' = (find_sub H tp)(c := None)" by auto
    have "\<not> b" using quiet tp add Register name by (cases b) auto
    from no_new_work [OF inv tp'(1,2) tp'(3) [OF this] idle] show ?thesis
      using run tp add Register name by (auto simp: at_topic_get written)
  next
    case (Unregister c name)
    with True have name: "name = n" by simp
    from Topic_remove_subscriber_correct [OF inv, of c io] obtain b tp' io1
      where rem: "Topic_remove_subscriber H tp c io = Some (b, tp', io1)"
        and tp': "topic_inv H tp'" "same_topic tp tp'" "find_sub H tp' = (find_sub H tp)(c := None)" by blast
    from no_new_work [OF inv tp' idle] show ?thesis
      using run tp rem Unregister name by (auto simp: at_topic_get written)
  qed (use quiet in auto)
qed

end
