(* ===== verification/Threads.thy ===== *)
theory Threads
  imports Sections
begin

text \<open>
  The server as a system of threads: the sections of the main thread, between which the workers take
  their turns and signals arrive; who holds \<^verbatim>\<open>server_mutex\<close> and the \<^verbatim>\<open>topic_mutex\<close> of each topic, who sleeps in
  \<^verbatim>\<open>cv.wait\<close> and whom \<^verbatim>\<open>cv.notify_all\<close> wakes, the calls that block until a client reads, and the signal handler,
  which runs \<^verbatim>\<open>stop\<close> on the main thread. Every interleaving is a run of the abstract broker; no wake-up is
  lost; and as long as the clients read their answers, what was begun is finished.
\<close>

section \<open>The threads\<close>

text \<open>
  The system: the server, the section of the main thread and whether the thread has entered it,
  how far \<^verbatim>\<open>stop\<close> has come when the thread runs it in the signal handler and whether the shutdown it is in
  has yet to call \<^verbatim>\<open>notify_all\<close>, the topics whose worker is inside its turn and so holds their mutex, and
  those whose worker is blocked in \<^verbatim>\<open>cv.wait\<close>. \<^verbatim>\<open>server_mutex\<close> is only ever locked by the main thread.
\<close>

record system =
  sys_server :: server_state
  sys_task :: task
  sys_inside :: bool
  sys_stop :: stop_phase
  sys_notify :: bool
  sys_workers :: "string set"
  sys_asleep :: "string set"

definition holds_server :: "system \<Rightarrow> bool" where
  "holds_server s \<longleftrightarrow> keeps_server (sys_task s) \<or> sys_inside s \<and> takes_server (sys_task s)"

definition holds_topic :: "system \<Rightarrow> string option" where
  "holds_topic s = (if sys_inside s then topic_lock (sys_task s) else None)"

datatype thread_event =
    Accept u8 "u8 list"
  | Enter
  | Leave
  | Interrupt
  | Shut_topic string
  | Notify_topic string
  | Join_topic string
  | Finish_stop
  | Worker_sleep string
  | Worker_wake string
  | Worker_enter string
  | Worker_leave string
  | Worker_exit string

text \<open>
  A step of a thread. The main thread takes the next frame, enters a section once the mutex of the
  topic is free, and leaves it with its effect once every system call in it has come back; leaving,
  it wakes the workers that the section notifies. A signal is served by the main thread wherever it
  is: \<^verbatim>\<open>stop\<close> begins at once, goes on to the topics if it can have \<^verbatim>\<open>server_mutex\<close>, raises the flag of each
  as soon as its mutex is free, releases the mutex, notifies the worker, and waits for it to end. A worker
  that is awake and finds its mutex free tests its condition: it enters its turn if there is something
  to deliver, leaves its loop if it sees the flag, and otherwise goes to sleep. A worker that sleeps is
  woken by \<^verbatim>\<open>notify_all\<close>, or for no reason.
\<close>

inductive thread_step :: "hashes \<Rightarrow> os \<Rightarrow> system \<Rightarrow> thread_event \<Rightarrow> system \<Rightarrow> bool" for H os where
  accept: "sys_task s = Idle \<Longrightarrow> sys_stop s = No_stop
    \<Longrightarrow> thread_step H os s (Accept act payload) (s\<lparr>sys_task := Dispatch act payload\<rparr>)"
| enter: "sys_task s \<noteq> Idle \<Longrightarrow> \<not> sys_inside s \<Longrightarrow> sys_stop s = No_stop
    \<Longrightarrow> (\<And>n. topic_lock (sys_task s) = Some n \<Longrightarrow> n \<notin> sys_workers s)
    \<Longrightarrow> thread_step H os s Enter (s\<lparr>sys_inside := True\<rparr>)"
| leave: "sys_inside s \<Longrightarrow> sys_stop s = No_stop \<Longrightarrow> run_task H os (sys_task s) (sys_server s) = Some (t, srv)
    \<Longrightarrow> comes_back os (snd (sys_server s)) (snd srv)
    \<Longrightarrow> thread_step H os s Leave (s\<lparr>sys_server := srv, sys_task := t, sys_inside := False,
          sys_asleep := sys_asleep s - notified H os (sys_task s) (sys_server s)\<rparr>)"
| interrupt: "running (fst (sys_server s)) \<Longrightarrow> sys_stop s = No_stop
    \<Longrightarrow> thread_step H os s Interrupt (s\<lparr>sys_server := stop_begin os (sys_server s),
          sys_stop := Shutting (topic_names (fst (sys_server s)))\<rparr>)"
| shut_topic: "sys_stop s = Shutting (n # left) \<Longrightarrow> \<not> holds_server s \<Longrightarrow> holds_topic s \<noteq> Some n \<Longrightarrow> n \<notin> sys_workers s
    \<Longrightarrow> stop_topic H os n (sys_server s) = Some (joins, srv)
    \<Longrightarrow> thread_step H os s (Shut_topic n)
          (s\<lparr>sys_server := srv, sys_stop := (if joins then Joining n left else Shutting left), sys_notify := joins\<rparr>)"
| notify_topic: "sys_stop s = Joining n left \<Longrightarrow> sys_notify s
    \<Longrightarrow> thread_step H os s (Notify_topic n) (s\<lparr>sys_notify := False, sys_asleep := sys_asleep s - {n}\<rparr>)"
| join_topic: "sys_stop s = Joining n left \<Longrightarrow> \<not> sys_notify s \<Longrightarrow> join_topic H n (sys_server s) = Some srv
    \<Longrightarrow> thread_step H os s (Join_topic n) (s\<lparr>sys_server := srv, sys_stop := Shutting left\<rparr>)"
| finish_stop: "sys_stop s = Shutting [] \<Longrightarrow> \<not> holds_server s \<Longrightarrow> close_fifo (sys_server s) = Some srv
    \<Longrightarrow> thread_step H os s Finish_stop (s\<lparr>sys_server := srv, sys_stop := No_stop\<rparr>)"
| worker_sleep: "get_topic H (fst (sys_server s)) n = Some tp \<Longrightarrow> topic_worker tp = Worker_running
    \<Longrightarrow> \<not> Topic_has_work tp \<Longrightarrow> n \<notin> sys_asleep s \<Longrightarrow> n \<notin> sys_workers s \<Longrightarrow> holds_topic s \<noteq> Some n
    \<Longrightarrow> thread_step H os s (Worker_sleep n) (s\<lparr>sys_asleep := insert n (sys_asleep s)\<rparr>)"
| worker_wake: "n \<in> sys_asleep s \<Longrightarrow> thread_step H os s (Worker_wake n) (s\<lparr>sys_asleep := sys_asleep s - {n}\<rparr>)"
| worker_enter: "get_topic H (fst (sys_server s)) n = Some tp \<Longrightarrow> topic_worker tp = Worker_running \<Longrightarrow> \<not> topic_stop tp
    \<Longrightarrow> Topic_has_work tp \<Longrightarrow> n \<notin> sys_asleep s \<Longrightarrow> n \<notin> sys_workers s \<Longrightarrow> holds_topic s \<noteq> Some n
    \<Longrightarrow> thread_step H os s (Worker_enter n) (s\<lparr>sys_workers := insert n (sys_workers s)\<rparr>)"
| worker_leave: "n \<in> sys_workers s \<Longrightarrow> sys_server s = (srv, io) \<Longrightarrow> get_topic H srv n = Some tp
    \<Longrightarrow> Topic_run_iteration H os tp io = Some (tp', io')
    \<Longrightarrow> thread_step H os s (Worker_leave n)
          (s\<lparr>sys_server := (set_topic H srv n tp', io'), sys_workers := sys_workers s - {n}\<rparr>)"
| worker_exit: "sys_server s = (srv, io) \<Longrightarrow> get_topic H srv n = Some tp \<Longrightarrow> topic_worker tp = Worker_running \<Longrightarrow> topic_stop tp
    \<Longrightarrow> n \<notin> sys_asleep s \<Longrightarrow> n \<notin> sys_workers s \<Longrightarrow> holds_topic s \<noteq> Some n
    \<Longrightarrow> Topic_run_iteration H os tp io = Some (tp', io')
    \<Longrightarrow> thread_step H os s (Worker_exit n) (s\<lparr>sys_server := (set_topic H srv n tp', io')\<rparr>)"

inductive thread_run :: "hashes \<Rightarrow> os \<Rightarrow> system \<Rightarrow> thread_event list \<Rightarrow> system \<Rightarrow> bool" for H os where
  Nil: "thread_run H os s [] s"
| Snoc: "thread_run H os s es s1 \<Longrightarrow> thread_step H os s1 e s2 \<Longrightarrow> thread_run H os s (es @ [e]) s2"

inductive_cases thread_stepE: "thread_step H os s e s'"

definition start_system :: "os \<Rightarrow> string \<Rightarrow> io_log \<Rightarrow> system" where
  "start_system os path io = \<lparr>sys_server = Server_new os path io, sys_task = Idle, sys_inside = False,
     sys_stop = No_stop, sys_notify = False, sys_workers = {}, sys_asleep = {}\<rparr>"

section \<open>The invariant of the threads\<close>

text \<open>
  Between the steps the server is sound for the section it is in, no topic is locked twice, a
  worker inside its turn is running and not told to stop, and the topics are as far as the stop has
  come (\<open>stop_ok\<close>); in particular every topic is alive while the server runs. While the stop waits for a
  worker, the main thread does not hold what the worker needs. A worker that sleeps has nothing to do, or
  the main thread is about to notify it.
\<close>

definition at_ease :: "hashes \<Rightarrow> server \<Rightarrow> string \<Rightarrow> bool" where
  "at_ease H srv n \<longleftrightarrow> (\<exists>tp. get_topic H srv n = Some tp \<and> \<not> Topic_has_work tp)"

fun waits_for :: "stop_phase \<Rightarrow> string \<Rightarrow> bool" where
  "waits_for (Joining name left) n \<longleftrightarrow> n = name"
| "waits_for _ n \<longleftrightarrow> False"

definition threads_inv :: "hashes \<Rightarrow> system \<Rightarrow> bool" where
  "threads_inv H s \<longleftrightarrow> between H (fst (sys_server s)) (sys_task s)
     \<and> (sys_inside s \<longrightarrow> sys_task s \<noteq> Idle)
     \<and> stop_ok (running (fst (sys_server s))) (flags H (fst (sys_server s))) (sys_stop s)
     \<and> (\<forall>n left. sys_stop s = Joining n left \<longrightarrow> \<not> holds_server s \<and> holds_topic s \<noteq> Some n)
     \<and> (\<forall>n \<in> sys_workers s. holds_topic s \<noteq> Some n \<and> flags H (fst (sys_server s)) n = Some (False, Worker_running))
     \<and> finite (sys_workers s)
     \<and> (sys_notify s \<longrightarrow> (\<exists>n. waits_for (sys_stop s) n))
     \<and> (\<forall>n \<in> sys_asleep s. n \<notin> sys_workers s
          \<and> (at_ease H (fst (sys_server s)) n \<or> sys_notify s \<and> waits_for (sys_stop s) n))"

text \<open>The requests that a system has taken but not yet performed, and those that an event brings.\<close>

definition requests_in :: "request option \<Rightarrow> request list" where
  "requests_in r = (case r of None \<Rightarrow> [] | Some r \<Rightarrow> [r])"

definition pending :: "system \<Rightarrow> request list" where
  "pending s = requests_in (to_do (sys_task s))"

fun accepted :: "thread_event \<Rightarrow> request list" where
  "accepted (Accept act payload) = requests_in (request_of act payload)"
| "accepted _ = []"

text \<open>A step performs requests: those taken before and now are the performed and the ones still pending.\<close>

definition advances :: "hashes \<Rightarrow> system \<Rightarrow> request list \<Rightarrow> system \<Rightarrow> bool" where
  "advances H s rs s' \<longleftrightarrow> (\<exists>done busy. pending s @ rs = done @ pending s' \<and> length busy = length done
     \<and> view H (fst (sys_server s')) = broker_run busy done (view H (fst (sys_server s))))"

lemma advances_stutter:
  "pending s @ rs = pending s' \<Longrightarrow> view H (fst (sys_server s')) = view H (fst (sys_server s)) \<Longrightarrow> advances H s rs s'"
  by (auto simp: advances_def)

lemma advances_performs:
  assumes "performs H (sys_task s) (fst (sys_server s)) (sys_task s') (fst (sys_server s'))"
  shows "advances H s [] s'"
  using assms unfolding performs_def
proof
  assume "to_do (sys_task s') = to_do (sys_task s) \<and> view H (fst (sys_server s')) = view H (fst (sys_server s))"
  then show ?thesis by (intro advances_stutter) (simp_all add: pending_def)
next
  assume "\<exists>r busy. to_do (sys_task s) = Some r \<and> to_do (sys_task s') = None
    \<and> view H (fst (sys_server s')) = broker_step busy r (view H (fst (sys_server s)))"
  then obtain r busy where "to_do (sys_task s) = Some r" "to_do (sys_task s') = None"
    "view H (fst (sys_server s')) = broker_step busy r (view H (fst (sys_server s)))" by blast
  then show ?thesis unfolding advances_def
    by (intro exI [of _ "[r]"] exI [of _ "[busy]"]) (simp add: pending_def requests_in_def)
qed

lemma advances_trans:
  assumes "advances H s rs s1" and "advances H s1 rs1 s2"
  shows "advances H s (rs @ rs1) s2"
proof -
  from assms obtain d b d1 b1 where d: "pending s @ rs = d @ pending s1" "length b = length d"
      "view H (fst (sys_server s1)) = broker_run b d (view H (fst (sys_server s)))"
    and d1: "pending s1 @ rs1 = d1 @ pending s2" "length b1 = length d1"
      "view H (fst (sys_server s2)) = broker_run b1 d1 (view H (fst (sys_server s1)))"
    unfolding advances_def by blast
  have "pending s @ rs @ rs1 = (d @ d1) @ pending s2"
    using d(1) d1(1) by (metis append.assoc)
  then show ?thesis unfolding advances_def
    using d d1 by (intro exI [of _ "d @ d1"] exI [of _ "b @ b1"]) simp
qed

text \<open>The parts of the invariant, to be shown of a new state.\<close>

lemma threads_invI:
  assumes "between H srv t" and "inside \<Longrightarrow> t \<noteq> Idle" and "stop_ok (running srv) (flags H srv) p"
    and "\<And>n left. p = Joining n left \<Longrightarrow> \<not> keeps_server t \<and> \<not> (inside \<and> takes_server t) \<and> \<not> (inside \<and> topic_lock t = Some n)"
    and "\<And>n. n \<in> ws \<Longrightarrow> (inside \<longrightarrow> topic_lock t \<noteq> Some n) \<and> flags H srv n = Some (False, Worker_running)"
    and "finite ws" and "nt \<Longrightarrow> \<exists>n. waits_for p n"
    and "\<And>n. n \<in> sl \<Longrightarrow> n \<notin> ws \<and> (at_ease H srv n \<or> nt \<and> waits_for p n)"
  shows "threads_inv H \<lparr>sys_server = (srv, io), sys_task = t, sys_inside = inside, sys_stop = p, sys_notify = nt,
    sys_workers = ws, sys_asleep = sl\<rparr>"
  using assms unfolding threads_inv_def holds_topic_def holds_server_def by auto

lemma threads_invD:
  assumes "threads_inv H \<lparr>sys_server = (srv, io), sys_task = t, sys_inside = inside, sys_stop = p, sys_notify = nt,
    sys_workers = ws, sys_asleep = sl\<rparr>"
  shows "between H srv t" and "inside \<Longrightarrow> t \<noteq> Idle" and "stop_ok (running srv) (flags H srv) p"
    and "p = Joining n left \<Longrightarrow> \<not> keeps_server t \<and> \<not> (inside \<and> takes_server t) \<and> \<not> (inside \<and> topic_lock t = Some n)"
    and "n \<in> ws \<Longrightarrow> inside \<Longrightarrow> topic_lock t \<noteq> Some n"
    and "n \<in> ws \<Longrightarrow> flags H srv n = Some (False, Worker_running)" and "finite ws" and "nt \<Longrightarrow> \<exists>n. waits_for p n"
    and "n \<in> sl \<Longrightarrow> n \<notin> ws \<and> (at_ease H srv n \<or> nt \<and> waits_for p n)"
  using assms unfolding threads_inv_def holds_topic_def holds_server_def by auto

lemma at_ease_same: "at_ease H srv n \<Longrightarrow> get_topic H srv' n = get_topic H srv n \<Longrightarrow> at_ease H srv' n"
  by (simp add: at_ease_def)

lemma at_ease_running [simp]: "at_ease H (srv\<lparr>running := b\<rparr>) n = at_ease H srv n"
  by (simp add: at_ease_def)

lemma told_not_at_ease: "flags H srv n = Some (True, w) \<Longrightarrow> \<not> at_ease H srv n"
  by (auto simp: flags_def at_ease_def Topic_has_work_def)

lemma between_running [simp]: "between H (srv\<lparr>running := b\<rparr>) t = between H srv t"
proof -
  have "earlier H (srv\<lparr>running := b\<rparr>) t = earlier H srv t" by (rule ext, cases t) simp_all
  moreover have "task_ok H (srv\<lparr>running := b\<rparr>) t = task_ok H srv t" by (cases t) simp_all
  ultimately show ?thesis by (simp add: between_def)
qed

lemma between_topics:
  assumes "task_ok H srv t" and "\<And>n. get_topic H srv n \<noteq> None \<Longrightarrow> get_topic H srv' n \<noteq> None"
  shows "task_ok H srv' t"
  using assms by (cases t) auto

lemma between_worker:
  assumes "between H srv t" and "get_topic H srv n = Some tp" and "Topic_run_iteration H os tp io = Some (tp', io')"
  shows "between H (set_topic H srv n tp') t"
proof -
  from assms(1) obtain C where ok: "tables_ok H srv" "task_ok H srv t" and C: "earlier H srv t C"
    "consistent H (get_topic H srv) C (producer_of H srv)" by (auto simp: between_def)
  note turn = worker_turn [OF ok(1) C(2) assms(2,3)]
  have "earlier H (set_topic H srv n tp') t C" using C(1) by (cases t) (simp_all add: turn(5))
  moreover have "task_ok H (set_topic H srv n tp') t"
    by (rule between_topics [OF ok(2)]) (auto simp: turn(1) assms(2))
  ultimately show ?thesis using turn(2,4) by (auto simp: between_def)
qed

lemma leave_keeps:
  assumes inv: "threads_inv H s" and "sys_inside s" and "sys_stop s = No_stop"
    and run: "run_task H os (sys_task s) (sys_server s) = Some (t', s')"
  defines "s2 \<equiv> s\<lparr>sys_server := s', sys_task := t', sys_inside := False,
    sys_asleep := sys_asleep s - notified H os (sys_task s) (sys_server s)\<rparr>"
  shows "threads_inv H s2 \<and> advances H s [] s2 \<and> rank t' < rank (sys_task s)"
proof -
  obtain srv io t nt ws sl where s: "s = \<lparr>sys_server = (srv, io), sys_task = t, sys_inside = True, sys_stop = No_stop,
      sys_notify = nt, sys_workers = ws, sys_asleep = sl\<rparr>"
    using assms(2,3) by (cases s) auto
  note I = threads_invD [OF inv [unfolded s]]
  obtain srv' io' where s': "s' = (srv', io')" by fastforce
  have run': "run_task H os t (srv, io) = Some (t', (srv', io'))" using run by (simp add: s s')
  from run_task_done [OF I(1), of os io] I(2) run'
  have d: "between H srv' t'" "steady H srv srv'" "performs H t srv t' srv'" "untouched H t srv srv'" "rank t' < rank t"
    by (auto simp: section_done_def)
  have "flags H srv' n = Some (False, Worker_running)" if "n \<in> ws" for n
    using I(5,6) [OF that] d(4) unfolding untouched_def flags_def by auto
  moreover have "stop_ok (running srv') (flags H srv') No_stop" using I(3) d(2) unfolding stop_ok_idle by (simp add: steady_def)
  moreover have "n \<notin> ws \<and> (at_ease H srv' n \<or> nt \<and> waits_for No_stop n)" if "n \<in> sl - notified H os t (srv, io)" for n
    using I(9) [of n] that run_task_wakes [OF I(1) run', of n] by (auto simp: at_ease_def)
  ultimately have "threads_inv H \<lparr>sys_server = (srv', io'), sys_task = t', sys_inside = False, sys_stop = No_stop,
      sys_notify = nt, sys_workers = ws, sys_asleep = sl - notified H os t (srv, io)\<rparr>"
    using I(7,8) d(1) by (intro threads_invI) simp_all
  moreover have "advances H s [] s2"
    using d(3) by (intro advances_performs) (simp add: s s' s2_def)
  ultimately show ?thesis using d(5) by (simp add: s s' s2_def)
qed

lemma interrupt_keeps:
  fixes os :: os
  assumes inv: "threads_inv H s" and "running (fst (sys_server s))" and "sys_stop s = No_stop"
  defines "s' \<equiv> s\<lparr>sys_server := stop_begin os (sys_server s), sys_stop := Shutting (topic_names (fst (sys_server s)))\<rparr>"
  shows "threads_inv H s' \<and> advances H s [] s' \<and> \<not> running (fst (sys_server s'))"
proof -
  obtain srv io t inside nt ws sl where s: "s = \<lparr>sys_server = (srv, io), sys_task = t, sys_inside = inside, sys_stop = No_stop,
      sys_notify = nt, sys_workers = ws, sys_asleep = sl\<rparr>"
    using assms(3) by (cases s) auto
  note I = threads_invD [OF inv [unfolded s]]
  have calm: "\<not> nt" "\<And>n. n \<in> sl \<Longrightarrow> n \<notin> ws \<and> at_ease H srv n" using I(8,9) by auto
  obtain io' where started: "stop_begin os (srv, io) = (srv\<lparr>running := False\<rparr>, io')" by (rule stop_begin_same)
  have "tables_ok H srv" "alive H srv" using I(1,3) assms(2) unfolding stop_ok_idle by (auto simp: between_def s)
  then have "stop_ok False (flags H srv) (Shutting (topic_names srv))" by (rule stop_starts)
  then have "threads_inv H s'" using I(1,2,5-7) calm started by (auto simp: s s'_def intro!: threads_invI)
  then show ?thesis using started by (auto simp: s s'_def pending_def intro: advances_stutter)
qed

text \<open>A step of the stop: the broker stays as it is.\<close>

lemma stop_step_keeps:
  assumes inv: "threads_inv H s" and "\<not> holds_server s" and srv: "sys_server s = (srv, io)"
    and srv': "server_inv H srv \<Longrightarrow> server_inv H srv'" "view H srv' = view H srv" "running srv' = running srv"
      "\<forall>m. get_topic H srv m \<noteq> None \<longrightarrow> get_topic H srv' m \<noteq> None" "stop_ok (running srv) (flags H srv') p"
    and live: "\<And>n. n \<in> sys_workers s \<Longrightarrow> flags H srv' n = flags H srv n"
    and join: "\<And>n left. p = Joining n left \<Longrightarrow> holds_topic s \<noteq> Some n"
    and sleep: "nt \<Longrightarrow> \<exists>n. waits_for p n" "\<And>n. n \<in> sys_asleep s \<Longrightarrow> at_ease H srv' n \<or> nt \<and> waits_for p n"
  shows "threads_inv H (s\<lparr>sys_server := (srv', io'), sys_stop := p, sys_notify := nt\<rparr>)
    \<and> advances H s [] (s\<lparr>sys_server := (srv', io'), sys_stop := p, sys_notify := nt\<rparr>)"
proof -
  obtain t inside p0 nt0 ws sl where s: "s = \<lparr>sys_server = (srv, io), sys_task = t, sys_inside = inside, sys_stop = p0,
      sys_notify = nt0, sys_workers = ws, sys_asleep = sl\<rparr>"
    using srv by (cases s) auto
  note I = threads_invD [OF inv [unfolded s]]
  have t: "\<not> keeps_server t" "\<not> (inside \<and> takes_server t)" using assms(2) by (auto simp: s holds_server_def)
  then have "server_inv H srv" "task_ok H srv t" using I(1) by (simp_all add: between_inv)
  then have "between H srv' t"
    using t srv'(1) between_topics [of H srv t srv'] srv'(4) by (simp add: between_inv)
  moreover have "stop_ok (running srv') (flags H srv') p" using srv'(3,5) by simp
  moreover have "\<not> (inside \<and> topic_lock t = Some n)" if "p = Joining n left" for n left
    using join [OF that] by (auto simp: s holds_topic_def)
  moreover have "(inside \<longrightarrow> topic_lock t \<noteq> Some n) \<and> flags H srv' n = Some (False, Worker_running)" if "n \<in> ws" for n
    using I(5,6) [OF that] live [of n] that by (simp add: s)
  moreover have "n \<notin> ws \<and> (at_ease H srv' n \<or> nt \<and> waits_for p n)" if "n \<in> sl" for n
    using I(9) [OF that] sleep(2) [of n] that by (simp add: s)
  ultimately have "threads_inv H \<lparr>sys_server = (srv', io'), sys_task = t, sys_inside = inside, sys_stop = p,
      sys_notify = nt, sys_workers = ws, sys_asleep = sl\<rparr>"
    using I(2,7) t sleep(1) by (intro threads_invI) blast+
  then show ?thesis using srv'(2) by (auto simp: s pending_def intro: advances_stutter)
qed

lemma shut_topic_keeps:
  assumes inv: "threads_inv H s" and "sys_stop s = Shutting (n # left)" and "\<not> holds_server s"
    and "holds_topic s \<noteq> Some n" and "n \<notin> sys_workers s"
  shows "\<exists>s'. stop_topic H os n (sys_server s) = Some (True, s') \<and> fifo_fd (fst s') = fifo_fd (fst (sys_server s))
    \<and> threads_inv H (s\<lparr>sys_server := s', sys_stop := Joining n left, sys_notify := True\<rparr>)
    \<and> advances H s [] (s\<lparr>sys_server := s', sys_stop := Joining n left, sys_notify := True\<rparr>)"
proof -
  obtain srv io where srv: "sys_server s = (srv, io)" by fastforce
  have stop: "stop_ok (running srv) (flags H srv) (Shutting (n # left))" "between H srv (sys_task s)"
    using inv assms(2) srv by (simp_all add: threads_inv_def)
  then have "server_inv H srv" using assms(3) by (simp add: between_inv holds_server_def)
  from stop_topic_correct [OF this stop_ok_waiting(2) [OF stop(1)], of os io] obtain srv' io' where
    res: "stop_topic H os n (srv, io) = Some (True, (srv', io'))"
    and srv': "server_inv H srv'" "view H srv' = view H srv" "flags H srv' = (flags H srv)(n \<mapsto> (True, Worker_running))"
      "running srv' = running srv" "fifo_fd srv' = fifo_fd srv" "\<forall>m. get_topic H srv m \<noteq> None \<longrightarrow> get_topic H srv' m \<noteq> None"
      "\<forall>m. m \<noteq> n \<longrightarrow> get_topic H srv' m = get_topic H srv m"
    by auto
  have "stop_ok (running srv) (flags H srv') (Joining n left)" unfolding srv'(3) by (rule stop_raises [OF stop(1)])
  moreover have "flags H srv' m = flags H srv m" if "m \<in> sys_workers s" for m
    using that assms(5) by (auto simp: srv'(3))
  moreover have "at_ease H srv' m \<or> waits_for (Joining n left) m" if "m \<in> sys_asleep s" for m
    using that inv assms(2) srv srv'(7) at_ease_same [of H srv m srv'] by (auto simp: threads_inv_def)
  ultimately show ?thesis
    using stop_step_keeps [OF inv assms(3) srv _ srv'(2,4,6), of "Joining n left" True io'] srv' assms(4) res
    by (simp add: srv)
qed

lemma notify_topic_keeps:
  assumes "threads_inv H s" and "sys_stop s = Joining n left"
  defines "s' \<equiv> s\<lparr>sys_notify := False, sys_asleep := sys_asleep s - {n}\<rparr>"
  shows "threads_inv H s' \<and> advances H s [] s'"
  using assms(1,2)
  by (auto simp: s'_def threads_inv_def holds_topic_def holds_server_def pending_def intro!: advances_stutter)

text \<open>The join comes back when the worker has left its loop, and not before.\<close>

lemma join_topic_finished:
  assumes inv: "threads_inv H s" and "sys_stop s = Joining n left"
  shows "join_topic H n (sys_server s) \<noteq> None \<longleftrightarrow> flags H (fst (sys_server s)) n = Some (True, Worker_finished)"
proof -
  obtain srv io where srv: "sys_server s = (srv, io)" by fastforce
  have stop: "stop_ok (running srv) (flags H srv) (Joining n left)" "between H srv (sys_task s)"
    and free: "\<not> holds_server s" using inv assms(2) srv by (auto simp: threads_inv_def)
  then have "server_inv H srv" by (simp add: between_inv holds_server_def)
  moreover have "tables_ok H srv" using stop(2) by (simp add: between_def)
  ultimately show ?thesis
    using stop_ok_waiting(1) [OF stop(1)] join_topic_correct [of H srv n io] join_topic_waits [of H srv n True io]
    by (auto simp: srv)
qed

lemma join_topic_keeps:
  assumes inv: "threads_inv H s" and "sys_stop s = Joining n left" and "\<not> sys_notify s"
    and join: "join_topic H n (sys_server s) = Some s1"
  defines "s' \<equiv> s\<lparr>sys_server := s1, sys_stop := Shutting left\<rparr>"
  shows "threads_inv H s' \<and> advances H s [] s' \<and> fifo_fd (fst (sys_server s')) = fifo_fd (fst (sys_server s))"
proof -
  obtain srv io where srv: "sys_server s = (srv, io)" by fastforce
  have stop: "stop_ok (running srv) (flags H srv) (Joining n left)" "between H srv (sys_task s)"
    and free: "\<not> holds_server s" using inv assms(2) srv by (auto simp: threads_inv_def)
  then have sound: "server_inv H srv" by (simp add: between_inv holds_server_def)
  have w: "flags H srv n = Some (True, Worker_finished)"
    using join_topic_finished [OF inv assms(2)] join by (simp add: srv)
  from join_topic_correct [OF sound w, of io] obtain srv' where res: "s1 = (srv', io)"
    and srv': "server_inv H srv'" "view H srv' = view H srv" "flags H srv' = (flags H srv)(n \<mapsto> (True, Worker_joined))"
      "running srv' = running srv" "fifo_fd srv' = fifo_fd srv" "\<forall>m. get_topic H srv m \<noteq> None \<longrightarrow> get_topic H srv' m \<noteq> None"
      "\<forall>m. m \<noteq> n \<longrightarrow> get_topic H srv' m = get_topic H srv m"
    using join by (auto simp: srv)
  have "stop_ok (running srv) (flags H srv') (Shutting left)" unfolding srv'(3) by (rule stop_joins [OF stop(1)])
  moreover have "flags H srv' m = flags H srv m" if "m \<in> sys_workers s" for m
    using that inv w srv by (auto simp: srv'(3) threads_inv_def)
  moreover have "at_ease H srv' m" if "m \<in> sys_asleep s" for m
  proof -
    have "at_ease H srv m" using that inv assms(3) srv by (auto simp: threads_inv_def)
    with told_not_at_ease [OF w] srv'(7) show ?thesis by (cases "m = n") (auto intro: at_ease_same)
  qed
  moreover have "s' = s\<lparr>sys_server := s1, sys_stop := Shutting left, sys_notify := False\<rparr>"
    using assms(3) by (simp add: s'_def)
  ultimately show ?thesis
    using stop_step_keeps [OF inv free srv _ srv'(2,4,6), of "Shutting left" False io] srv' res
    by (simp add: srv)
qed

lemma finish_stop_keeps:
  assumes inv: "threads_inv H s" and "sys_stop s = Shutting []" and "\<not> holds_server s"
    and close: "close_fifo (sys_server s) = Some s'"
  shows "threads_inv H (s\<lparr>sys_server := s', sys_stop := No_stop\<rparr>) \<and> advances H s [] (s\<lparr>sys_server := s', sys_stop := No_stop\<rparr>)"
proof -
  obtain srv io where srv: "sys_server s = (srv, io)" by fastforce
  obtain io' where s': "s' = (srv, io')" using close srv by (auto simp: close_fifo_def split: option.splits)
  have "stop_ok (running srv) (flags H srv) (Shutting [])" using inv assms(2) srv by (simp add: threads_inv_def)
  from stop_ends [OF this] have "stop_ok (running srv) (flags H srv) No_stop" .
  moreover have calm: "\<not> sys_notify s" "\<And>n. n \<in> sys_asleep s \<Longrightarrow> at_ease H srv n"
    using inv assms(2) srv by (auto simp: threads_inv_def)
  moreover have same: "s\<lparr>sys_server := s', sys_stop := No_stop, sys_notify := False\<rparr> = s\<lparr>sys_server := s', sys_stop := No_stop\<rparr>"
    using calm(1) by (cases s) simp
  ultimately show ?thesis
    using stop_step_keeps [OF inv assms(3) srv, of srv No_stop False io'] unfolding s' [symmetric] same by simp
qed

text \<open>A step of a worker: at most the flags of its topic change.\<close>

lemma turn_keeps:
  assumes inv: "threads_inv H s" and srv: "sys_server s = (srv, io)" and tp: "get_topic H srv n = Some tp"
    and turn: "Topic_run_iteration H os tp io = Some (tp', io')"
  shows "between H (set_topic H srv n tp') (sys_task s)" and "view H (set_topic H srv n tp') = view H srv"
    and "running (set_topic H srv n tp') = running srv" and "fifo_fd (set_topic H srv n tp') = fifo_fd srv"
    and "get_topic H (set_topic H srv n tp') = (get_topic H srv)(n \<mapsto> tp')"
    and "\<not> topic_stop tp \<Longrightarrow> flags H (set_topic H srv n tp') = flags H srv"
    and "topic_stop tp \<Longrightarrow> flags H (set_topic H srv n tp') = (flags H srv)(n \<mapsto> (True, Worker_finished))"
proof -
  have between: "between H srv (sys_task s)" using inv srv by (simp add: threads_inv_def)
  then obtain C where ok: "tables_ok H srv" and C: "consistent H (get_topic H srv) C (producer_of H srv)"
    by (auto simp: between_def)
  note w = worker_turn [OF ok C tp turn] and keep = Topic_run_keeps [OF consistentD(1) [OF C tp] turn]
  show "between H (set_topic H srv n tp') (sys_task s)" by (rule between_worker [OF between tp turn])
  show "\<not> topic_stop tp \<Longrightarrow> flags H (set_topic H srv n tp') = flags H srv"
    using keep tp by (auto simp: flags_def fun_eq_iff w(1))
  show "topic_stop tp \<Longrightarrow> flags H (set_topic H srv n tp') = (flags H srv)(n \<mapsto> (True, Worker_finished))"
    using turn by (auto simp: flags_def fun_eq_iff w(1) Topic_run_iteration_def)
qed (use worker_turn [OF _ _ tp turn] inv srv in \<open>auto simp: threads_inv_def between_def\<close>)

text \<open>The other topics, and so the workers that sleep on them, stay as they are.\<close>

lemma turn_leaves_asleep:
  assumes inv: "threads_inv H s" and "sys_server s = (srv, io)" and "get_topic H srv' = (get_topic H srv)(n \<mapsto> tp')"
    and "n \<notin> sys_asleep s" and "m \<in> sys_asleep s"
  shows "m \<notin> sys_workers s \<and> (at_ease H srv' m \<or> sys_notify s \<and> waits_for (sys_stop s) m)"
proof -
  have "m \<noteq> n" using assms(4,5) by blast
  with assms(3) have "get_topic H srv' m = get_topic H srv m" by simp
  with inv assms(2,5) show ?thesis by (auto simp: threads_inv_def intro: at_ease_same)
qed

lemma worker_leave_keeps:
  assumes inv: "threads_inv H s" and "n \<in> sys_workers s" and srv: "sys_server s = (srv, io)"
    and tp: "get_topic H srv n = Some tp" and turn: "Topic_run_iteration H os tp io = Some (tp', io')"
  defines "s' \<equiv> s\<lparr>sys_server := (set_topic H srv n tp', io'), sys_workers := sys_workers s - {n}\<rparr>"
  shows "threads_inv H s' \<and> advances H s [] s' \<and> flags H (set_topic H srv n tp') = flags H srv"
proof -
  have "\<not> topic_stop tp" using inv assms(2) srv tp by (auto simp: threads_inv_def flags_def)
  note w = turn_keeps [OF inv srv tp turn] turn_keeps(6) [OF inv srv tp turn this]
  have "n \<notin> sys_asleep s" using inv assms(2) by (auto simp: threads_inv_def)
  note asleep = turn_leaves_asleep [OF inv srv w(5) this]
  have "threads_inv H s'"
    using inv srv w(1,3,8) asleep unfolding threads_inv_def s'_def holds_topic_def holds_server_def
    by (auto split: if_splits)
  then show ?thesis using w by (auto simp: s'_def srv pending_def intro: advances_stutter)
qed

lemma worker_exit_keeps:
  assumes inv: "threads_inv H s" and srv: "sys_server s = (srv, io)" and tp: "get_topic H srv n = Some tp"
    and "topic_worker tp = Worker_running" and "topic_stop tp" and "n \<notin> sys_asleep s"
    and turn: "Topic_run_iteration H os tp io = Some (tp', io')"
  defines "s' \<equiv> s\<lparr>sys_server := (set_topic H srv n tp', io')\<rparr>"
  shows "threads_inv H s' \<and> advances H s [] s' \<and> (\<exists>left. sys_stop s = Joining n left)
    \<and> flags H (set_topic H srv n tp') = (flags H srv)(n \<mapsto> (True, Worker_finished))"
proof -
  note w = turn_keeps [OF inv srv tp turn] turn_keeps(7) [OF inv srv tp turn assms(5)]
  note asleep = turn_leaves_asleep [OF inv srv w(5) assms(6)]
  have F: "flags H srv n = Some (True, Worker_running)" using tp assms(4,5) by (simp add: flags_def)
  have ok: "stop_ok (running srv) (flags H srv) (sys_stop s)" using inv srv by (simp add: threads_inv_def)
  with stop_waits_for [OF ok F] obtain left where p: "sys_stop s = Joining n left" by auto
  have "stop_ok (running srv) (flags H (set_topic H srv n tp')) (Joining n left)"
    unfolding w(8) using ok p by (intro stop_sees) simp
  moreover have "n \<notin> sys_workers s" using inv srv F by (auto simp: threads_inv_def)
  ultimately have "threads_inv H s'"
    using inv srv w(1,3,8) asleep p unfolding threads_inv_def s'_def holds_topic_def holds_server_def by auto
  then show ?thesis using w p by (auto simp: s'_def srv pending_def intro: advances_stutter)
qed

theorem thread_step_keeps:
  assumes inv: "threads_inv H s" and step: "thread_step H os s e s'"
  shows "threads_inv H s' \<and> advances H s (accepted e) s'"
  using step
proof (cases rule: thread_step.cases)
  case (accept act payload)
  with inv show ?thesis
    by (auto simp: threads_inv_def between_inv holds_topic_def pending_def requests_in_def intro!: advances_stutter)
next
  case enter
  with inv show ?thesis
    by (auto simp: threads_inv_def holds_topic_def pending_def intro!: advances_stutter)
next
  case (leave t srv)
  with leave_keeps [OF inv leave(3-5)] show ?thesis by simp
next
  case interrupt
  with interrupt_keeps [OF inv interrupt(3,4)] show ?thesis by simp
next
  case (shut_topic n left joins srv)
  with shut_topic_keeps [OF inv shut_topic(3-6), of os] show ?thesis by auto
next
  case (notify_topic n left)
  with notify_topic_keeps [OF inv notify_topic(3)] show ?thesis by simp
next
  case (join_topic n left srv)
  with join_topic_keeps [OF inv join_topic(3-5)] show ?thesis by simp
next
  case (finish_stop srv)
  with finish_stop_keeps [OF inv finish_stop(3-5)] show ?thesis by simp
next
  case (worker_sleep n tp)
  with inv show ?thesis
    by (auto simp: threads_inv_def at_ease_def holds_topic_def holds_server_def pending_def intro!: advances_stutter)
next
  case (worker_wake n)
  with inv show ?thesis
    by (auto simp: threads_inv_def holds_topic_def holds_server_def pending_def intro!: advances_stutter)
next
  case (worker_enter n tp)
  with inv show ?thesis
    by (auto simp: threads_inv_def flags_def holds_topic_def holds_server_def pending_def intro!: advances_stutter)
next
  case (worker_leave n srv io tp tp' io')
  with worker_leave_keeps [OF inv worker_leave(3-6)] show ?thesis by simp
next
  case (worker_exit srv io n tp tp' io')
  with worker_exit_keeps [OF inv worker_exit(3-7,10)] show ?thesis by simp
qed

section \<open>Runs of the threads\<close>

lemma thread_run_keeps:
  assumes "threads_inv H s" and "thread_run H os s es s'"
  shows "threads_inv H s' \<and> advances H s (concat (map accepted es)) s'"
  using assms(2,1)
proof (induction rule: thread_run.induct)
  case (Nil s)
  then show ?case by (auto intro: advances_stutter)
next
  case (Snoc s es s1 e s2)
  then show ?case using thread_step_keeps [of H s1 os e s2] advances_trans by auto
qed

lemma start_system_inv: "threads_inv H (start_system os path io)"
proof -
  obtain srv io' where "Server_new os path io = (srv, io')" by fastforce
  with Server_new_correct(1,4) [of H os path io] show ?thesis
    by (auto simp: threads_inv_def start_system_def between_inv stop_ok_idle) (auto simp: tidy_def alive_def)
qed

lemma thread_run_append:
  assumes "thread_run H os s es s1" and "thread_run H os s1 es1 s2"
  shows "thread_run H os s (es @ es1) s2"
  using assms(2,1)
proof (induction rule: thread_run.induct)
  case (Snoc s1 es1 s2 e s3)
  then show ?case using thread_run.Snoc [of H os s "es @ es1"] by simp
qed simp

lemma thread_run_single: "thread_step H os s e s' \<Longrightarrow> thread_run H os s [e] s'"
  using thread_run.Snoc [OF thread_run.Nil, of H os s e s'] by simp

lemma run_extends:
  assumes "advances H s rs s'"
  shows "extends (logs H (fst (sys_server s))) (logs H (fst (sys_server s')))"
proof -
  have grow: "extends L (fold log_step rs L)" for L rs
    by (induction rs arbitrary: L) (auto intro: extends_trans extends_log_step)
  from assms obtain d busy where "length busy = length d"
    "view H (fst (sys_server s')) = broker_run busy d (view H (fst (sys_server s)))" by (auto simp: advances_def)
  with logs_broker_run [of busy d "view H (fst (sys_server s))"]
  have "logs H (fst (sys_server s')) = fold log_step d (logs H (fst (sys_server s)))"
    unfolding view_def by (metis broker.select_convs(1))
  with grow show ?thesis by simp
qed

text \<open>Only a signal takes the flag down; the FIFO's descriptor is never replaced.\<close>

lemma thread_step_same:
  assumes inv: "threads_inv H s" and step: "thread_step H os s e s'"
  shows "fifo_fd (fst (sys_server s')) = fifo_fd (fst (sys_server s))"
    and "e \<noteq> Interrupt \<Longrightarrow> running (fst (sys_server s')) = running (fst (sys_server s))"
    and "e = Interrupt \<Longrightarrow> \<not> running (fst (sys_server s'))"
proof -
  let ?R = "\<lambda>s. running (fst (sys_server s))" and ?F = "\<lambda>s. fifo_fd (fst (sys_server s))"
  have stopping: "\<not> ?R s" if "threads_inv H s" and "sys_stop s \<noteq> No_stop" for s
    using that by (cases "sys_stop s") (auto simp: threads_inv_def stop_ok.simps)
  have inv': "threads_inv H s'" using thread_step_keeps [OF inv step] by blast
  have "?F s' = ?F s \<and> (if e = Interrupt then \<not> ?R s' else ?R s' = ?R s)" using step
  proof (cases rule: thread_step.cases)
    case (leave t srv)
    obtain srv0 io where s: "sys_server s = (srv0, io)" by fastforce
    have "between H srv0 (sys_task s)" "sys_task s \<noteq> Idle" using inv leave(3) s by (auto simp: threads_inv_def)
    from run_task_done [OF this, of os io] leave show ?thesis by (auto simp: section_done_def steady_def s)
  next
    case interrupt
    obtain srv io where s: "sys_server s = (srv, io)" by fastforce
    obtain io' where "stop_begin os (srv, io) = (srv\<lparr>running := False\<rparr>, io')" by (rule stop_begin_same)
    with interrupt s show ?thesis by simp
  next
    case (shut_topic n left joins srv)
    then have "sys_stop s \<noteq> No_stop" "sys_stop s' \<noteq> No_stop" by simp_all
    with stopping [OF inv] stopping [OF inv'] shut_topic shut_topic_keeps [OF inv shut_topic(3-6), of os] show ?thesis by auto
  next
    case (join_topic n left srv)
    then have "sys_stop s \<noteq> No_stop" "sys_stop s' \<noteq> No_stop" by simp_all
    with stopping [OF inv] stopping [OF inv'] join_topic join_topic_keeps [OF inv join_topic(3-5)] show ?thesis by auto
  next
    case (finish_stop srv)
    then show ?thesis by (auto simp: close_fifo_def split: option.splits)
  next
    case (worker_leave n srv io tp tp' io')
    with turn_keeps(3,4) [OF inv worker_leave(4-6)] show ?thesis by simp
  next
    case (worker_exit srv io n tp tp' io')
    with turn_keeps(3,4) [OF inv worker_exit(3,4,10)] show ?thesis by simp
  qed simp_all
  then show "?F s' = ?F s" "e \<noteq> Interrupt \<Longrightarrow> ?R s' = ?R s" "e = Interrupt \<Longrightarrow> \<not> ?R s'" by (simp_all split: if_splits)
qed

lemma thread_run_same:
  assumes "thread_run H os s es s'" and "threads_inv H s"
  shows "fifo_fd (fst (sys_server s')) = fifo_fd (fst (sys_server s))
    \<and> (Interrupt \<notin> set es \<longrightarrow> running (fst (sys_server s')) = running (fst (sys_server s)))"
  using assms
proof (induction rule: thread_run.induct)
  case (Snoc s es s1 e s2)
  then show ?case using thread_step_same [of H s1 os e s2] thread_run_keeps [of H s os es s1] by auto
qed simp

section \<open>Progress and deadlock\<close>

text \<open>
  The events that only let the threads finish what they have begun. If a signal has caught the main
  thread with a mutex in its hands, \<^verbatim>\<open>stop\<close> waits for that mutex on the same thread: at once for
  \<^verbatim>\<open>server_mutex\<close>, and when it comes to the topic for its mutex.
\<close>

fun finishing :: "thread_event \<Rightarrow> bool" where
  "finishing (Accept act payload) = False"
| "finishing Interrupt = False"
| "finishing (Worker_sleep n) = False"
| "finishing (Worker_wake n) = False"
| "finishing (Worker_enter n) = False"
| "finishing _ = True"

definition deadlocked :: "system \<Rightarrow> bool" where
  "deadlocked s \<longleftrightarrow> sys_stop s \<noteq> No_stop
     \<and> (holds_server s \<or> (\<exists>n \<in> set (topics_left (sys_stop s)). holds_topic s = Some n))"

definition work :: "hashes \<Rightarrow> system \<Rightarrow> nat" where
  "work H s = card (sys_workers s) + 2 * rank (sys_task s) - (if sys_inside s then 1 else 0)
     + (if sys_notify s then 1 else 0) + stop_work (flags H (fst (sys_server s))) (sys_stop s)"

definition short_logs :: "hashes \<Rightarrow> server \<Rightarrow> bool" where
  "short_logs H srv \<longleftrightarrow> (\<forall>n tp. get_topic H srv n = Some tp \<longrightarrow> length (topic_messages tp) < 2 ^ 32)"

lemma rank_Idle: "rank t = 0 \<longleftrightarrow> t = Idle"
  by (cases t) simp_all

lemma worker_turn_ends:
  assumes "threads_inv H s" and "sys_server s = (srv, io)" and "get_topic H srv n = Some tp" and "short_logs H srv"
  shows "\<exists>tp' io'. Topic_run_iteration H os tp io = Some (tp', io') \<and> topic_messages tp' = topic_messages tp"
proof -
  from assms(1,2) obtain C where "consistent H (get_topic H srv) C (producer_of H srv)"
    by (auto simp: threads_inv_def between_def)
  from consistentD(1) [OF this assms(3)] have tp: "topic_inv H tp" .
  have "length (topic_messages tp) < 2 ^ 32" using assms(3,4) by (auto simp: short_logs_def)
  with Topic_run_iteration_correct [OF tp _ this surjective_pairing, of os io] show ?thesis
    by (cases "topic_stop tp") (auto simp: Topic_run_iteration_def same_topic_def)
qed

lemma workers_leave:
  assumes "threads_inv H s" and "short_logs H (fst (sys_server s))"
  shows "\<exists>es s'. (\<forall>e \<in> set es. finishing e \<and> e \<noteq> Finish_stop) \<and> thread_run H os s es s' \<and> threads_inv H s' \<and> sys_workers s' = {}
    \<and> length es = card (sys_workers s) \<and> sys_task s' = sys_task s \<and> sys_inside s' = sys_inside s
    \<and> sys_stop s' = sys_stop s \<and> fifo_fd (fst (sys_server s')) = fifo_fd (fst (sys_server s))
    \<and> flags H (fst (sys_server s')) = flags H (fst (sys_server s))"
  using assms
proof (induction "card (sys_workers s)" arbitrary: s)
  case 0
  then have "sys_workers s = {}" by (simp add: threads_inv_def)
  with 0 show ?case by (intro exI [of _ "[]"] exI [of _ s]) (auto intro: thread_run.Nil)
next
  case (Suc k)
  then obtain n where n: "n \<in> sys_workers s" by (metis card_eq_0_iff ex_in_conv nat.distinct(1))
  obtain srv io where srv: "sys_server s = (srv, io)" by fastforce
  from n Suc.prems(1) srv obtain tp where tp: "get_topic H srv n = Some tp" by (auto simp: threads_inv_def flags_def)
  have short: "short_logs H srv" using Suc.prems(2) srv by simp
  from worker_turn_ends [OF Suc.prems(1) srv tp this, of os] obtain tp' io'
    where turn: "Topic_run_iteration H os tp io = Some (tp', io')" "topic_messages tp' = topic_messages tp" by blast
  let ?s = "s\<lparr>sys_server := (set_topic H srv n tp', io'), sys_workers := sys_workers s - {n}\<rparr>"
  note w = turn_keeps [OF Suc.prems(1) srv tp turn(1)] and keep = worker_leave_keeps [OF Suc.prems(1) n srv tp turn(1)]
  have step: "thread_step H os s (Worker_leave n) ?s" using n srv tp turn(1) by (rule thread_step.worker_leave)
  have "k = card (sys_workers ?s)" using Suc(2) n Suc.prems(1) by (simp add: threads_inv_def)
  moreover have "threads_inv H ?s" using keep by blast
  moreover have "short_logs H (fst (sys_server ?s))"
    using short turn(2) tp by (auto simp: short_logs_def w(5))
  ultimately obtain es s' where es: "\<forall>e \<in> set es. finishing e \<and> e \<noteq> Finish_stop" "thread_run H os ?s es s'" "threads_inv H s'"
      "sys_workers s' = {}" "length es = card (sys_workers ?s)"
    and same: "sys_task s' = sys_task ?s" "sys_inside s' = sys_inside ?s" "sys_stop s' = sys_stop ?s"
      "fifo_fd (fst (sys_server s')) = fifo_fd (fst (sys_server ?s))" "flags H (fst (sys_server s')) = flags H (fst (sys_server ?s))"
    using Suc(1) by blast
  have "thread_run H os s (Worker_leave n # es) s'"
    using thread_run_append [OF thread_run_single [OF step] es(2)] by simp
  then show ?case
    using es same Suc(2) keep \<open>k = card (sys_workers ?s)\<close>
    by (intro exI [of _ "Worker_leave n # es"] exI [of _ s']) (auto simp: w(4) srv)
qed

lemma main_finishes:
  assumes reads: "clients_read os" and "threads_inv H s" and "sys_stop s = No_stop" and "sys_workers s = {}"
  shows "\<exists>es s'. (\<forall>e \<in> set es. finishing e) \<and> thread_run H os s es s' \<and> threads_inv H s' \<and> sys_task s' = Idle
    \<and> sys_stop s' = No_stop \<and> sys_workers s' = {} \<and> length es \<le> 2 * rank (sys_task s) - (if sys_inside s then 1 else 0)"
  using assms(2-4)
proof (induction "rank (sys_task s)" arbitrary: s rule: less_induct)
  case less
  show ?case
  proof (cases "sys_task s = Idle")
    case True
    with less.prems show ?thesis by (intro exI [of _ "[]"] exI [of _ s]) (auto intro: thread_run.Nil)
  next
    case False
    define es0 where "es0 = (if sys_inside s then [] else [Enter])"
    let ?s0 = "s\<lparr>sys_inside := True\<rparr>"
    have run0: "thread_run H os s es0 ?s0"
    proof (cases "sys_inside s")
      case True
      then have "?s0 = s" by (cases s) simp
      with True show ?thesis by (simp only: es0_def if_True) (rule thread_run.Nil)
    next
      case outside: False
      with thread_run_single [OF thread_step.enter, OF False _ less.prems(2), of H os] less.prems(3)
      show ?thesis by (simp add: es0_def)
    qed
    have inv0: "threads_inv H ?s0" using thread_run_keeps [OF less.prems(1) run0] by blast
    obtain srv io where srv: "sys_server s = (srv, io)" by fastforce
    have "between H srv (sys_task s)" using less.prems(1) srv by (simp add: threads_inv_def)
    from run_task_done [OF this False, of os io] obtain t' s1
      where run: "run_task H os (sys_task ?s0) (sys_server ?s0) = Some (t', s1)" by (auto simp: section_done_def srv)
    let ?s1 = "?s0\<lparr>sys_server := s1, sys_task := t', sys_inside := False,
        sys_asleep := sys_asleep ?s0 - notified H os (sys_task ?s0) (sys_server ?s0)\<rparr>"
    have step: "thread_step H os ?s0 Leave ?s1"
      using less.prems(2) run clients_read_comes_back [OF reads] by (intro thread_step.leave) simp_all
    have "rank t' < rank (sys_task s)" "threads_inv H ?s1"
      using leave_keeps [OF inv0 _ _ run] less.prems(2) by simp_all
    with less.hyps [of ?s1] less.prems obtain es s' where es: "\<forall>e \<in> set es. finishing e" "thread_run H os ?s1 es s'"
      "threads_inv H s'" "sys_task s' = Idle" "sys_stop s' = No_stop" "sys_workers s' = {}" "length es \<le> 2 * rank t'" by auto
    have "thread_run H os s (es0 @ [Leave] @ es) s'"
      using thread_run_append [OF run0 thread_run_append [OF thread_run_single [OF step] es(2)]] by simp
    moreover have "length (es0 @ [Leave] @ es) \<le> 2 * rank (sys_task s) - (if sys_inside s then 1 else 0)"
      using es(7) \<open>rank t' < rank (sys_task s)\<close> by (cases "sys_inside s") (simp_all add: es0_def)
    ultimately show ?thesis using es
      by (intro exI [of _ "es0 @ [Leave] @ es"] exI [of _ s']) (auto simp: es0_def)
  qed
qed

text \<open>However the threads are scheduled, they cannot go on finishing for ever.\<close>

lemma finishing_works:
  assumes inv: "threads_inv H s" and "thread_step H os s e s'" and "finishing e"
  shows "work H s' < work H s"
  using assms(2)
proof (cases rule: thread_step.cases)
  case enter
  then have "rank (sys_task s) \<noteq> 0" by (simp add: rank_Idle)
  with enter show ?thesis by (simp add: work_def)
next
  case (leave t srv)
  then have "rank t < rank (sys_task s)" using leave_keeps [OF inv leave(3-5)] by blast
  with leave show ?thesis by (simp add: work_def)
next
  case (shut_topic n left joins srv)
  with shut_topic_keeps [OF inv shut_topic(3-6), of os] have joins by auto
  with shut_topic show ?thesis by (simp add: work_def)
next
  case (notify_topic n left)
  then show ?thesis by (simp add: work_def)
next
  case (join_topic n left srv)
  have F: "flags H (fst (sys_server s)) n = Some (True, Worker_finished)"
    using join_topic_finished [OF inv join_topic(3)] join_topic(5) by auto
  with join_topic show ?thesis by (simp add: work_def)
next
  case (finish_stop srv)
  then show ?thesis by (simp add: work_def)
next
  case (worker_leave n srv io tp tp' io')
  have "card (sys_workers s - {n}) < card (sys_workers s)"
    using worker_leave(3) inv by (intro card_Diff1_less) (simp_all add: threads_inv_def)
  moreover have "sys_inside s \<Longrightarrow> rank (sys_task s) \<noteq> 0" using inv by (simp add: threads_inv_def rank_Idle)
  ultimately show ?thesis using worker_leave worker_leave_keeps [OF inv worker_leave(3-6)] by (auto simp: work_def)
next
  case (worker_exit srv io n tp tp' io')
  with worker_exit_keeps [OF inv worker_exit(3-7,10)] show ?thesis by (auto simp: work_def flags_def [of H srv])
qed (use assms(3) in simp_all)

lemma finishing_bounded:
  assumes "thread_run H os s es s'" and "threads_inv H s" and "\<forall>e \<in> set es. finishing e"
  shows "length es + work H s' \<le> work H s"
  using assms
proof (induction rule: thread_run.induct)
  case (Snoc s es s1 e s2)
  then have "threads_inv H s1" using thread_run_keeps by blast
  from finishing_works [OF this Snoc(2)] Snoc show ?case by simp
qed simp

text \<open>
  One step of a stop that is not deadlocked and not at its end, once no worker is inside its turn. The
  worker that the stop waits for is awake as soon as it has been notified.
\<close>

lemma stop_goes_on:
  assumes inv: "threads_inv H s" and "sys_stop s \<noteq> No_stop" and "sys_stop s \<noteq> Shutting []" and "\<not> deadlocked s"
    and "sys_workers s = {}"
  shows "\<exists>e s'. finishing e \<and> e \<noteq> Finish_stop \<and> thread_step H os s e s' \<and> threads_inv H s' \<and> sys_stop s' \<noteq> No_stop
    \<and> sys_workers s' = {} \<and> \<not> deadlocked s' \<and> fifo_fd (fst (sys_server s')) = fifo_fd (fst (sys_server s))
    \<and> sys_task s' = sys_task s \<and> sys_inside s' = sys_inside s"
proof -
  obtain srv io where srv: "sys_server s = (srv, io)" by fastforce
  have free: "\<not> holds_server s" using assms(2,4) by (simp add: deadlocked_def)
  have ok: "stop_ok (running srv) (flags H srv) (sys_stop s)" using inv srv by (simp add: threads_inv_def)
  note holds = deadlocked_def holds_server_def holds_topic_def
  show ?thesis
  proof (cases "sys_stop s")
    case (Shutting left)
    then obtain n rest where p: "sys_stop s = Shutting (n # rest)" using assms(3) by (cases left) auto
    have out: "holds_topic s \<noteq> Some n" "n \<notin> sys_workers s" using p assms(4,5) by (auto simp: deadlocked_def)
    from shut_topic_keeps [OF inv p free out, of os] obtain s' where s': "stop_topic H os n (sys_server s) = Some (True, s')"
      "fifo_fd (fst s') = fifo_fd (fst (sys_server s))"
      "threads_inv H (s\<lparr>sys_server := s', sys_stop := Joining n rest, sys_notify := True\<rparr>)" by blast
    with thread_step.shut_topic [OF p free out s'(1)] assms(4,5) p show ?thesis
      by (intro exI [of _ "Shut_topic n"] exI [of _ "s\<lparr>sys_server := s', sys_stop := Joining n rest, sys_notify := True\<rparr>"])
        (auto simp: holds)
  next
    case (Joining n left)
    show ?thesis
    proof (cases "sys_notify s")
      case True
      with thread_step.notify_topic [OF Joining True] notify_topic_keeps [OF inv Joining] assms(4,5) Joining show ?thesis
        by (intro exI [of _ "Notify_topic n"] exI [of _ "s\<lparr>sys_notify := False, sys_asleep := sys_asleep s - {n}\<rparr>"])
          (auto simp: holds)
    next
      case told: False
      show ?thesis
      proof (cases "flags H srv n = Some (True, Worker_finished)")
        case True
        then obtain s1 where join: "join_topic H n (sys_server s) = Some s1"
          using join_topic_finished [OF inv Joining] srv by auto
        let ?s = "s\<lparr>sys_server := s1, sys_stop := Shutting left\<rparr>"
        show ?thesis
          using thread_step.join_topic [OF Joining told join] join_topic_keeps [OF inv Joining told join] assms(4,5) Joining
          by (intro exI [of _ "Join_topic n"] exI [of _ ?s]) (auto simp: holds)
      next
        case False
        then have F: "flags H srv n = Some (True, Worker_running)" using stop_ok_waiting(1) ok Joining by metis
        then obtain tp where tp: "get_topic H srv n = Some tp" "topic_stop tp" "topic_worker tp = Worker_running"
          by (auto simp: flags_def)
        then obtain tp' io' where turn: "Topic_run_iteration H os tp io = Some (tp', io')"
          by (simp add: Topic_run_iteration_def)
        have awake: "n \<notin> sys_asleep s" using inv told told_not_at_ease [OF F] srv by (auto simp: threads_inv_def)
        have "n \<notin> sys_workers s" "holds_topic s \<noteq> Some n" using inv Joining assms(5) by (auto simp: threads_inv_def)
        from thread_step.worker_exit [OF srv tp(1,3,2) awake this turn]
        show ?thesis
          using worker_exit_keeps [OF inv srv tp(1,3,2) awake turn] turn_keeps(4) [OF inv srv tp(1) turn] assms(2,4,5) srv
          by (intro exI [of _ "Worker_exit n"] exI [of _ "s\<lparr>sys_server := (set_topic H srv n tp', io')\<rparr>"]) (auto simp: holds)
      qed
    qed
  qed (use assms(2) in simp)
qed

lemma stop_empties:
  assumes "threads_inv H s" and "sys_stop s \<noteq> No_stop" and "\<not> deadlocked s" and "sys_workers s = {}"
  shows "\<exists>es s'. (\<forall>e \<in> set es. finishing e \<and> e \<noteq> Finish_stop) \<and> thread_run H os s es s' \<and> threads_inv H s'
    \<and> sys_stop s' = Shutting [] \<and> sys_workers s' = {} \<and> \<not> deadlocked s'
    \<and> fifo_fd (fst (sys_server s')) = fifo_fd (fst (sys_server s)) \<and> sys_task s' = sys_task s \<and> sys_inside s' = sys_inside s"
  using assms
proof (induction "work H s" arbitrary: s rule: less_induct)
  case less
  show ?case
  proof (cases "sys_stop s = Shutting []")
    case True
    with less.prems show ?thesis by (intro exI [of _ "[]"] exI [of _ s]) (auto intro: thread_run.Nil)
  next
    case False
    from stop_goes_on [OF less.prems(1,2) False less.prems(3,4), of os] obtain e s1
      where e: "finishing e" "thread_step H os s e s1" "e \<noteq> Finish_stop"
      and s1: "threads_inv H s1" "sys_stop s1 \<noteq> No_stop" "\<not> deadlocked s1" "sys_workers s1 = {}"
      and same: "fifo_fd (fst (sys_server s1)) = fifo_fd (fst (sys_server s))" "sys_task s1 = sys_task s" "sys_inside s1 = sys_inside s"
      by blast
    from less.hyps [OF finishing_works [OF less.prems(1) e(2,1)] s1] obtain es s' where
      es: "\<forall>e \<in> set es. finishing e \<and> e \<noteq> Finish_stop" "thread_run H os s1 es s'" "threads_inv H s'" "sys_stop s' = Shutting []"
        "sys_workers s' = {}" "\<not> deadlocked s'" "fifo_fd (fst (sys_server s')) = fifo_fd (fst (sys_server s1))"
        "sys_task s' = sys_task s1" "sys_inside s' = sys_inside s1" by blast
    have "thread_run H os s (e # es) s'"
      using thread_run_append [OF thread_run_single [OF e(2)] es(2)] by simp
    with e es same show ?thesis by (intro exI [of _ "e # es"] exI [of _ s']) simp
  qed
qed

lemma stop_finishes:
  assumes inv: "threads_inv H s" and "\<not> deadlocked s" and "sys_workers s = {}" and "fifo_fd (fst (sys_server s)) \<noteq> None"
  shows "\<exists>es s'. (\<forall>e \<in> set es. finishing e) \<and> thread_run H os s es s' \<and> threads_inv H s' \<and> sys_stop s' = No_stop
    \<and> sys_workers s' = {} \<and> sys_task s' = sys_task s \<and> sys_inside s' = sys_inside s"
proof (cases "sys_stop s = No_stop")
  case True
  with assms show ?thesis by (intro exI [of _ "[]"] exI [of _ s]) (auto intro: thread_run.Nil)
next
  case False
  from stop_empties [OF inv False assms(2,3), of os] obtain es s1 where es: "\<forall>e \<in> set es. finishing e"
    "thread_run H os s es s1" and s1: "threads_inv H s1" "sys_stop s1 = Shutting []" "sys_workers s1 = {}" "\<not> deadlocked s1"
    and same: "fifo_fd (fst (sys_server s1)) = fifo_fd (fst (sys_server s))" "sys_task s1 = sys_task s" "sys_inside s1 = sys_inside s"
    by blast
  have free: "\<not> holds_server s1" using s1(2,4) by (simp add: deadlocked_def)
  obtain srv where close: "close_fifo (sys_server s1) = Some srv"
    using assms(4) same(1) by (auto simp: close_fifo_def)
  let ?s2 = "s1\<lparr>sys_server := srv, sys_stop := No_stop\<rparr>"
  have "thread_run H os s (es @ [Finish_stop]) ?s2"
    using es(2) thread_step.finish_stop [OF s1(2) free close] by (rule thread_run.Snoc)
  with finish_stop_keeps [OF s1(1,2) free close] es(1) s1(3) same show ?thesis
    by (intro exI [of _ "es @ [Finish_stop]"] exI [of _ ?s2]) simp
qed

theorem threads_finish:
  assumes "clients_read os" and "threads_inv H s" and "\<not> deadlocked s" and "short_logs H (fst (sys_server s))"
    and "fifo_fd (fst (sys_server s)) \<noteq> None"
  shows "\<exists>es s'. (\<forall>e \<in> set es. finishing e) \<and> thread_run H os s es s' \<and> sys_task s' = Idle \<and> sys_stop s' = No_stop
    \<and> sys_workers s' = {}"
proof -
  from workers_leave [OF assms(2,4), of os] obtain es1 s1 where run1: "\<forall>e \<in> set es1. finishing e \<and> e \<noteq> Finish_stop"
    "thread_run H os s es1 s1" "threads_inv H s1" "sys_workers s1 = {}"
    and same: "sys_task s1 = sys_task s" "sys_inside s1 = sys_inside s" "sys_stop s1 = sys_stop s"
      "fifo_fd (fst (sys_server s1)) = fifo_fd (fst (sys_server s))" by blast
  have "\<not> deadlocked s1" "fifo_fd (fst (sys_server s1)) \<noteq> None"
    using assms(3,5) same by (auto simp: deadlocked_def holds_server_def holds_topic_def)
  from stop_finishes [OF run1(3) this(1) run1(4) this(2), of os] obtain es2 s2 where run2: "\<forall>e \<in> set es2. finishing e"
    "thread_run H os s1 es2 s2" "threads_inv H s2" "sys_stop s2 = No_stop" "sys_workers s2 = {}" by blast
  from main_finishes [OF assms(1) run2(3-5)] obtain es3 s3 where run3: "\<forall>e \<in> set es3. finishing e"
    "thread_run H os s2 es3 s3" "sys_task s3 = Idle" "sys_stop s3 = No_stop" "sys_workers s3 = {}" by blast
  show ?thesis
    using thread_run_append [OF run1(2) thread_run_append [OF run2(2) run3(2)]] run1(1) run2(1) run3
    by (intro exI [of _ "es1 @ es2 @ es3"] exI [of _ s3]) auto
qed

text \<open>A deadlock is for ever: the main thread never goes on with its request.\<close>

fun stays_deadlocked :: "thread_event \<Rightarrow> bool" where
  "stays_deadlocked (Shut_topic n) = True"
| "stays_deadlocked (Notify_topic n) = True"
| "stays_deadlocked (Join_topic n) = True"
| "stays_deadlocked (Worker_sleep n) = True"
| "stays_deadlocked (Worker_wake n) = True"
| "stays_deadlocked (Worker_enter n) = True"
| "stays_deadlocked (Worker_leave n) = True"
| "stays_deadlocked (Worker_exit n) = True"
| "stays_deadlocked _ = False"

theorem deadlock_stays:
  assumes "thread_run H os s es s'" and "deadlocked s"
  shows "deadlocked s' \<and> sys_task s' = sys_task s \<and> sys_inside s' = sys_inside s \<and> (\<forall>e \<in> set es. stays_deadlocked e)"
  using assms
proof (induction rule: thread_run.induct)
  case (Snoc s es s1 e s2)
  from Snoc(2) have "deadlocked s1 \<Longrightarrow> deadlocked s2 \<and> sys_task s2 = sys_task s1 \<and> sys_inside s2 = sys_inside s1
      \<and> stays_deadlocked e"
    by (cases rule: thread_step.cases) (auto simp: deadlocked_def holds_server_def holds_topic_def split: if_splits)
  with Snoc show ?case by auto
qed simp

text \<open>A worker that is awake and has messages to deliver can deliver them.\<close>

lemma turn_delivers:
  assumes inv: "threads_inv H s" and tp: "get_topic H (fst (sys_server s)) n = Some tp"
    and run: "topic_worker tp = Worker_running" and work: "Topic_has_work tp"
    and free: "\<not> topic_stop tp" "n \<notin> sys_workers s" "holds_topic s \<noteq> Some n" "n \<notin> sys_asleep s"
    and short: "length (topic_messages tp) < 2 ^ 32"
  shows "\<exists>s' tp'. thread_run H os s [Worker_enter n, Worker_leave n] s' \<and> get_topic H (fst (sys_server s')) n = Some tp'
    \<and> topic_messages tp' = topic_messages tp \<and> \<not> Topic_has_work tp'"
proof -
  obtain srv io where srv: "sys_server s = (srv, io)" by fastforce
  have tp0: "get_topic H srv n = Some tp" using tp srv by simp
  from inv srv obtain C where "consistent H (get_topic H srv) C (producer_of H srv)"
    by (auto simp: threads_inv_def between_def)
  from Topic_run_iteration_correct [OF consistentD(1) [OF this tp0] free(1) short surjective_pairing, of os io] obtain tp' io'
    where turn: "Topic_run_iteration H os tp io = Some (tp', io')" "topic_messages tp' = topic_messages tp" "\<not> Topic_has_work tp'"
    by (auto simp: same_topic_def)
  let ?s1 = "s\<lparr>sys_workers := insert n (sys_workers s)\<rparr>"
  let ?s2 = "?s1\<lparr>sys_server := (set_topic H srv n tp', io'), sys_workers := sys_workers ?s1 - {n}\<rparr>"
  have "thread_step H os s (Worker_enter n) ?s1"
    by (rule thread_step.worker_enter [OF tp run free(1) work free(4,2,3)])
  moreover have "thread_step H os ?s1 (Worker_leave n) ?s2"
    by (rule thread_step.worker_leave [OF _ _ tp0 turn(1)]) (simp_all add: srv)
  ultimately have "thread_run H os s ([Worker_enter n] @ [Worker_leave n]) ?s2"
    by (intro thread_run_append thread_run_single)
  moreover have "get_topic H (fst (sys_server ?s2)) n = Some tp'"
    using turn_keeps(5) [OF inv srv tp0 turn(1)] by simp
  ultimately show ?thesis using turn(2,3)
    by (intro exI [of _ ?s2] exI [of _ tp']) simp
qed

section \<open>A client that does not read\<close>

text \<open>
  The client that a section answers, whatever it finds in the tables: \<^verbatim>\<open>send_response\<close> opens the FIFO of the
  client, and the call blocks until somebody reads it.
\<close>

fun must_answer :: "task \<Rightarrow> u32 option" where
  "must_answer (Respond pid st) = Some pid"
| "must_answer (List_topics pid) = Some pid"
| "must_answer (Info pid c) = Some pid"
| "must_answer (Subscribe pid c name p n) = Some pid"
| "must_answer _ = None"

definition never_read :: "os \<Rightarrow> u32 \<Rightarrow> bool" where
  "never_read os pid \<longleftrightarrow> (\<forall>io fd. \<not> os_returns os io (Open_wr (client_fifo_path pid) fd))"

lemma response_opens: "\<exists>fd post. send_response os pid st p io = io @ Open_wr (client_fifo_path pid) fd # post"
  by (simp add: send_response_def sys_open_wr_def sys_write_def sys_close_def Let_def)

lemma probe_extends: "is_reader_active os path io = (b, io') \<Longrightarrow> \<exists>pre. io' = io @ pre"
  by (auto simp: is_reader_active_def sys_open_wr_nb_def sys_close_def Let_def split: if_splits)

lemma section_opens:
  assumes "must_answer t = Some pid" and "run_task H os t (srv, io) = Some (t', (srv', io'))"
  shows "\<exists>pre fd post. io' = io @ pre @ Open_wr (client_fifo_path pid) fd # post"
proof -
  have "\<exists>io1 pre st p. io' = send_response os pid st p io1 \<and> io1 = io @ pre"
  proof (cases t)
    case (Subscribe pid' c name p n)
    define meta where "meta = HashMap_find (hash_string H) (client_index srv) c"
    obtain dup io1 where probe: "(case meta of None \<Rightarrow> (False, io)
        | Some m \<Rightarrow> if meta_is_active m then is_reader_active os (meta_ipc_path m) io else (False, io)) = (dup, io1)"
      by (rule prod.exhaust)
    then have "\<exists>pre. io1 = io @ pre" by (auto split: option.splits if_splits dest: probe_extends)
    moreover have "\<exists>st. io' = send_response os pid st '''' io \<or> io' = send_response os pid st '''' io1"
      using assms probe unfolding Subscribe meta_def
      by (auto simp: subscribe_section_def Let_def split: option.splits if_splits)
    ultimately show ?thesis by (metis append_Nil2)
  qed (use assms in \<open>auto simp: bind_eq_Some_conv split: option.splits\<close>)
  then obtain io1 pre st p where "io' = send_response os pid st p io1" "io1 = io @ pre" by blast
  with response_opens [of os pid st p io1] show ?thesis by (metis append.assoc)
qed

lemma opens_never_returns:
  assumes "never_read os pid"
  shows "\<not> comes_back os io (io @ pre @ Open_wr (client_fifo_path pid) fd # post)"
  using assms by (simp add: comes_back_def calls_return_append never_read_def)

lemma stays_stalled:
  assumes "thread_run H os s es s2" and "must_answer (sys_task s) = Some pid" and "never_read os pid"
  shows "sys_task s2 = sys_task s \<and> (sys_inside s \<longrightarrow> sys_inside s2) \<and> (\<forall>e \<in> set es. \<forall>act payload. e \<noteq> Accept act payload)"
  using assms
proof (induction rule: thread_run.induct)
  case (Snoc s es s1 e s2)
  then have IH: "sys_task s1 = sys_task s" "sys_inside s \<longrightarrow> sys_inside s1" "\<forall>e \<in> set es. \<forall>act payload. e \<noteq> Accept act payload"
    and pid: "must_answer (sys_task s1) = Some pid" by auto
  have "sys_task s2 = sys_task s1 \<and> (sys_inside s1 \<longrightarrow> sys_inside s2) \<and> (\<forall>act payload. e \<noteq> Accept act payload)" using Snoc(2)
  proof (cases rule: thread_step.cases)
    case (leave t srv)
    obtain srv0 io srv1 io1 where "sys_server s1 = (srv0, io)" "srv = (srv1, io1)" by fastforce
    with leave section_opens [OF pid, of H os srv0 io t srv1 io1] opens_never_returns [OF Snoc(5), of io] show ?thesis by auto
  qed (use pid in auto)
  with IH show ?case by auto
qed simp

section \<open>Properties\<close>

abbreviation empty_broker :: broker where
  "empty_broker \<equiv> \<lparr>ab_logs = Map.empty, ab_clients = Map.empty, ab_producers = Map.empty\<rparr>"

lemma start_view: "view H (fst (sys_server (start_system os path io))) = empty_broker" "pending (start_system os path io) = []"
  using Server_new_correct(2) [of H os path io] Server_new_maps [of H os path io]
  by (simp_all add: start_system_def view_def pending_def requests_in_def)

lemmas started = thread_run_keeps [OF start_system_inv]

text \<open>A run that creates a topic, for the concrete instances.\<close>

lemma accepts_nothing: "\<forall>e \<in> set es. finishing e \<Longrightarrow> concat (map accepted es) = []"
  by (simp add: concat_eq_Nil_conv) (metis accepted.simps(2-) finishing.elims(2))

lemma request_served:
  assumes reads: "clients_read os" and inv: "threads_inv H s" and idle: "sys_task s = Idle" "sys_stop s = No_stop" "sys_workers s = {}"
    and r: "request_of act payload = Some r"
  shows "\<exists>es s' busy. (\<forall>e \<in> set es. finishing e) \<and> thread_run H os s (Accept act payload # es) s' \<and> threads_inv H s'
    \<and> sys_task s' = Idle \<and> sys_stop s' = No_stop \<and> sys_workers s' = {}
    \<and> view H (fst (sys_server s')) = broker_step busy r (view H (fst (sys_server s)))"
proof -
  let ?s = "s\<lparr>sys_task := Dispatch act payload\<rparr>"
  have step: "thread_step H os s (Accept act payload) ?s" using idle by (intro thread_step.accept)
  then have "threads_inv H ?s" using thread_step_keeps [OF inv] by blast
  from main_finishes [OF reads this] idle obtain es s' where es: "\<forall>e \<in> set es. finishing e" "thread_run H os ?s es s'"
    and s': "threads_inv H s'" "sys_task s' = Idle" "sys_stop s' = No_stop" "sys_workers s' = {}" by auto
  have run: "thread_run H os s (Accept act payload # es) s'"
    using thread_run_append [OF thread_run_single [OF step] es(2)] by simp
  have "advances H s [r] s'"
    using thread_run_keeps [OF inv run] accepts_nothing [OF es(1)] by (simp add: r requests_in_def)
  then obtain busy where "view H (fst (sys_server s')) = broker_run busy [r] (view H (fst (sys_server s)))" "length busy = length [r]"
    using idle s'(2) by (auto simp: advances_def pending_def requests_in_def)
  then have "view H (fst (sys_server s')) = broker_step (hd busy) r (view H (fst (sys_server s)))"
    by (auto simp: length_Suc_conv)
  with es(1) run s' show ?thesis by blast
qed

lemma sample_run:
  "\<exists>es s. thread_run sample_hashes sample_os (start_system sample_os ''/s'' []) es s \<and> sys_task s = Idle \<and> sys_stop s = No_stop
     \<and> concat (map accepted es) = [Req_create 1 ''t''] \<and> logs sample_hashes (fst (sys_server s)) ''t'' = Some []
     \<and> sys_workers s = {} \<and> client_of sample_hashes (fst (sys_server s)) = Map.empty \<and> Interrupt \<notin> set es"
proof -
  let ?start = "start_system sample_os ''/s'' []"
  have "named_ok (1, ''t'')" by (simp add: named_ok_def)
  from create_codec.framed [OF this] obtain payload
    where payload: "parse_create payload (length payload) = Some (Parsed (1, ''t''))" by auto
  have req: "request_of 1 payload = Some (Req_create 1 ''t'')" by (simp add: request_of_def payload)
  have idle: "sys_task ?start = Idle" "sys_stop ?start = No_stop" "sys_workers ?start = {}" by (simp_all add: start_system_def)
  from request_served [OF sample_clients_read start_system_inv [where H = sample_hashes] this req]
  obtain es s busy where es: "\<forall>e \<in> set es. finishing e"
    and run: "thread_run sample_hashes sample_os ?start (Accept 1 payload # es) s"
    and s: "sys_task s = Idle" "sys_stop s = No_stop" "sys_workers s = {}"
    and view: "view sample_hashes (fst (sys_server s)) = broker_step busy (Req_create 1 ''t'') empty_broker"
    unfolding start_view by blast
  have "view sample_hashes (fst (sys_server s)) = empty_broker\<lparr>ab_logs := [''t'' \<mapsto> []]\<rparr>"
    unfolding view by (simp add: is_valid_identifier_def is_alnum_def)
  then have "logs sample_hashes (fst (sys_server s)) ''t'' = Some []" "client_of sample_hashes (fst (sys_server s)) = Map.empty"
    by (simp_all add: view_def)
  moreover have "concat (map accepted (Accept 1 payload # es)) = [Req_create 1 ''t'']"
    using accepts_nothing [OF es] by (simp add: req requests_in_def)
  moreover have "Interrupt \<notin> set (Accept 1 payload # es)" using es by auto
  ultimately show ?thesis using run s by blast
qed

text \<open>A section that nobody disturbs, and a run after which a subscriber is behind the log.\<close>

lemma section_run:
  assumes "clients_read os" and "sys_task s \<noteq> Idle" and "\<not> sys_inside s" and "sys_stop s = No_stop" and "sys_workers s = {}"
    and run: "run_task H os (sys_task s) (sys_server s) = Some (t, srv)"
  shows "thread_run H os s [Enter, Leave]
    (s\<lparr>sys_server := srv, sys_task := t, sys_asleep := sys_asleep s - notified H os (sys_task s) (sys_server s)\<rparr>)"
proof -
  let ?s = "s\<lparr>sys_inside := True\<rparr>"
  have "thread_step H os s Enter ?s" using assms(2-5) by (intro thread_step.enter) simp_all
  moreover have "thread_step H os ?s Leave (?s\<lparr>sys_server := srv, sys_task := t, sys_inside := False,
      sys_asleep := sys_asleep ?s - notified H os (sys_task ?s) (sys_server ?s)\<rparr>)"
    using assms(4) run clients_read_comes_back [OF assms(1)] by (intro thread_step.leave) simp_all
  ultimately have "thread_run H os s ([Enter] @ [Leave]) (?s\<lparr>sys_server := srv, sys_task := t, sys_inside := False,
      sys_asleep := sys_asleep ?s - notified H os (sys_task ?s) (sys_server ?s)\<rparr>)"
    by (intro thread_run_append thread_run_single)
  then show ?thesis using assms(3) by (cases s) simp
qed

definition at_gate :: "system \<Rightarrow> bool" where
  "at_gate s \<longleftrightarrow> \<not> sys_inside s \<and> sys_stop s = No_stop \<and> sys_workers s = {}"

lemma section_leads:
  assumes "clients_read os" and "at_gate s" and "sys_task s \<noteq> Idle" and "run_task H os (sys_task s) (sys_server s) = Some (t, srv)"
  shows "\<exists>s'. thread_run H os s [Enter, Leave] s' \<and> sys_server s' = srv \<and> sys_task s' = t \<and> at_gate s'"
  using section_run [OF assms(1,3) _ _ _ assms(4)] assms(2) unfolding at_gate_def
  by (intro exI [of _ "s\<lparr>sys_server := srv, sys_task := t, sys_asleep := sys_asleep s - notified H os (sys_task s) (sys_server s)\<rparr>"]) simp

lemma sample_add_opens:
  assumes "Topic_add_subscriber H sample_os t c p path off io = Some (b, t', io')"
  shows b
  using assms by (auto simp: Topic_add_subscriber_def sys_open_wr_nb_def sample_os_def bind_eq_Some_conv Let_def
      split: option.splits)

lemma sample_pending:
  "\<exists>es s tp. thread_run sample_hashes sample_os (start_system sample_os ''/s'' []) es s \<and> sys_workers s = {} \<and> sys_inside s = False
     \<and> get_topic sample_hashes (fst (sys_server s)) ''t'' = Some tp \<and> topic_worker tp = Worker_running \<and> \<not> topic_stop tp
     \<and> Topic_has_work tp \<and> length (topic_messages tp) = 1"
proof -
  let ?H = sample_hashes and ?os = sample_os and ?start = "start_system sample_os ''/s'' []"
  obtain es0 s0 where run0: "thread_run ?H ?os ?start es0 s0" and s0: "sys_task s0 = Idle" "sys_stop s0 = No_stop" "sys_workers s0 = {}"
    "logs ?H (fst (sys_server s0)) ''t'' = Some []" "client_of ?H (fst (sys_server s0)) = Map.empty" "Interrupt \<notin> set es0"
    using sample_run by blast
  have inv0: "threads_inv ?H s0" using started [OF run0] by blast
  have "produce_ok (''t'', ''k'', ''v'')" by (simp add: produce_ok_def MAX_PAYLOAD_SIZE_def)
  from produce_codec.framed [OF this] obtain pay1 where "parse_produce pay1 (length pay1) = Some (Parsed (''t'', ''k'', ''v''))" by auto
  then have "request_of 5 pay1 = Some (Req_publish ''t'' ''k'' ''v'')" by (simp add: request_of_def)
  from request_served [OF sample_clients_read inv0 s0(1-3) this] obtain es1 s1 where es1: "\<forall>e \<in> set es1. finishing e"
    "thread_run ?H ?os s0 (Accept 5 pay1 # es1) s1" and s1: "threads_inv ?H s1" "sys_task s1 = Idle" "sys_stop s1 = No_stop" "sys_workers s1 = {}"
    and view: "view ?H (fst (sys_server s1)) = (view ?H (fst (sys_server s0)))\<lparr>ab_logs :=
        log_step (Req_publish ''t'' ''k'' ''v'') (logs ?H (fst (sys_server s0)))\<rparr>" by (auto simp: view_def)
  obtain srv io where srv: "sys_server s1 = (srv, io)" by fastforce
  have log: "logs ?H srv ''t'' = Some [(''k'', ''v'')]" and nobody: "client_of ?H srv = Map.empty"
    using arg_cong [OF view, of ab_logs] arg_cong [OF view, of ab_clients] s0(4,5) by (simp_all add: view_def srv)
  from log obtain tp where tp: "get_topic ?H srv ''t'' = Some tp" "length (topic_messages tp) = 1"
    by (auto simp: logs_def topic_log_def)
  have out: "\<not> sys_inside s1" using s1(1,2) by (auto simp: threads_inv_def)
  have between: "between ?H srv Idle" using s1(1,2) srv by (simp add: threads_inv_def)
  then have ok: "tables_ok ?H srv" by (simp add: between_def)
  from between obtain C where "consistent ?H (get_topic ?H srv) C (producer_of ?H srv)" by (auto simp: between_def)
  from consistentD(1) [OF this tp(1)] have inv_tp: "topic_inv ?H tp" .
  have up: "running srv"
  proof -
    have "threads_inv ?H ?start" by (rule start_system_inv)
    from thread_run_same [OF thread_run_append [OF run0 es1(2)] this] s0(6) es1(1) srv Server_new_correct(3) [where path = "''/s''"]
    show ?thesis by (auto simp: start_system_def)
  qed
  then have live: "topic_worker tp = Worker_running" "\<not> topic_stop tp"
    using s1(1) srv tp(1) stop_ok_alive [of srv ?H "sys_stop s1"] by (auto simp: threads_inv_def alive_def)
  have "subscribe_ok (1, ''c'', ''t'', [], 0)" by (simp add: subscribe_ok_def)
  from subscribe_codec.framed [OF this] obtain pay2
    where pay2: "parse_subscribe pay2 (length pay2) = Some (Parsed (1, ''c'', ''t'', [], 0))" by auto
  have ids: "is_valid_identifier ''t''" "is_valid_identifier ''c''" by (simp_all add: is_valid_identifier_def is_alnum_def)
  let ?s2 = "s1\<lparr>sys_task := Dispatch 6 pay2\<rparr>"
  have run2: "thread_run ?H ?os s1 [Accept 6 pay2] ?s2" using s1 by (intro thread_run_single thread_step.accept)
  obtain s3 where run3: "thread_run ?H ?os ?s2 [Enter, Leave] s3"
    and s3: "sys_server s3 = (srv, io)" "sys_task s3 = Subscribe 1 ''c'' ''t'' [] 0" "at_gate s3"
    using section_leads [OF sample_clients_read, of ?s2 ?H "Subscribe 1 ''c'' ''t'' [] 0" "(srv, io)"] s1 out
    by (auto simp: srv pay2 ids at_gate_def)
  let ?m = "\<lparr>meta_client_id = ''c'', meta_topic = ''t'', meta_offset = 0, meta_prefix = [],
    meta_ipc_path = client_fifo_path 1, meta_is_active = True\<rparr>"
  let ?srv = "srv\<lparr>client_index := snd (HashMap_insert_or_assign (hash_string ?H) (client_index srv) ''c'' ?m)\<rparr>"
  let ?io = "send_response ?os 1 SUCCESS [] io"
  have "HashMap_find (hash_string ?H) (client_index srv) ''c'' = None" using nobody by (simp add: client_of_def fun_eq_iff)
  then have reg: "run_task ?H ?os (Subscribe 1 ''c'' ''t'' [] 0) (srv, io) = Some (Register 1 ''c'' ''t'' [] 0, (?srv, ?io))"
    using tp(1) by (simp add: subscribe_section_def find_topic [OF ok] OFFSET_UNSET_def Let_def)
  obtain s4 where run4: "thread_run ?H ?os s3 [Enter, Leave] s4"
    and s4: "sys_server s4 = (?srv, ?io)" "sys_task s4 = Register 1 ''c'' ''t'' [] 0" "at_gate s4"
    using section_leads [OF sample_clients_read s3(3), of ?H] reg s3 by auto
  have hm: "hm_inv (hash_string ?H) (client_index srv)" using ok by (simp add: tables_ok_def)
  note w = clients_write [OF ok insert_or_assign_correct(1,3) [OF hm, of "''c''" ?m, folded client_of_def]]
  have tp1: "get_topic ?H ?srv ''t'' = Some tp" using w(2) tp(1) by simp
  obtain b tp' io' where add: "Topic_add_subscriber ?H ?os tp ''c'' [] (client_fifo_path 1) 0 ?io = Some (b, tp', io')"
    and tp': "topic_inv ?H tp'" "same_topic tp tp'"
    using Topic_add_subscriber_correct [OF inv_tp, of ?os "''c''" "[]" "client_fifo_path 1" 0 ?io] by blast
  have b by (rule sample_add_opens [OF add])
  then obtain sub where sub: "find_sub ?H tp' ''c'' = Some sub" "sub_next_offset sub = 0"
    using Topic_add_subscriber_effect(4) [OF inv_tp add] by auto
  then have "has_pending (topic_messages tp') sub" using tp(2) tp'(2) by (simp add: has_pending_def same_topic_def)
  with sub(1) have work: "Topic_has_work tp'" unfolding has_work_subs [OF tp'(1)] by blast
  obtain s5 where run5: "thread_run ?H ?os s4 [Enter, Leave] s5"
    and s5: "sys_server s5 = (set_topic ?H ?srv ''t'' tp', io')" "sys_task s5 = Idle" "at_gate s5"
    using section_leads [OF sample_clients_read s4(3), of ?H] s4 tp1 add by (auto simp: at_topic_get)
  have "get_topic ?H (fst (sys_server s5)) ''t'' = Some tp'"
    using set_topic_correct(1) [OF w(4), of "''t''" tp'] tp1 by (simp add: s5)
  moreover have "topic_worker tp' = Worker_running" "\<not> topic_stop tp'" "length (topic_messages tp') = 1"
    using live tp(2) tp'(2) by (simp_all add: same_topic_def)
  ultimately show ?thesis
    using thread_run_append [OF run0 thread_run_append [OF es1(2) thread_run_append [OF run2
          thread_run_append [OF run3 thread_run_append [OF run4 run5]]]]] work s5(3)
    unfolding at_gate_def by blast
qed

text \<open>
  C3: Every interleaving of the sections of the main thread with the turns of the workers, the
  signals and the shutdown is a run of the abstract broker: of the requests taken so far, each has
  been performed exactly once and in order, except the last if its handler is still before the
  section that performs it.
\<close>

theorem threads_refine_broker:
  assumes "thread_run H os (start_system os path io) es s"
  shows "\<exists>performed busy. concat (map accepted es) = performed @ pending s \<and> length busy = length performed
    \<and> view H (fst (sys_server s)) = broker_run busy performed empty_broker"
  using started [OF assms] by (simp add: advances_def start_view)

theorem threads_refine_broker_witness:
  "\<exists>es s. thread_run sample_hashes sample_os (start_system sample_os ''/s'' []) es s \<and> sys_task s = Idle
     \<and> logs sample_hashes (fst (sys_server s)) = [''t'' \<mapsto> []]"
proof -
  obtain es s where es: "thread_run sample_hashes sample_os (start_system sample_os ''/s'' []) es s" "sys_task s = Idle"
    "concat (map accepted es) = [Req_create 1 ''t'']" using sample_run by blast
  from threads_refine_broker [OF es(1)] es(2,3) obtain busy where "length busy = Suc 0"
    "view sample_hashes (fst (sys_server s)) = broker_run busy [Req_create 1 ''t''] empty_broker"
    by (auto simp: pending_def requests_in_def)
  then have "view sample_hashes (fst (sys_server s)) = empty_broker\<lparr>ab_logs := [''t'' \<mapsto> []]\<rparr>"
    by (auto simp: length_Suc_conv is_valid_identifier_def is_alnum_def)
  then have "logs sample_hashes (fst (sys_server s)) = [''t'' \<mapsto> []]" by (simp add: view_def)
  with es show ?thesis by blast
qed

text \<open>
  C7: In every state that the threads can reach: the section that the main thread is in ends without
  undefined behaviour; while it is in none, the tables are sound and consistent; no topic is touched
  by the main thread and its worker at once; while the server runs every topic is alive; and no
  topic that was told to stop has a worker left, except one whose worker the stop is waiting for.
\<close>

theorem threads_sound:
  assumes "thread_run H os (start_system os path io) es s"
  shows "(\<exists>r. run_task H os (sys_task s) (sys_server s) = Some r)
    \<and> (sys_task s = Idle \<longrightarrow> server_inv H (fst (sys_server s)))
    \<and> (\<forall>n \<in> sys_workers s. holds_topic s \<noteq> Some n)
    \<and> (running (fst (sys_server s)) \<longrightarrow> alive H (fst (sys_server s)))
    \<and> (\<forall>n tp. get_topic H (fst (sys_server s)) n = Some tp \<and> topic_stop tp \<and> topic_worker tp \<noteq> Worker_joined
        \<longrightarrow> (\<exists>left. sys_stop s = Joining n left))"
proof -
  have inv: "threads_inv H s" using started [OF assms] by blast
  obtain srv io' where srv: "sys_server s = (srv, io')" by fastforce
  have "between H srv (sys_task s)" using inv srv by (simp add: threads_inv_def)
  from run_task_done [OF this, of os io'] have "\<exists>r. run_task H os (sys_task s) (srv, io') = Some r"
    by (cases "sys_task s = Idle") (auto simp: section_done_def)
  moreover have stop: "stop_ok (running srv) (flags H srv) (sys_stop s)" using inv srv by (simp add: threads_inv_def)
  then have "\<exists>left. sys_stop s = Joining n left"
    if "get_topic H srv n = Some tp \<and> topic_stop tp \<and> topic_worker tp \<noteq> Worker_joined" for n tp
    using that by (intro stop_waits_for [OF stop, of n]) (auto simp: flags_def)
  ultimately show ?thesis using inv by (auto simp: threads_inv_def between_inv srv intro: stop_ok_alive)
qed

theorem threads_sound_witness:
  "\<exists>es s. thread_run sample_hashes sample_os (start_system sample_os ''/s'' []) es s
     \<and> concat (map accepted es) = [Req_create 1 ''t''] \<and> server_inv sample_hashes (fst (sys_server s))"
proof -
  obtain es s where es: "thread_run sample_hashes sample_os (start_system sample_os ''/s'' []) es s" "sys_task s = Idle"
    "concat (map accepted es) = [Req_create 1 ''t'']" using sample_run by blast
  with threads_sound [OF es(1)] show ?thesis by blast
qed

text \<open>When a stop is over, every topic was told to stop and its worker has been joined.\<close>

theorem stop_joins_workers:
  assumes "thread_run H os (start_system os path io) es s" and "thread_step H os s Finish_stop s'"
    and "get_topic H (fst (sys_server s')) n = Some tp"
  shows "topic_stop tp \<and> topic_worker tp = Worker_joined"
proof -
  have inv: "threads_inv H s" using started [OF assms(1)] by blast
  have "sys_stop s = Shutting [] \<and> fst (sys_server s') = fst (sys_server s)" using assms(2)
    by (cases rule: thread_step.cases) (auto simp: close_fifo_def split: option.splits)
  with inv have "flags H (fst (sys_server s')) n = None \<or> flags H (fst (sys_server s')) n = Some (True, Worker_joined)"
    by (simp add: threads_inv_def stop_ok.simps)
  with assms(3) show ?thesis by (simp add: flags_def)
qed

text \<open>
  C10: Messages are never lost, changed or reordered, and no topic disappears: whatever the threads
  do, a log is only ever extended.
\<close>

theorem threads_logs_grow:
  assumes "thread_run H os (start_system os path io) es s" and "thread_run H os s es' s'"
    and "logs H (fst (sys_server s)) name = Some l"
  shows "\<exists>new. logs H (fst (sys_server s')) name = Some (l @ new)"
proof -
  have "threads_inv H s" using started [OF assms(1)] by blast
  from thread_run_keeps [OF this assms(2)] have "extends (logs H (fst (sys_server s))) (logs H (fst (sys_server s')))"
    by (blast intro: run_extends)
  with assms(3) show ?thesis by (simp add: extends_def)
qed

theorem threads_logs_grow_witness:
  "\<exists>es s es' s'. thread_run sample_hashes sample_os (start_system sample_os ''/s'' []) es s \<and> sys_task s = Idle
     \<and> thread_run sample_hashes sample_os s es' s' \<and> es' \<noteq> [] \<and> (\<exists>l. logs sample_hashes (fst (sys_server s')) ''t'' = Some l)"
proof -
  obtain es s where es: "thread_run sample_hashes sample_os (start_system sample_os ''/s'' []) es s" "sys_task s = Idle"
    "sys_stop s = No_stop" "logs sample_hashes (fst (sys_server s)) ''t'' = Some []" using sample_run by blast
  from thread_run_single [OF thread_step.accept [OF es(2,3)]]
  have step: "thread_run sample_hashes sample_os s [Accept 9 []] (s\<lparr>sys_task := Dispatch 9 []\<rparr>)" .
  from threads_logs_grow [OF es(1) step es(4)] es(1,2) step show ?thesis by blast
qed

text \<open>
  C8: The threads can always finish what they have begun: the request being handled, the turns of the
  workers, and the shutdown, for which no worker has to wake up by chance. However they are scheduled, they
  need no more steps for it than \<open>work\<close> counts. Four conditions are needed: no signal has caught the main
  thread with a mutex in its hands, every client opens its FIFO and reads the answer (\<open>clients_read\<close>), no
  topic has \<open>2 ^ 32\<close> messages, and the server's FIFO was opened.
\<close>

theorem requests_complete:
  assumes "thread_run H os (start_system os path io) es s" and "clients_read os" and "\<not> deadlocked s"
    and "short_logs H (fst (sys_server s))" and "fifo_fd (fst (sys_server s)) \<noteq> None"
  shows "(\<exists>fs s'. (\<forall>e \<in> set fs. finishing e) \<and> thread_run H os s fs s' \<and> sys_task s' = Idle \<and> sys_stop s' = No_stop \<and> sys_workers s' = {})
    \<and> (\<forall>fs s'. (\<forall>e \<in> set fs. finishing e) \<and> thread_run H os s fs s' \<longrightarrow> length fs \<le> work H s)"
proof -
  have inv: "threads_inv H s" using started [OF assms(1)] by blast
  show ?thesis
  proof (intro conjI allI impI)
    show "\<exists>fs s'. (\<forall>e \<in> set fs. finishing e) \<and> thread_run H os s fs s' \<and> sys_task s' = Idle \<and> sys_stop s' = No_stop \<and> sys_workers s' = {}"
      using threads_finish [OF assms(2) inv assms(3-5)] by blast
    show "length fs \<le> work H s" if "(\<forall>e \<in> set fs. finishing e) \<and> thread_run H os s fs s'" for fs s'
      using finishing_bounded [of H os s fs s'] inv that by auto
  qed
qed

theorem requests_complete_witness:
  "\<exists>fs s'. (\<forall>e \<in> set fs. finishing e) \<and> sys_task s' = Idle \<and> thread_run sample_hashes sample_os
     ((start_system sample_os ''/s'' [])\<lparr>sys_task := Dispatch 6 [1, 2, 3]\<rparr>) fs s'"
proof -
  let ?s = "start_system sample_os ''/s'' []"
  have "fifo_fd (fst (sys_server ?s)) \<noteq> None" "short_logs sample_hashes (fst (sys_server ?s))"
    using Server_new_maps(1) [of sample_hashes sample_os "''/s''" "[]"]
    by (simp_all add: short_logs_def start_system_def) (simp add: Server_new_def sys_mkfifo_def sys_open_rdwr_def sample_os_def Let_def)
  moreover have "thread_run sample_hashes sample_os ?s [Accept 6 [1, 2, 3]] (?s\<lparr>sys_task := Dispatch 6 [1, 2, 3]\<rparr>)"
    by (intro thread_run_single thread_step.accept) (simp_all add: start_system_def)
  ultimately show ?thesis
    using requests_complete [of sample_hashes sample_os "''/s''" "[]" "[Accept 6 [1, 2, 3]]" "?s\<lparr>sys_task := Dispatch 6 [1, 2, 3]\<rparr>"]
      sample_clients_read
    by (auto simp: deadlocked_def start_system_def)
qed

text \<open>
  C9: No wake-up is lost: a worker that sleeps in \<^verbatim>\<open>cv.wait\<close> has nothing to do, except a worker that was just told
  to stop and that the main thread is about to notify. So a worker with messages to deliver is awake: as
  soon as the mutex of its topic is free it can take its turn, without any further event, and after the
  turn everything in the log has been delivered, if the log has fewer than \<open>2 ^ 32\<close> messages.
\<close>

theorem no_lost_wakeup:
  assumes "thread_run H os (start_system os path io) es s" and "get_topic H (fst (sys_server s)) n = Some tp"
    and "topic_worker tp = Worker_running" and "Topic_has_work tp"
  shows "(n \<in> sys_asleep s \<longrightarrow> topic_stop tp \<and> sys_notify s \<and> (\<exists>left. sys_stop s = Joining n left))
    \<and> (\<not> topic_stop tp \<and> n \<notin> sys_workers s \<and> holds_topic s \<noteq> Some n \<and> length (topic_messages tp) < 2 ^ 32 \<longrightarrow>
        (\<exists>s' tp'. thread_run H os s [Worker_enter n, Worker_leave n] s' \<and> get_topic H (fst (sys_server s')) n = Some tp'
          \<and> topic_messages tp' = topic_messages tp \<and> \<not> Topic_has_work tp'))"
proof -
  have inv: "threads_inv H s" using started [OF assms(1)] by blast
  have asleep: "topic_stop tp \<and> sys_notify s \<and> (\<exists>left. sys_stop s = Joining n left)" if "n \<in> sys_asleep s"
  proof -
    have "\<not> at_ease H (fst (sys_server s)) n" using assms(2,4) by (simp add: at_ease_def)
    then have told: "sys_notify s" "waits_for (sys_stop s) n" using inv that by (auto simp: threads_inv_def)
    then obtain left where p: "sys_stop s = Joining n left" by (cases "sys_stop s") auto
    have "stop_ok (running (fst (sys_server s))) (flags H (fst (sys_server s))) (Joining n left)"
      using inv p by (simp add: threads_inv_def)
    with stop_ok_waiting(1) [OF this] assms(2) told p show ?thesis by (auto simp: flags_def)
  qed
  moreover have "\<exists>s' tp'. thread_run H os s [Worker_enter n, Worker_leave n] s' \<and> get_topic H (fst (sys_server s')) n = Some tp'
      \<and> topic_messages tp' = topic_messages tp \<and> \<not> Topic_has_work tp'"
    if free: "\<not> topic_stop tp" "n \<notin> sys_workers s" "holds_topic s \<noteq> Some n" "length (topic_messages tp) < 2 ^ 32"
    by (rule turn_delivers [OF inv assms(2-4) free(1-3) _ free(4)]) (use asleep free(1) in blast)
  ultimately show ?thesis by blast
qed

theorem no_lost_wakeup_witness:
  "\<exists>es s s' tp'. thread_run sample_hashes sample_os (start_system sample_os ''/s'' []) es s \<and> ''t'' \<notin> sys_asleep s
     \<and> thread_run sample_hashes sample_os s [Worker_enter ''t'', Worker_leave ''t''] s'
     \<and> get_topic sample_hashes (fst (sys_server s')) ''t'' = Some tp' \<and> length (topic_messages tp') = 1 \<and> \<not> Topic_has_work tp'"
proof -
  obtain es s tp where run: "thread_run sample_hashes sample_os (start_system sample_os ''/s'' []) es s"
    and s: "sys_workers s = {}" "\<not> sys_inside s" "\<not> topic_stop tp" "length (topic_messages tp) = 1"
    and tp: "get_topic sample_hashes (fst (sys_server s)) ''t'' = Some tp" "topic_worker tp = Worker_running" "Topic_has_work tp"
    using sample_pending by blast
  have "''t'' \<notin> sys_asleep s" using no_lost_wakeup [OF run tp] s(3) by blast
  moreover obtain s' tp' where "thread_run sample_hashes sample_os s [Worker_enter ''t'', Worker_leave ''t''] s'"
    "get_topic sample_hashes (fst (sys_server s')) ''t'' = Some tp'" "topic_messages tp' = topic_messages tp" "\<not> Topic_has_work tp'"
    using no_lost_wakeup [OF run tp] s by (auto simp: holds_topic_def)
  ultimately show ?thesis using run s(4) by metis
qed

text \<open>
  C11: A signal that arrives while the main thread holds a mutex stops the server for ever: \<^verbatim>\<open>stop\<close>
  waits for a mutex that its own thread holds, the request is never finished and none is taken any
  more. Only the workers may still take their turns, and end, if the topic comes late in the table.
\<close>

theorem signal_deadlock:
  assumes "thread_run H os (start_system os path io) es0 s" and "thread_step H os s Interrupt s1"
    and "holds_server s \<or> holds_topic s \<noteq> None" and "thread_run H os s1 es s2"
  shows "sys_task s2 = sys_task s \<and> sys_stop s2 \<noteq> No_stop \<and> \<not> running (fst (sys_server s1)) \<and> (\<forall>e \<in> set es. stays_deadlocked e)"
proof -
  have inv: "threads_inv H s" using started [OF assms(1)] by blast
  have "deadlocked s1 \<and> sys_task s1 = sys_task s \<and> \<not> running (fst (sys_server s1))" using assms(2)
  proof (cases rule: thread_step.cases)
    case interrupt
    have held: "n \<in> set (topic_names (fst (sys_server s)))" if "holds_topic s = Some n" and "\<not> holds_server s" for n
    proof -
      have t: "between H (fst (sys_server s)) (sys_task s)" using inv by (simp add: threads_inv_def)
      from that have "get_topic H (fst (sys_server s)) n \<noteq> None"
        using t by (cases "sys_task s") (auto simp: holds_topic_def holds_server_def between_inv split: if_splits)
      then show ?thesis using t by (auto simp: between_def in_topic_names)
    qed
    with interrupt assms(3) interrupt_keeps [OF inv interrupt(2,3), of os] show ?thesis
      by (auto simp: deadlocked_def) (auto simp: holds_server_def holds_topic_def split: if_splits)
  qed
  with deadlock_stays [OF assms(4)] show ?thesis by (auto simp: deadlocked_def)
qed

text \<open>A run up to the section that lists the topics, for the concrete instances.\<close>

lemma listing_run:
  "\<exists>payload. thread_run sample_hashes os (start_system os ''/s'' []) [Accept 2 payload, Enter, Leave]
     ((start_system os ''/s'' [])\<lparr>sys_task := List_topics 9\<rparr>)"
proof -
  let ?start = "start_system os ''/s'' []"
  obtain payload where payload: "parse_list payload (length payload) = Some (Parsed 9)" by (rule list_codec.framed [OF TrueI])
  let ?s1 = "?start\<lparr>sys_task := Dispatch 2 payload\<rparr>" and ?s2 = "?start\<lparr>sys_task := Dispatch 2 payload, sys_inside := True\<rparr>"
  let ?s3 = "?start\<lparr>sys_task := List_topics 9\<rparr>"
  let ?step = "thread_step sample_hashes os"
  have "?step ?start (Accept 2 payload) ?s1" "?step ?s1 Enter ?s2"
    using thread_step.accept [of ?start sample_hashes os 2 payload] thread_step.enter [of ?s1 sample_hashes os]
    by (simp_all add: start_system_def)
  moreover have "?step ?s2 Leave ?s3"
    using thread_step.leave [of ?s2 sample_hashes os "List_topics 9" "sys_server ?start"]
    by (simp add: start_system_def payload)
  ultimately have "thread_run sample_hashes os ?start ([Accept 2 payload] @ [Enter] @ [Leave]) ?s3"
    by (blast intro: thread_run_append thread_run_single)
  then show ?thesis by auto
qed

theorem signal_deadlock_witness:
  "\<exists>es s s1. thread_run sample_hashes sample_os (start_system sample_os ''/s'' []) es s
     \<and> thread_step sample_hashes sample_os s Interrupt s1
     \<and> (\<forall>es' s2. thread_run sample_hashes sample_os s1 es' s2 \<longrightarrow> sys_task s2 = List_topics 9)"
proof -
  let ?start = "start_system sample_os ''/s'' []"
  let ?s3 = "?start\<lparr>sys_task := List_topics 9\<rparr>" and ?s4 = "?start\<lparr>sys_task := List_topics 9, sys_inside := True\<rparr>"
  let ?step = "thread_step sample_hashes sample_os"
  obtain payload where "thread_run sample_hashes sample_os ?start [Accept 2 payload, Enter, Leave] ?s3"
    using listing_run by blast
  moreover have "?step ?s3 Enter ?s4"
    using thread_step.enter [of ?s3 sample_hashes sample_os] by (simp add: start_system_def)
  ultimately have run: "thread_run sample_hashes sample_os ?start ([Accept 2 payload, Enter, Leave] @ [Enter]) ?s4"
    by (rule thread_run.Snoc)
  obtain s5 where signal: "?step ?s4 Interrupt s5"
    using thread_step.interrupt [of ?s4 sample_hashes sample_os] Server_new_correct(3) [where path = "''/s''"]
    by (auto simp: start_system_def)
  have held: "holds_server ?s4 \<or> holds_topic ?s4 \<noteq> None" by (simp add: holds_server_def)
  have "sys_task s2 = List_topics 9" if "thread_run sample_hashes sample_os s5 es' s2" for es' s2
    using signal_deadlock [OF run signal held that] by simp
  with run signal show ?thesis by blast
qed

text \<open>
  C12: A client that sends a request and does not open its FIFO stalls the server: once the main thread is in the
  section that answers it, the section is never left, whatever the other threads do and whatever signals
  arrive; no request is performed or taken any more, and a mutex that the section holds stays locked.
\<close>

theorem client_stalls_server:
  assumes "thread_run H os (start_system os path io) es0 s" and "must_answer (sys_task s) = Some pid" and "never_read os pid"
    and "thread_run H os s es s2"
  shows "sys_task s2 = sys_task s \<and> (\<forall>e \<in> set es. \<forall>act payload. e \<noteq> Accept act payload)
    \<and> view H (fst (sys_server s2)) = view H (fst (sys_server s)) \<and> (holds_server s \<longrightarrow> holds_server s2)"
proof -
  have inv: "threads_inv H s" using started [OF assms(1)] by blast
  have stuck: "sys_task s2 = sys_task s \<and> (sys_inside s \<longrightarrow> sys_inside s2) \<and> (\<forall>e \<in> set es. \<forall>act payload. e \<noteq> Accept act payload)"
    by (rule stays_stalled [OF assms(4,2,3)])
  then have none: "accepted e = []" if "e \<in> set es" for e using that by (cases e) auto
  then have "concat (map accepted es) = []" by simp
  with thread_run_keeps [OF inv assms(4)] have "advances H s [] s2" by simp
  moreover have "pending s2 = pending s" using stuck by (simp add: pending_def)
  ultimately have "view H (fst (sys_server s2)) = view H (fst (sys_server s))" by (auto simp: advances_def)
  with stuck show ?thesis by (auto simp: holds_server_def)
qed

theorem client_stalls_server_witness:
  "\<exists>os es s. thread_run sample_hashes os (start_system os ''/s'' []) es s \<and> sys_task s = List_topics 9 \<and> sys_inside s
     \<and> (\<forall>es' s2. thread_run sample_hashes os s es' s2 \<longrightarrow> sys_task s2 = List_topics 9 \<and> holds_server s2)"
proof -
  let ?os = "sample_os\<lparr>os_returns := \<lambda>_ e. \<forall>fd. e \<noteq> Open_wr (client_fifo_path 9) fd\<rparr>"
  let ?start = "start_system ?os ''/s'' []"
  let ?s3 = "?start\<lparr>sys_task := List_topics 9\<rparr>" and ?s4 = "?start\<lparr>sys_task := List_topics 9, sys_inside := True\<rparr>"
  obtain payload where "thread_run sample_hashes ?os ?start [Accept 2 payload, Enter, Leave] ?s3"
    using listing_run by blast
  moreover have "thread_step sample_hashes ?os ?s3 Enter ?s4"
    using thread_step.enter [of ?s3 sample_hashes ?os] by (simp add: start_system_def)
  ultimately have run: "thread_run sample_hashes ?os ?start ([Accept 2 payload, Enter, Leave] @ [Enter]) ?s4"
    by (rule thread_run.Snoc)
  have pid: "must_answer (sys_task ?s4) = Some 9" "never_read ?os 9" by (simp_all add: never_read_def)
  have "sys_task s2 = List_topics 9 \<and> holds_server s2" if "thread_run sample_hashes ?os ?s4 es' s2" for es' s2
    using client_stalls_server [OF run pid that] by (auto simp: holds_server_def)
  with run show ?thesis by (intro exI [of _ ?os] exI [of _ "[Accept 2 payload, Enter, Leave] @ [Enter]"] exI [of _ ?s4]) simp
qed

end
