(* ===== verification/Main_Loop.thy ===== *)
theory Main_Loop
  imports Threads
begin

text \<open>
  The main loop of the server (\<^verbatim>\<open>Server::run\<close> in \<^verbatim>\<open>src/server/src/Server.cpp\<close>) on top of \<open>Threads\<close>: the bytes
  that \<^verbatim>\<open>read\<close> returns go to \<^verbatim>\<open>recv_buf\<close>, complete frames are taken from its front, handled section by
  section while the workers and signals interleave, and then erased. Behind the loop the server is destroyed,
  and with it the topics that were not told to stop. \<open>Server_run\<close> treats the same loop with handlers as single
  steps.
\<close>

section \<open>The loop of the main thread\<close>

text \<open>
  What the inner loop does with \<^verbatim>\<open>recv_buf\<close>: a frame to be handled, with the number of bytes to be erased
  after it, or the loop is left. A frame that the test takes for complete although it reaches beyond
  the buffer is undefined behaviour.
\<close>

datatype loop_move = Handle_frame u8 "u8 list" nat | Await_bytes

definition next_move :: "u8 list \<Rightarrow> loop_move option" where
  "next_move recv_buf =
     (if 5 \<le> length recv_buf
      then do {
        payload_len \<leftarrow> read_uint32_le (drop 1 recv_buf);
        if length recv_buf < unat (5 + payload_len) then Some Await_bytes
        else if 5 + unat payload_len \<le> length recv_buf
        then Some (Handle_frame (recv_buf ! 0) (take (unat payload_len) (drop 5 recv_buf)) (5 + unat payload_len))
        else None }
      else Some Await_bytes)"

text \<open>These moves, with the handlers as single steps, are the loop of \<open>Framing\<close>.\<close>

lemma frame_loop_moves:
  "frame_loop (handle_request H os) s buf = (case next_move buf of
       None \<Rightarrow> None
     | Some Await_bytes \<Rightarrow> Some (s, buf)
     | Some (Handle_frame act payload n) \<Rightarrow> do {
         s \<leftarrow> handle_request H os s act payload (length payload);
         frame_loop (handle_request H os) s (drop n buf) })"
proof (cases "read_uint32_le (drop 1 buf)")
  case (Some n)
  have "handle_request H os s a (drop 5 buf) (unat n) = handle_request H os s a (take (unat n) (drop 5 buf)) (unat n)"
    if "5 + unat n \<le> length buf" for a
    using that unat_u32_bound [of n] by (intro requests.reads_payload) simp_all
  then show ?thesis
    by (subst frame_loop.simps) (auto simp: Some next_move_def simp del: One_nat_def split: Option.bind_split)
qed (subst frame_loop.simps, simp add: next_move_def)

text \<open>
  Where the main thread is: before or in \<^verbatim>\<open>read\<close>, at the test of the inner loop, in the handler of a frame
  of the given size, behind the loop, in the destructors of the topics, or gone with the process.
\<close>

datatype loop_phase = At_read | At_frames | Handling nat | Ended | Destroying | Exited

record machine =
  m_system :: system
  m_buffer :: "u8 list"
  m_phase :: loop_phase

datatype machine_event =
    Got "u8 list"
  | Got_nothing
  | Take_frame u8 "u8 list"
  | Erase_frame
  | Await
  | Destroy
  | Exit
  | Step thread_event

definition in_loop :: "machine \<Rightarrow> loop_phase \<Rightarrow> bool" where
  "in_loop m p \<longleftrightarrow> m_phase m = p \<and> sys_task (m_system m) = Idle \<and> sys_stop (m_system m) = No_stop"

abbreviation up :: "machine \<Rightarrow> bool" where
  "up m \<equiv> running (fst (sys_server (m_system m)))"

text \<open>
  A step: \<^verbatim>\<open>read\<close> returns at most 1024 bytes, or fails; a frame is taken and handed to its handler; when the
  handler has returned it is erased; with no complete frame left the loop goes back to \<^verbatim>\<open>read\<close>, or ends and
  closes the FIFO if the server was stopped. Then the server is destroyed: \<^verbatim>\<open>stop\<close> returns at once, since the
  flag is down, and the destructor of each topic calls \<^verbatim>\<open>shutdown\<close>, which raises the flag and waits for the
  worker of a topic that was not told to stop (one that was created after the signal) and returns at once for
  the others. With the last topic the process ends. Everything else is a step of the threads. The main
  thread does none of this while it runs \<^verbatim>\<open>stop\<close> in the signal handler. The destruction does not close
  the FIFO, so \<open>Finish_stop\<close> is no part of it.
\<close>

inductive machine_step :: "hashes \<Rightarrow> os \<Rightarrow> machine \<Rightarrow> machine_event \<Rightarrow> machine \<Rightarrow> bool" for H os where
  got: "in_loop m At_read \<Longrightarrow> chunk \<noteq> [] \<Longrightarrow> length chunk \<le> 1024
    \<Longrightarrow> machine_step H os m (Got chunk) (m\<lparr>m_buffer := m_buffer m @ chunk, m_phase := At_frames\<rparr>)"
| got_nothing: "in_loop m At_read \<Longrightarrow> up m \<Longrightarrow> machine_step H os m Got_nothing m"
| got_nothing_end: "in_loop m At_read \<Longrightarrow> \<not> up m \<Longrightarrow> close_fifo (sys_server (m_system m)) = Some srv
    \<Longrightarrow> machine_step H os m Got_nothing (m\<lparr>m_system := (m_system m)\<lparr>sys_server := srv\<rparr>, m_phase := Ended\<rparr>)"
| take_frame: "in_loop m At_frames \<Longrightarrow> next_move (m_buffer m) = Some (Handle_frame act payload n)
    \<Longrightarrow> thread_step H os (m_system m) (Accept act payload) s
    \<Longrightarrow> machine_step H os m (Take_frame act payload) (m\<lparr>m_system := s, m_phase := Handling n\<rparr>)"
| erase_frame: "in_loop m (Handling n)
    \<Longrightarrow> machine_step H os m Erase_frame (m\<lparr>m_buffer := drop n (m_buffer m), m_phase := At_frames\<rparr>)"
| await: "in_loop m At_frames \<Longrightarrow> next_move (m_buffer m) = Some Await_bytes \<Longrightarrow> up m
    \<Longrightarrow> machine_step H os m Await (m\<lparr>m_phase := At_read\<rparr>)"
| await_end: "in_loop m At_frames \<Longrightarrow> next_move (m_buffer m) = Some Await_bytes \<Longrightarrow> \<not> up m
    \<Longrightarrow> close_fifo (sys_server (m_system m)) = Some srv
    \<Longrightarrow> machine_step H os m Await (m\<lparr>m_system := (m_system m)\<lparr>sys_server := srv\<rparr>, m_phase := Ended\<rparr>)"
| destroy: "in_loop m Ended
    \<Longrightarrow> machine_step H os m Destroy (m\<lparr>m_system := (m_system m)\<lparr>sys_stop :=
          Shutting (unstopped_topics H (fst (sys_server (m_system m))))\<rparr>, m_phase := Destroying\<rparr>)"
| exit: "m_phase m = Destroying \<Longrightarrow> sys_stop (m_system m) = Shutting []
    \<Longrightarrow> machine_step H os m Exit (m\<lparr>m_system := (m_system m)\<lparr>sys_stop := No_stop\<rparr>, m_phase := Exited\<rparr>)"
| inner: "(\<And>act payload. e \<noteq> Accept act payload) \<Longrightarrow> m_phase m \<noteq> Exited
    \<Longrightarrow> (m_phase m = Destroying \<Longrightarrow> e \<noteq> Finish_stop) \<Longrightarrow> thread_step H os (m_system m) e s
    \<Longrightarrow> machine_step H os m (Step e) (m\<lparr>m_system := s\<rparr>)"

inductive machine_run :: "hashes \<Rightarrow> os \<Rightarrow> machine \<Rightarrow> machine_event list \<Rightarrow> machine \<Rightarrow> bool" for H os where
  Nil: "machine_run H os m [] m"
| Snoc: "machine_run H os m es m1 \<Longrightarrow> machine_step H os m1 e m2 \<Longrightarrow> machine_run H os m (es @ [e]) m2"

definition start_machine :: "os \<Rightarrow> string \<Rightarrow> io_log \<Rightarrow> machine" where
  "start_machine os path io = \<lparr>m_system = start_system os path io, m_buffer = [], m_phase = At_read\<rparr>"

section \<open>What was read and what was taken\<close>

text \<open>The bytes and the frames of a list of events, and the requests in frames.\<close>

fun bytes_got :: "machine_event \<Rightarrow> u8 list" where
  "bytes_got (Got chunk) = chunk"
| "bytes_got _ = []"

fun frame_taken :: "machine_event \<Rightarrow> (u8 \<times> u8 list) list" where
  "frame_taken (Take_frame act payload) = [(act, payload)]"
| "frame_taken _ = []"

abbreviation all_bytes :: "machine_event list \<Rightarrow> u8 list" where
  "all_bytes es \<equiv> concat (map bytes_got es)"

abbreviation all_frames :: "machine_event list \<Rightarrow> (u8 \<times> u8 list) list" where
  "all_frames es \<equiv> concat (map frame_taken es)"

abbreviation requests_of :: "(u8 \<times> u8 list) list \<Rightarrow> request list" where
  "requests_of fs \<equiv> concat (map (\<lambda>f. requests_in (request_of (fst f) (snd f))) fs)"

lemma next_move_frame:
  assumes "next_move buf = Some (Handle_frame act payload n)"
  shows "buf = request_frame (act, payload) @ drop n buf" and "n = length (request_frame (act, payload))"
    and "length payload < 2 ^ 32"
proof -
  from assms obtain l where l: "5 \<le> length buf" "read_uint32_le (drop 1 buf) = Some l" "5 + unat l \<le> length buf"
    and f: "act = buf ! 0" "payload = take (unat l) (drop 5 buf)" "n = 5 + unat l"
    by (auto simp: next_move_def bind_eq_Some_conv split: if_splits)
  have len: "length payload = unat l" using l f by simp
  then show "n = length (request_frame (act, payload))" "length payload < 2 ^ 32"
    using f unat_u32_bound [of l] by simp_all
  have head: "take 4 (drop 1 buf) = u32le l" using read_uint32_le_SomeD(1) [OF l(2)] by simp
  have "buf = [buf ! 0] @ take 4 (drop 1 buf) @ take (unat l) (drop 5 buf) @ drop (unat l) (drop 5 buf)"
    using l(1) by (cases buf) (simp_all, metis append_take_drop_id drop_drop numeral_eq_Suc)
  then show "buf = request_frame (act, payload) @ drop n buf"
    using f len head by (simp add: request_frame_def add.commute)
qed

lemma next_move_await: "next_move buf = Some Await_bytes \<longleftrightarrow> incomplete buf"
  by (auto simp: next_move_def incomplete_def bind_eq_Some_conv split: if_splits)

lemma next_move_complete:
  assumes "fits_frame f"
  shows "next_move (request_frame f @ rest) = Some (Handle_frame (fst f) (snd f) (5 + length (snd f)))"
  by (simp add: next_move_def frame_head [OF assms] del: One_nat_def drop_append)

text \<open>
  The bytes read so far are the frames taken and the buffer, except that the frame that is being
  handled is still in front of the buffer.
\<close>

definition stream_ok :: "machine_event list \<Rightarrow> machine \<Rightarrow> bool" where
  "stream_ok es m \<longleftrightarrow>
     (case m_phase m of
        Handling n \<Rightarrow> all_bytes es = concat (map request_frame (all_frames es)) @ drop n (m_buffer m)
      | p \<Rightarrow> all_bytes es = concat (map request_frame (all_frames es)) @ m_buffer m
          \<and> sys_task (m_system m) = Idle \<and> (p = At_frames \<or> incomplete (m_buffer m)))
     \<and> (\<forall>f \<in> set (all_frames es). length (snd f) < 2 ^ 32)"

text \<open>
  Behind the loop the flag is down; the destruction is a shutdown of topics; and when the process has ended
  every topic was told to stop and its worker joined.
\<close>

fun end_ok :: "hashes \<Rightarrow> system \<Rightarrow> loop_phase \<Rightarrow> bool" where
  "end_ok H s Ended \<longleftrightarrow> \<not> running (fst (sys_server s))"
| "end_ok H s Destroying \<longleftrightarrow> \<not> running (fst (sys_server s)) \<and> sys_stop s \<noteq> No_stop"
| "end_ok H s Exited \<longleftrightarrow> \<not> running (fst (sys_server s))
     \<and> (\<forall>n f. flags H (fst (sys_server s)) n = Some f \<longrightarrow> f = (True, Worker_joined))"
| "end_ok H s _ \<longleftrightarrow> True"

definition machine_inv :: "hashes \<Rightarrow> os \<Rightarrow> string \<Rightarrow> io_log \<Rightarrow> machine_event list \<Rightarrow> machine \<Rightarrow> bool" where
  "machine_inv H os path io es m \<longleftrightarrow> threads_inv H (m_system m)
     \<and> advances H (start_system os path io) (requests_of (all_frames es)) (m_system m) \<and> stream_ok es m
     \<and> end_ok H (m_system m) (m_phase m)"

lemma close_fifo_log:
  assumes "close_fifo s = Some s'"
  shows "fst s' = fst s"
  using assms by (cases s) (auto simp: close_fifo_def split: option.splits)

lemma closed_keeps:
  assumes "threads_inv H s" and "close_fifo (sys_server s) = Some srv"
  shows "threads_inv H (s\<lparr>sys_server := srv\<rparr>)" and "advances H s [] (s\<lparr>sys_server := srv\<rparr>)"
  using assms close_fifo_log [OF assms(2)]
  by (auto simp: threads_inv_def holds_topic_def holds_server_def pending_def intro: advances_stutter)

lemma step_stays_idle:
  assumes "threads_inv H s" and "thread_step H os s e s'" and "sys_task s = Idle" and "\<And>act payload. e \<noteq> Accept act payload"
  shows "sys_task s' = Idle"
  using assms(2) by (cases rule: thread_step.cases) (use assms in \<open>auto simp: threads_inv_def\<close>)


lemma accepted_none: "(\<And>act payload. e \<noteq> Accept act payload) \<Longrightarrow> accepted e = []"
  by (cases e) auto

text \<open>The main thread, when it runs no handler, has no mutex.\<close>

lemma idle_free:
  assumes "threads_inv H s" and "sys_task s = Idle"
  shows "\<not> holds_server s" and "holds_topic s = None" and "\<not> deadlocked s"
  using assms by (auto simp: threads_inv_def holds_server_def holds_topic_def deadlocked_def)

lemma destruction_keeps:
  assumes inv: "threads_inv H s" and idle: "sys_task s = Idle" and down: "\<not> running (fst (sys_server s))"
    and p: "sys_stop s = No_stop \<and> p = Shutting (unstopped_topics H (fst (sys_server s))) \<or> sys_stop s = Shutting [] \<and> p = No_stop"
  shows "threads_inv H (s\<lparr>sys_stop := p\<rparr>) \<and> advances H s [] (s\<lparr>sys_stop := p\<rparr>)"
proof -
  obtain srv io where srv: "sys_server s = (srv, io)" by fastforce
  have "tables_ok H srv" and ok: "stop_ok False (flags H srv) (sys_stop s)"
    using inv down srv by (auto simp: threads_inv_def between_def)
  then have ok': "stop_ok (running srv) (flags H srv) p"
    using p destruction_starts [of H srv] stop_ends [of False "flags H srv"] down srv by auto
  have none: "\<not> waits_for (sys_stop s) n" "p \<noteq> Joining n left" for n left using p by auto
  have calm: "\<not> sys_notify s" "\<And>n. n \<in> sys_asleep s \<Longrightarrow> at_ease H srv n" using inv none(1) srv by (auto simp: threads_inv_def)
  have same: "s\<lparr>sys_server := (srv, io), sys_stop := p, sys_notify := False\<rparr> = s\<lparr>sys_stop := p\<rparr>"
    using calm(1) srv by (cases s) simp
  show ?thesis
    using stop_step_keeps [OF inv idle_free(1) [OF inv idle] srv, of srv p False io] ok' none(2) calm(2) unfolding same by simp
qed

lemma stop_not_over:
  assumes "thread_step H os s e s'" and "sys_stop s \<noteq> No_stop" and "e \<noteq> Finish_stop"
  shows "sys_stop s' \<noteq> No_stop"
  using assms(1) by (cases rule: thread_step.cases) (use assms(2,3) in auto)

lemma machine_step_keeps:
  assumes inv: "machine_inv H os path io es m" and step: "machine_step H os m e m'"
  shows "machine_inv H os path io (es @ [e]) m'"
proof -
  have T: "threads_inv H (m_system m)" and A: "advances H (start_system os path io) (requests_of (all_frames es)) (m_system m)"
    and S: "stream_ok es m" and E: "end_ok H (m_system m) (m_phase m)" using inv by (simp_all add: machine_inv_def)
  note phase = stream_ok_def in_loop_def
  have close: "threads_inv H ((m_system m)\<lparr>sys_server := srv\<rparr>)
      \<and> advances H (start_system os path io) (requests_of (all_frames es)) ((m_system m)\<lparr>sys_server := srv\<rparr>)"
    if "close_fifo (sys_server (m_system m)) = Some srv" for srv
    using closed_keeps [OF T that] advances_trans [OF A, of "[]"] by simp
  show ?thesis using step
  proof (cases rule: machine_step.cases)
    case (got chunk)
    with T A S show ?thesis by (auto simp: machine_inv_def phase)
  next
    case got_nothing
    with T A S show ?thesis by (auto simp: machine_inv_def phase)
  next
    case (got_nothing_end srv)
    with close S close_fifo_log show ?thesis by (fastforce simp: machine_inv_def phase)
  next
    case (take_frame act payload n s)
    have "threads_inv H s" "advances H (m_system m) (requests_in (request_of act payload)) s"
      using thread_step_keeps [OF T take_frame(5)] by simp_all
    moreover have "all_bytes es = concat (map request_frame (all_frames es)) @ m_buffer m"
      using S take_frame(3) by (auto simp: phase)
    then have "all_bytes es = concat (map request_frame (all_frames es @ [(act, payload)])) @ drop n (m_buffer m)"
      using next_move_frame(1) [OF take_frame(4)] by simp
    ultimately show ?thesis
      using S take_frame next_move_frame(3) [OF take_frame(4)] advances_trans [OF A]
      by (auto simp: machine_inv_def stream_ok_def)
  next
    case (erase_frame n)
    with T A S show ?thesis by (auto simp: machine_inv_def phase)
  next
    case await
    with T A S show ?thesis by (auto simp: machine_inv_def phase next_move_await)
  next
    case (await_end srv)
    with close S close_fifo_log show ?thesis by (fastforce simp: machine_inv_def phase next_move_await)
  next
    case destroy
    let ?s = "(m_system m)\<lparr>sys_stop := Shutting (unstopped_topics H (fst (sys_server (m_system m))))\<rparr>"
    have "threads_inv H ?s \<and> advances H (m_system m) [] ?s"
      using destroy E by (intro destruction_keeps [OF T]) (auto simp: in_loop_def)
    with destroy A S E advances_trans [OF A, of "[]"] show ?thesis by (auto simp: machine_inv_def phase)
  next
    case exit
    let ?s = "(m_system m)\<lparr>sys_stop := No_stop\<rparr>"
    have idle: "sys_task (m_system m) = Idle" using S exit by (simp add: phase)
    have "threads_inv H ?s \<and> advances H (m_system m) [] ?s"
      using exit E by (intro destruction_keeps [OF T idle]) auto
    moreover have "stop_ok (running (fst (sys_server (m_system m)))) (flags H (fst (sys_server (m_system m)))) (Shutting [])"
      using T exit(4) by (simp add: threads_inv_def)
    then have "\<forall>n f. flags H (fst (sys_server (m_system m))) n = Some f \<longrightarrow> f = (True, Worker_joined)"
      unfolding stop_ok.simps by (metis list.set(1) empty_iff option.distinct(1) option.inject)
    ultimately show ?thesis using exit idle S E advances_trans [OF A, of "[]"] by (auto simp: machine_inv_def phase)
  next
    case (inner e' s)
    have "threads_inv H s" "advances H (m_system m) [] s"
      using thread_step_keeps [OF T inner(6)] accepted_none [OF inner(3)] by simp_all
    moreover have "sys_task (m_system m) = Idle \<Longrightarrow> sys_task s = Idle"
      using step_stays_idle [OF T inner(6)] inner(3) by blast
    moreover have "\<not> up m \<Longrightarrow> \<not> running (fst (sys_server s))"
      using thread_step_same(2,3) [OF T inner(6)] by (cases "e' = Interrupt") auto
    then have "end_ok H s (m_phase m)"
      using E inner(4,5) stop_not_over [OF inner(6)] by (cases "m_phase m") auto
    ultimately show ?thesis
      using S inner advances_trans [OF A, of "[]"] by (auto simp: machine_inv_def stream_ok_def split: loop_phase.splits)
  qed
qed

lemma machine_run_keeps:
  assumes "machine_run H os m es m'" and "machine_inv H os path io es0 m"
  shows "machine_inv H os path io (es0 @ es) m'"
  using assms
proof (induction rule: machine_run.induct)
  case (Snoc m es m1 e m2)
  then show ?case using machine_step_keeps [of H os path io "es0 @ es" m1 e m2] by simp
qed simp

lemma start_machine_inv: "machine_inv H os path io [] (start_machine os path io)"
  using start_system_inv [of H os path io]
  by (auto simp: machine_inv_def start_machine_def stream_ok_def incomplete_def start_system_def intro!: advances_stutter)

lemmas machine_started = machine_run_keeps [OF _ start_machine_inv, simplified]

lemma machine_run_append:
  assumes "machine_run H os m es m1" and "machine_run H os m1 es1 m2"
  shows "machine_run H os m (es @ es1) m2"
  using assms(2,1)
proof (induction rule: machine_run.induct)
  case (Snoc m1 es1 m2 e m3)
  then show ?case using machine_run.Snoc [of H os m "es @ es1"] by simp
qed simp

lemma machine_run_single: "machine_step H os m e m' \<Longrightarrow> machine_run H os m [e] m'"
  using machine_run.Snoc [OF machine_run.Nil, of H os m e m'] by simp

lemma steps_quiet [simp]: "concat (map (bytes_got \<circ> Step) ts) = []"
  by (induction ts) simp_all

section \<open>Requests as frames\<close>

lemma request_framed:
  assumes "request_wf r"
  shows "\<exists>f. request_bytes r = request_frame f \<and> request_of (fst f) (snd f) = Some r"
proof -
  have framed: "\<exists>f. request_bytes r = request_frame f \<and> request_of (fst f) (snd f) = Some r"
    if "request_bytes r = act # u32le (word_of_nat (length payload)) @ payload" and "request_of act payload = Some r" for act payload
    using that by (intro exI [of _ "(act, payload)"]) (simp add: request_frame_def)
  show ?thesis
  proof (cases r)
    case (Req_create pid name)
    with assms create_codec.framed [of "(pid, name)"] obtain payload
      where "request_bytes r = command_code CREATE # u32le (word_of_nat (length payload)) @ payload"
        "parse_create payload (length payload) = Some (Parsed (pid, name))" by auto
    with Req_create show ?thesis by (intro framed [of 1 payload]) (simp_all add: request_of_def)
  next
    case (Req_list pid)
    obtain payload where "serialize_list pid = command_code LIST # u32le (word_of_nat (length payload)) @ payload"
      "parse_list payload (length payload) = Some (Parsed pid)" by (rule list_codec.framed [OF TrueI])
    with Req_list show ?thesis by (intro framed [of 2 payload]) (simp_all add: request_of_def)
  next
    case (Req_info pid c)
    with assms info_codec.framed [of "(pid, c)"] obtain payload
      where "request_bytes r = command_code INFO # u32le (word_of_nat (length payload)) @ payload"
        "parse_info payload (length payload) = Some (Parsed (pid, c))" by auto
    with Req_info show ?thesis by (intro framed [of 3 payload]) (simp_all add: request_of_def)
  next
    case (Req_connect pid name)
    with assms connect_codec.framed [of "(pid, name)"] obtain payload
      where "request_bytes r = command_code CONNECT # u32le (word_of_nat (length payload)) @ payload"
        "parse_connect payload (length payload) = Some (Parsed (pid, name))" by auto
    with Req_connect show ?thesis by (intro framed [of 4 payload]) (simp_all add: request_of_def)
  next
    case (Req_publish name k v)
    with assms produce_codec.framed [of "(name, k, v)"] obtain payload
      where "request_bytes r = command_code PRODUCE # u32le (word_of_nat (length payload)) @ payload"
        "parse_produce payload (length payload) = Some (Parsed (name, k, v))" by auto
    with Req_publish show ?thesis by (intro framed [of 5 payload]) (simp_all add: request_of_def)
  next
    case (Req_subscribe pid c name p offset)
    with assms subscribe_codec.framed [of "(pid, c, name, p, offset)"] obtain payload
      where "request_bytes r = command_code SUBSCRIBE # u32le (word_of_nat (length payload)) @ payload"
        "parse_subscribe payload (length payload) = Some (Parsed (pid, c, name, p, offset))" by auto
    with Req_subscribe show ?thesis by (intro framed [of 6 payload]) (simp_all add: request_of_def)
  next
    case (Req_commit c n)
    with assms ack_codec.framed [of "(c, n)"] obtain payload
      where "request_bytes r = command_code ACK # u32le (word_of_nat (length payload)) @ payload"
        "parse_ack payload (length payload) = Some (Parsed (c, n))" by auto
    with Req_commit show ?thesis by (intro framed [of 7 payload]) (simp_all add: request_of_def)
  next
    case (Req_disconnect c)
    with assms disconnect_codec.framed [of c] obtain payload
      where "request_bytes r = command_code DISCONNECT # u32le (word_of_nat (length payload)) @ payload"
        "parse_disconnect payload (length payload) = Some (Parsed c)" by auto
    with Req_disconnect show ?thesis by (intro framed [of 8 payload]) (simp_all add: request_of_def)
  qed
qed

lemma requests_framed:
  assumes "\<forall>r \<in> set rs. request_fits r"
  shows "\<exists>fs. map request_bytes rs = map request_frame fs \<and> (\<forall>f \<in> set fs. fits_frame f)
    \<and> map (\<lambda>f. request_of (fst f) (snd f)) fs = map Some rs"
  using assms
proof (induction rs)
  case (Cons r rs)
  then obtain fs where fs: "map request_bytes rs = map request_frame fs" "\<forall>f \<in> set fs. fits_frame f"
    "map (\<lambda>f. request_of (fst f) (snd f)) fs = map Some rs" by auto
  from Cons.prems have "request_wf r" "length (request_bytes r) < 2 ^ 32" by (simp_all add: request_fits_def)
  with request_framed obtain f where "request_bytes r = request_frame f" "request_of (fst f) (snd f) = Some r" "fits_frame f"
    by (metis fits_frame_def length_request_frame)
  with fs show ?case by (intro exI [of _ "f # fs"]) simp
qed simp

text \<open>The frame at the beginning of a stream is determined.\<close>

lemma frame_unique:
  assumes "request_frame f @ x = request_frame g @ y" and "length (snd f) < 2 ^ 32" and "length (snd g) < 2 ^ 32"
  shows "f = g \<and> x = y"
proof -
  have eq: "fst f = fst g" "u32le (word_of_nat (length (snd f))) @ snd f @ x = u32le (word_of_nat (length (snd g))) @ snd g @ y"
    using assms(1) by (simp_all add: request_frame_def)
  then have "(word_of_nat (length (snd f)) :: u32) = word_of_nat (length (snd g))" by (metis option.inject read_u32le)
  then have "length (snd f) = length (snd g)" using assms(2,3) by (metis unat_word_of_nat_small)
  with eq show ?thesis by (simp add: prod_eq_iff)
qed

text \<open>A stream has only one reading: frames at its beginning are the first of its frames.\<close>

lemma frames_first:
  assumes "concat (map request_frame gs) @ buf @ later = concat (map request_frame fs)"
    and "\<forall>g \<in> set gs. length (snd g) < 2 ^ 32" and "\<forall>f \<in> set fs. fits_frame f"
  shows "\<exists>fs1. fs = gs @ fs1 \<and> buf @ later = concat (map request_frame fs1)"
  using assms
proof (induction gs arbitrary: fs)
  case (Cons g gs)
  show ?case
  proof (cases fs)
    case Nil
    with Cons.prems(1) have "length (request_frame g) = 0" by simp
    then show ?thesis by simp
  next
    case (Cons f fs1)
    with Cons.prems have "request_frame g @ (concat (map request_frame gs) @ buf @ later) = request_frame f @ concat (map request_frame fs1)"
      "length (snd f) < 2 ^ 32" by (simp_all add: fits_frame_def)
    from frame_unique [OF this(1) _ this(2)] Cons.prems(2)
    have "g = f" "concat (map request_frame gs) @ buf @ later = concat (map request_frame fs1)" by simp_all
    with Cons.IH [of fs1] Cons.prems(2,3) Cons show ?thesis by auto
  qed
qed simp


section \<open>Every complete request is performed\<close>

lemma requests_of_some: "map (\<lambda>f. request_of (fst f) (snd f)) fs = map Some rs \<Longrightarrow> requests_of fs = rs"
  by (induction fs arbitrary: rs) (auto simp: requests_in_def)

lemma machine_performs:
  assumes run: "machine_run H os (start_machine os path io) es m" and fits: "\<forall>r \<in> set rs. request_fits r"
    and stream: "all_bytes es @ later = concat (map request_bytes rs)"
  shows "\<exists>performed busy rest. rs = performed @ rest \<and> length busy = length performed
    \<and> view H (fst (sys_server (m_system m))) = broker_run busy performed empty_broker
    \<and> (m_phase m \<noteq> At_frames \<and> (\<forall>n. m_phase m \<noteq> Handling n) \<longrightarrow>
         (\<exists>tail. all_bytes es = concat (map request_bytes performed) @ tail \<and> incomplete tail))"
proof -
  have inv: "machine_inv H os path io es m" using machine_started [OF run] .
  let ?gs = "all_frames es"
  obtain buf where bytes: "all_bytes es = concat (map request_frame ?gs) @ buf"
    and idle: "m_phase m \<noteq> At_frames \<Longrightarrow> (\<forall>n. m_phase m \<noteq> Handling n) \<Longrightarrow> sys_task (m_system m) = Idle \<and> incomplete buf"
    using inv by (cases "m_phase m") (auto simp: machine_inv_def stream_ok_def)
  have short: "\<forall>g \<in> set ?gs. length (snd g) < 2 ^ 32" using inv by (simp add: machine_inv_def stream_ok_def)
  from requests_framed [OF fits] obtain fs where fs: "map request_bytes rs = map request_frame fs" "\<forall>f \<in> set fs. fits_frame f"
    "map (\<lambda>f. request_of (fst f) (snd f)) fs = map Some rs" by blast
  have "concat (map request_frame ?gs) @ buf @ later = concat (map request_frame fs)" using stream bytes fs(1) by simp
  from frames_first [OF this short fs(2)] obtain fs1 where cut: "fs = ?gs @ fs1" by blast
  define k where "k = length ?gs"
  have taken: "requests_of ?gs = take k rs"
    using arg_cong [OF fs(3), of "take k"] by (intro requests_of_some) (simp add: cut k_def take_map)
  have frames: "map request_bytes (take k rs) = map request_frame ?gs"
    using arg_cong [OF fs(1), of "take k"] by (simp add: cut k_def take_map)
  from inv obtain performed busy where adv: "take k rs = performed @ pending (m_system m)" "length busy = length performed"
    "view H (fst (sys_server (m_system m))) = broker_run busy performed empty_broker"
    by (auto simp: machine_inv_def advances_def start_view taken)
  have "rs = performed @ pending (m_system m) @ drop k rs" using adv(1) by (metis append.assoc append_take_drop_id)
  moreover have "\<exists>tail. all_bytes es = concat (map request_bytes performed) @ tail \<and> incomplete tail"
    if "m_phase m \<noteq> At_frames" and "\<forall>n. m_phase m \<noteq> Handling n"
  proof -
    have "pending (m_system m) = []" using idle [OF that] by (simp add: pending_def requests_in_def)
    then have "concat (map request_bytes performed) = concat (map request_frame ?gs)" using adv(1) frames by simp
    with bytes idle [OF that] show ?thesis by auto
  qed
  ultimately show ?thesis using adv(2,3) by blast
qed

section \<open>The loop catches up\<close>

text \<open>
  The events with which the program goes on by itself: no byte arrives, no signal, no worker falls asleep,
  wakes up by chance or begins a turn.
\<close>

fun going_on :: "machine_event \<Rightarrow> bool" where
  "going_on (Got chunk) = False"
| "going_on Got_nothing = False"
| "going_on (Step e) = finishing e"
| "going_on _ = True"

lemma going_on_quiet: "\<forall>e \<in> set es. going_on e \<Longrightarrow> all_bytes es = []"
proof -
  have "going_on e \<Longrightarrow> bytes_got e = []" for e by (cases e) simp_all
  then show "\<forall>e \<in> set es. going_on e \<Longrightarrow> all_bytes es = []" by (induction es) simp_all
qed

lemma machine_follows:
  assumes "thread_run H os s fs s'" and "\<forall>e \<in> set fs. finishing e" and "m_system m = s" and "m_phase m \<noteq> Exited"
    and "m_phase m = Destroying \<Longrightarrow> Finish_stop \<notin> set fs"
  shows "machine_run H os m (map Step fs) (m\<lparr>m_system := s'\<rparr>)"
  using assms
proof (induction rule: thread_run.induct)
  case (Nil s)
  then have "m\<lparr>m_system := s\<rparr> = m" by simp
  then show ?case by (simp add: machine_run.Nil)
next
  case (Snoc s es s1 e s2)
  have "machine_step H os (m\<lparr>m_system := s1\<rparr>) (Step e) (m\<lparr>m_system := s1\<rparr>\<lparr>m_system := s2\<rparr>)"
    using Snoc by (intro machine_step.inner) auto
  moreover have "machine_run H os m (map Step es) (m\<lparr>m_system := s1\<rparr>)" using Snoc by auto
  ultimately show ?case using machine_run.Snoc by fastforce
qed

text \<open>The main thread is in no handler, and waits for bytes or has left its loop, or the process has ended.\<close>

definition at_rest :: "machine \<Rightarrow> bool" where
  "at_rest m \<longleftrightarrow> in_loop m At_read \<or> in_loop m Ended \<or> m_phase m = Exited"

text \<open>The frames in the buffer are handled one after the other, until only a part of one is left.\<close>

lemma buffer_drains:
  assumes reads: "clients_read os" and "machine_inv H os path io es m" and "in_loop m At_frames" and "sys_workers (m_system m) = {}"
    and "fifo_fd (fst (sys_server (m_system m))) \<noteq> None"
    and "all_bytes es @ later = concat (map request_frame fs)" and "\<forall>f \<in> set fs. fits_frame f"
  shows "\<exists>es' m'. (\<forall>e \<in> set es'. going_on e) \<and> machine_run H os m es' m' \<and> at_rest m'
    \<and> m_phase m' \<noteq> Exited \<and> sys_workers (m_system m') = {}"
  using assms(2-6)
proof (induction "length (m_buffer m)" arbitrary: m es rule: less_induct)
  case less
  have loop: "sys_task (m_system m) = Idle" "sys_stop (m_system m) = No_stop" "m_phase m = At_frames"
    using less.prems(2) by (simp_all add: in_loop_def)
  have T: "threads_inv H (m_system m)" and bytes: "all_bytes es = concat (map request_frame (all_frames es)) @ m_buffer m"
    and short: "\<forall>g \<in> set (all_frames es). length (snd g) < 2 ^ 32"
    using less.prems(1) loop by (simp_all add: machine_inv_def stream_ok_def)
  show ?case
  proof (cases "incomplete (m_buffer m)")
    case True
    then have move: "next_move (m_buffer m) = Some Await_bytes" by (simp add: next_move_await)
    obtain srv where "close_fifo (sys_server (m_system m)) = Some srv"
      using less.prems(4) by (cases "sys_server (m_system m)") (auto simp: close_fifo_def)
    with machine_step.await [OF less.prems(2) move, of H os] machine_step.await_end [OF less.prems(2) move, of srv H os]
    show ?thesis
      by (cases "up m") (auto intro!: exI [of _ "[Await]"] dest!: machine_run_single simp: at_rest_def in_loop_def loop less.prems(3))
  next
    case False
    from frames_first [of "all_frames es" "m_buffer m" later fs] bytes short less.prems(5) assms(7)
    obtain fs1 where fs1: "fs = all_frames es @ fs1" "m_buffer m @ later = concat (map request_frame fs1)" by auto
    have "m_buffer m @ later = concat (map request_frame fs1) @ []" "\<forall>f \<in> set fs1. fits_frame f" "incomplete []"
      using fs1 assms(7) by (simp_all add: incomplete_def)
    from cut_stream [OF this] obtain gs gs' tail where gs: "fs1 = gs @ gs'" "m_buffer m = concat (map request_frame gs) @ tail"
      "incomplete tail" by blast
    with False obtain f gs1 where "gs = f # gs1" by (cases gs) auto
    then have buf: "m_buffer m = request_frame f @ (concat (map request_frame gs1) @ tail)" and "fits_frame f"
      using gs fs1 assms(7) by auto
    define n where "n = 5 + length (snd f)"
    have move: "next_move (m_buffer m) = Some (Handle_frame (fst f) (snd f) n)"
      unfolding buf n_def by (rule next_move_complete) fact
    let ?s = "(m_system m)\<lparr>sys_task := Dispatch (fst f) (snd f)\<rparr>"
    let ?m1 = "m\<lparr>m_system := ?s, m_phase := Handling n\<rparr>"
    have take: "machine_step H os m (Take_frame (fst f) (snd f)) ?m1"
      by (rule machine_step.take_frame [OF less.prems(2) move thread_step.accept]) (simp_all add: loop)
    have inv1: "machine_inv H os path io (es @ [Take_frame (fst f) (snd f)]) ?m1"
      by (rule machine_step_keeps [OF less.prems(1) take])
    then have T1: "threads_inv H ?s" by (simp add: machine_inv_def)
    from main_finishes [OF reads this] loop less.prems(3) obtain ts s' where ts: "\<forall>e \<in> set ts. finishing e"
      "thread_run H os ?s ts s'" "sys_task s' = Idle" "sys_stop s' = No_stop" "sys_workers s' = {}" by auto
    let ?m2 = "?m1\<lparr>m_system := s'\<rparr>" and ?m3 = "?m1\<lparr>m_system := s', m_buffer := drop n (m_buffer m), m_phase := At_frames\<rparr>"
    have handle: "machine_run H os ?m1 (map Step ts) ?m2" by (rule machine_follows [OF ts(2,1)]) simp_all
    have "machine_step H os ?m2 Erase_frame (?m2\<lparr>m_buffer := drop n (m_buffer ?m2), m_phase := At_frames\<rparr>)"
      by (rule machine_step.erase_frame) (simp add: in_loop_def ts)
    then have erase: "machine_step H os ?m2 Erase_frame ?m3" by simp
    have run: "machine_run H os m ([Take_frame (fst f) (snd f)] @ map Step ts @ [Erase_frame]) ?m3"
      by (rule machine_run_append [OF machine_run_single [OF take] machine_run_append [OF handle machine_run_single [OF erase]]])
    have inv3: "machine_inv H os path io (es @ [Take_frame (fst f) (snd f)] @ map Step ts @ [Erase_frame]) ?m3"
      by (rule machine_run_keeps [OF run less.prems(1)])
    have quiet: "all_bytes (es @ [Take_frame (fst f) (snd f)] @ map Step ts @ [Erase_frame]) = all_bytes es"
      by simp
    have "length (m_buffer ?m3) < length (m_buffer m)" by (simp add: buf n_def)
    moreover have "fifo_fd (fst (sys_server (m_system ?m3))) \<noteq> None"
      using thread_run_same [OF ts(2) T1] less.prems(4) by simp
    moreover have "in_loop ?m3 At_frames" "sys_workers (m_system ?m3) = {}" using ts by (simp_all add: in_loop_def)
    ultimately obtain es' m' where rest: "\<forall>e \<in> set es'. going_on e" "machine_run H os ?m3 es' m'" "at_rest m'"
      "m_phase m' \<noteq> Exited" "sys_workers (m_system m') = {}"
      using less.hyps [OF _ inv3] less.prems(5) unfolding quiet by blast
    have "\<forall>e \<in> set (([Take_frame (fst f) (snd f)] @ map Step ts @ [Erase_frame]) @ es'). going_on e"
      using rest(1) ts(1) by auto
    with machine_run_append [OF run rest(2)] rest(3-5) show ?thesis by blast
  qed
qed

text \<open>The destruction of the server ends: every topic that was not told to stop is shut down.\<close>

lemma destruction_ends:
  assumes inv: "machine_inv H os path io es m" and phase: "m_phase m = Destroying" and "sys_workers (m_system m) = {}"
  shows "\<exists>es' m'. (\<forall>e \<in> set es'. going_on e) \<and> machine_run H os m es' m' \<and> m_phase m' = Exited"
proof -
  have T: "threads_inv H (m_system m)" and idle: "sys_task (m_system m) = Idle" and p: "sys_stop (m_system m) \<noteq> No_stop"
    using inv phase by (simp_all add: machine_inv_def stream_ok_def)
  from stop_empties [OF T p idle_free(3) [OF T idle] assms(3), of os] obtain ts s' where
    ts: "\<forall>e \<in> set ts. finishing e \<and> e \<noteq> Finish_stop" "thread_run H os (m_system m) ts s'" "sys_stop s' = Shutting []" by blast
  let ?m1 = "m\<lparr>m_system := s'\<rparr>" and ?m2 = "m\<lparr>m_system := s'\<lparr>sys_stop := No_stop\<rparr>, m_phase := Exited\<rparr>"
  have "machine_run H os m (map Step ts) ?m1" using ts phase by (intro machine_follows [OF ts(2)]) auto
  moreover have "machine_step H os ?m1 Exit ?m2" using machine_step.exit [of ?m1 H os] phase ts(3) by simp
  ultimately have "machine_run H os m (map Step ts @ [Exit]) ?m2" by (rule machine_run.Snoc)
  with ts(1) show ?thesis by (intro exI [of _ "map Step ts @ [Exit]"] exI [of _ ?m2]) auto
qed

lemma machine_catches_up:
  assumes run: "machine_run H os (start_machine os path io) es m" and fits: "\<forall>r \<in> set rs. request_fits r"
    and stream: "all_bytes es @ later = concat (map request_bytes rs)" and reads: "clients_read os"
    and live: "\<not> deadlocked (m_system m)" and short: "short_logs H (fst (sys_server (m_system m)))"
    and fifo: "fifo_fd (fst (sys_server (m_system m))) \<noteq> None"
  shows "\<exists>es' m'. (\<forall>e \<in> set es'. going_on e) \<and> machine_run H os m es' m' \<and> at_rest m'
    \<and> (m_phase m' = Exited \<or> sys_workers (m_system m') = {})"
proof -
  have inv: "machine_inv H os path io es m" using machine_started [OF run] .
  then have T: "threads_inv H (m_system m)" by (simp add: machine_inv_def)
  from requests_framed [OF fits] obtain fs where fs: "map request_bytes rs = map request_frame fs" "\<forall>f \<in> set fs. fits_frame f"
    by blast
  consider "m_phase m = Exited" | "m_phase m = Destroying" | "m_phase m \<noteq> Exited" "m_phase m \<noteq> Destroying" by blast
  then show ?thesis
  proof cases
    case 1
    then show ?thesis by (intro exI [of _ "[]"] exI [of _ m]) (auto simp: at_rest_def intro: machine_run.Nil)
  next
    case 2
    from workers_leave [OF T short, of os] obtain ts s' where ts: "\<forall>e \<in> set ts. finishing e \<and> e \<noteq> Finish_stop"
      "thread_run H os (m_system m) ts s'" "sys_workers s' = {}" by blast
    let ?m1 = "m\<lparr>m_system := s'\<rparr>"
    have run1: "machine_run H os m (map Step ts) ?m1" using ts 2 by (intro machine_follows [OF ts(2)]) auto
    have inv1: "machine_inv H os path io (es @ map Step ts) ?m1" by (rule machine_run_keeps [OF run1 inv])
    from destruction_ends [OF inv1] 2 ts(3) obtain es' m' where
      "\<forall>e \<in> set es'. going_on e" "machine_run H os ?m1 es' m'" "m_phase m' = Exited" by auto
    with machine_run_append [OF run1] ts(1) show ?thesis
      by (intro exI [of _ "map Step ts @ es'"] exI [of _ m']) (auto simp: at_rest_def)
  next
    case 3
    from threads_finish [OF reads T live short fifo] obtain ts s' where ts: "\<forall>e \<in> set ts. finishing e"
      "thread_run H os (m_system m) ts s'" "sys_task s' = Idle" "sys_stop s' = No_stop" "sys_workers s' = {}" by blast
    let ?m1 = "m\<lparr>m_system := s'\<rparr>"
    have run1: "machine_run H os m (map Step ts) ?m1" using 3 by (intro machine_follows [OF ts(2,1)]) simp_all
    have on1: "\<forall>e \<in> set (map Step ts). going_on e" using ts(1) by simp
    have inv1: "machine_inv H os path io (es @ map Step ts) ?m1" by (rule machine_run_keeps [OF run1 inv])
    have fifo1: "fifo_fd (fst (sys_server s')) \<noteq> None" using thread_run_same [OF ts(2) T] fifo by simp
    have stream1: "all_bytes (es @ map Step ts) @ later = concat (map request_frame fs)"
      using stream fs(1) by simp
    show ?thesis
    proof (cases "m_phase m")
      case At_frames
      then have "in_loop ?m1 At_frames" using ts by (simp add: in_loop_def)
      from buffer_drains [OF reads inv1 this _ _ stream1 fs(2)] ts(5) fifo1 obtain es' m' where
        "\<forall>e \<in> set es'. going_on e" "machine_run H os ?m1 es' m'" "at_rest m'" "sys_workers (m_system m') = {}" by auto
      with machine_run_append [OF run1] on1 show ?thesis
        by (intro exI [of _ "map Step ts @ es'"] exI [of _ m']) auto
    next
      case (Handling n)
      let ?m2 = "?m1\<lparr>m_buffer := drop n (m_buffer ?m1), m_phase := At_frames\<rparr>"
      have erase: "machine_step H os ?m1 Erase_frame ?m2"
        by (rule machine_step.erase_frame) (simp add: in_loop_def Handling ts)
      have run2: "machine_run H os m (map Step ts @ [Erase_frame]) ?m2"
        by (rule machine_run_append [OF run1 machine_run_single [OF erase]])
      have inv2: "machine_inv H os path io ((es @ map Step ts) @ [Erase_frame]) ?m2"
        by (rule machine_step_keeps [OF inv1 erase])
      have "in_loop ?m2 At_frames" using ts by (simp add: in_loop_def)
      moreover have "all_bytes ((es @ map Step ts) @ [Erase_frame]) @ later = concat (map request_frame fs)" using stream1 by simp
      ultimately obtain es' m' where
        "\<forall>e \<in> set es'. going_on e" "machine_run H os ?m2 es' m'" "at_rest m'" "sys_workers (m_system m') = {}"
        using buffer_drains [OF reads inv2 _ _ _ _ fs(2), of later] ts(5) fifo1 by auto
      with machine_run_append [OF run2] on1 show ?thesis
        by (intro exI [of _ "(map Step ts @ [Erase_frame]) @ es'"] exI [of _ m']) auto
    qed (use 3 run1 on1 ts in \<open>(intro exI [of _ "map Step ts"] exI [of _ ?m1], simp add: at_rest_def in_loop_def)+\<close>)
  qed
qed

text \<open>Once the flag is down it stays down, and then the loop ends without another byte.\<close>

lemma thread_step_down:
  assumes "threads_inv H s" and "thread_step H os s e s'" and "\<not> running (fst (sys_server s))"
  shows "\<not> running (fst (sys_server s'))"
  using thread_step_same(2,3) [OF assms(1,2)] assms(3) by (cases "e = Interrupt") auto

lemma machine_step_down:
  assumes inv: "threads_inv H (m_system m)" and step: "machine_step H os m e m'" and down: "\<not> up m"
  shows "\<not> up m' \<and> fifo_fd (fst (sys_server (m_system m'))) = fifo_fd (fst (sys_server (m_system m)))"
  using step
proof (cases rule: machine_step.cases)
  case (got_nothing_end srv)
  with close_fifo_log down show ?thesis by fastforce
next
  case (await_end srv)
  with close_fifo_log down show ?thesis by fastforce
next
  case (take_frame act payload n s)
  with thread_step_down [OF inv take_frame(5)] thread_step_same(1) [OF inv take_frame(5)] down show ?thesis by simp
next
  case (inner e' s)
  with thread_step_down [OF inv inner(6)] thread_step_same(1) [OF inv inner(6)] down show ?thesis by simp
qed (use down in simp_all)

lemma machine_run_down:
  assumes "machine_run H os m es m'" and "machine_inv H os path io es0 m" and "\<not> up m"
  shows "\<not> up m' \<and> fifo_fd (fst (sys_server (m_system m'))) = fifo_fd (fst (sys_server (m_system m)))"
  using assms
proof (induction rule: machine_run.induct)
  case (Snoc m es m1 e m2)
  have "threads_inv H (m_system m1)" using machine_run_keeps [OF Snoc(1,4)] by (simp add: machine_inv_def)
  with machine_step_down [OF this Snoc(2)] Snoc show ?case by auto
qed simp

text \<open>
  What the loop may still do when it is stopped: go on by itself, and have \<^verbatim>\<open>read\<close> fail on the descriptor that
  \<^verbatim>\<open>stop\<close> has closed.
\<close>

abbreviation winding_up :: "machine_event \<Rightarrow> bool" where
  "winding_up e \<equiv> going_on e \<or> e = Got_nothing"

lemma ended_exits:
  assumes inv: "machine_inv H os path io es m" and "in_loop m Ended" and "sys_workers (m_system m) = {}"
  shows "\<exists>es' m'. (\<forall>e \<in> set es'. going_on e) \<and> machine_run H os m es' m' \<and> m_phase m' = Exited"
proof -
  let ?m1 = "m\<lparr>m_system := (m_system m)\<lparr>sys_stop := Shutting (unstopped_topics H (fst (sys_server (m_system m))))\<rparr>,
    m_phase := Destroying\<rparr>"
  have step: "machine_step H os m Destroy ?m1" using assms(2) by (rule machine_step.destroy)
  from destruction_ends [OF machine_step_keeps [OF inv step]] assms(3) obtain es' m' where
    "\<forall>e \<in> set es'. going_on e" "machine_run H os ?m1 es' m'" "m_phase m' = Exited" by auto
  with machine_run_append [OF machine_run_single [OF step]] show ?thesis
    by (intro exI [of _ "[Destroy] @ es'"] exI [of _ m']) auto
qed

lemma machine_ends:
  assumes run: "machine_run H os (start_machine os path io) es m" and fits: "\<forall>r \<in> set rs. request_fits r"
    and stream: "all_bytes es @ later = concat (map request_bytes rs)" and "clients_read os"
    and "\<not> deadlocked (m_system m)" and "short_logs H (fst (sys_server (m_system m)))"
    and fifo: "fifo_fd (fst (sys_server (m_system m))) \<noteq> None" and down: "\<not> up m"
  shows "\<exists>es' m'. (\<forall>e \<in> set es'. winding_up e) \<and> machine_run H os m es' m' \<and> m_phase m' = Exited"
proof -
  have inv: "machine_inv H os path io es m" using machine_started [OF run] .
  from machine_catches_up [OF run fits stream assms(4-7)] obtain es1 m1 where es1: "\<forall>e \<in> set es1. going_on e"
    "machine_run H os m es1 m1" "at_rest m1" "m_phase m1 = Exited \<or> sys_workers (m_system m1) = {}" by blast
  note m1 = machine_run_down [OF es1(2) inv down]
  have ends: ?thesis if "machine_run H os m es2 m2" "\<forall>e \<in> set es2. winding_up e" "in_loop m2 Ended" "sys_workers (m_system m2) = {}" for es2 m2
  proof -
    from ended_exits [OF machine_run_keeps [OF that(1) inv] that(3,4)] obtain es3 m3 where
      "\<forall>e \<in> set es3. going_on e" "machine_run H os m2 es3 m3" "m_phase m3 = Exited" by blast
    with machine_run_append [OF that(1)] that(2) show ?thesis
      by (intro exI [of _ "es2 @ es3"] exI [of _ m3]) auto
  qed
  consider "m_phase m1 = Exited" | "in_loop m1 Ended" "sys_workers (m_system m1) = {}"
    | "in_loop m1 At_read" "sys_workers (m_system m1) = {}"
    using es1(3,4) by (auto simp: at_rest_def)
  then show ?thesis
  proof cases
    case 1
    with es1 show ?thesis by blast
  next
    case 2
    with ends [OF es1(2)] es1(1) show ?thesis by blast
  next
    case 3
    obtain srv where close: "close_fifo (sys_server (m_system m1)) = Some srv"
      using m1 fifo by (cases "sys_server (m_system m1)") (auto simp: close_fifo_def)
    let ?m2 = "m1\<lparr>m_system := (m_system m1)\<lparr>sys_server := srv\<rparr>, m_phase := Ended\<rparr>"
    have "machine_run H os m (es1 @ [Got_nothing]) ?m2"
      using m1 by (intro machine_run.Snoc [OF es1(2) machine_step.got_nothing_end [OF 3(1) _ close]]) blast
    from ends [OF this] es1(1) 3 show ?thesis by (auto simp: in_loop_def)
  qed
qed

lemma winding_up_quiet: "\<forall>e \<in> set es. winding_up e \<Longrightarrow> all_bytes es = []"
proof -
  have "winding_up e \<Longrightarrow> bytes_got e = []" for e by (cases e) simp_all
  then show "\<forall>e \<in> set es. winding_up e \<Longrightarrow> all_bytes es = []" by (induction es) simp_all
qed

text \<open>When the process has ended no worker is left.\<close>

lemma exited_joined:
  assumes "machine_run H os (start_machine os path io) es m" and "m_phase m = Exited"
    and "get_topic H (fst (sys_server (m_system m))) n = Some tp"
  shows "topic_stop tp \<and> topic_worker tp = Worker_joined"
proof -
  have "end_ok H (m_system m) Exited" using machine_started [OF assms(1)] unfolding machine_inv_def assms(2) by blast
  with assms(3) show ?thesis by (auto simp: flags_def)
qed

section \<open>Properties\<close>

text \<open>
  C4: However the bytes on the server's FIFO are cut into reads, and however the main thread, the workers
  and the signals interleave: the requests performed are the first of those sent, each once and in
  order. When the main thread waits for more bytes, or its loop has ended, or the process has, every request
  that has arrived completely has been performed.
\<close>

theorem bytes_refine_broker:
  assumes "machine_run H os (start_machine os path io) es m" and "\<forall>r \<in> set rs. request_fits r"
    and "all_bytes es @ later = concat (map request_bytes rs)"
  shows "\<exists>performed busy rest. rs = performed @ rest \<and> length busy = length performed
    \<and> view H (fst (sys_server (m_system m))) = broker_run busy performed empty_broker
    \<and> (m_phase m = At_read \<or> m_phase m = Ended \<or> m_phase m = Exited \<longrightarrow>
         (\<exists>tail. all_bytes es = concat (map request_bytes performed) @ tail \<and> incomplete tail))"
  using machine_performs [OF assms] by fastforce

text \<open>The machine after its first read, and a run in which it receives one request.\<close>

lemma sample_bytes: "request_fits (Req_create 1 ''t'')" "length (serialize_create 1 ''t'') \<le> 1024" "serialize_create 1 ''t'' \<noteq> []"
  by (simp_all add: request_fits_def named_ok_def serialize_create_def wire_simps)

lemma sample_read:
  assumes "chunk \<noteq> []" and "length chunk \<le> 1024"
  defines "m \<equiv> (start_machine sample_os ''/s'' [])\<lparr>m_buffer := chunk, m_phase := At_frames\<rparr>"
  shows "machine_run sample_hashes sample_os (start_machine sample_os ''/s'' []) [Got chunk] m"
    and "\<not> deadlocked (m_system m)" and "short_logs sample_hashes (fst (sys_server (m_system m)))"
    and "fifo_fd (fst (sys_server (m_system m))) \<noteq> None"
proof -
  let ?start = "start_machine sample_os ''/s'' []"
  have "machine_step sample_hashes sample_os ?start (Got chunk) (?start\<lparr>m_buffer := m_buffer ?start @ chunk, m_phase := At_frames\<rparr>)"
    using assms(1,2) by (intro machine_step.got) (simp_all add: start_machine_def in_loop_def start_system_def)
  then show "machine_run sample_hashes sample_os ?start [Got chunk] m"
    by (intro machine_run_single) (simp add: start_machine_def m_def)
  show "short_logs sample_hashes (fst (sys_server (m_system m)))"
    using Server_new_maps(1) [of sample_hashes sample_os "''/s''" "[]"]
    by (simp add: short_logs_def start_machine_def start_system_def m_def)
  show "fifo_fd (fst (sys_server (m_system m))) \<noteq> None"
    by (simp add: m_def start_machine_def start_system_def Server_new_def sys_mkfifo_def sys_open_rdwr_def sample_os_def Let_def)
  show "\<not> deadlocked (m_system m)" by (simp add: m_def deadlocked_def start_machine_def start_system_def)
qed

lemma sample_machine_run:
  "\<exists>es m. machine_run sample_hashes sample_os (start_machine sample_os ''/s'' []) es m
     \<and> (m_phase m = At_read \<or> m_phase m = Ended \<or> m_phase m = Exited) \<and> all_bytes es = request_bytes (Req_create 1 ''t'')"
proof -
  let ?chunk = "serialize_create 1 ''t''"
  note start = sample_read [OF sample_bytes(3,2)]
  from machine_catches_up [OF start(1), of "[Req_create 1 ''t'']" "[]", OF _ _ sample_clients_read start(2-4)] sample_bytes(1)
  obtain es' m' where es': "\<forall>e \<in> set es'. going_on e" "at_rest m'"
    and run: "machine_run sample_hashes sample_os (start_machine sample_os ''/s'' []) ([Got ?chunk] @ es') m'"
    using machine_run_append [OF start(1)] by auto
  with going_on_quiet [OF es'(1)] show ?thesis
    by (intro exI [of _ "[Got ?chunk] @ es'"] exI [of _ m']) (auto simp: at_rest_def in_loop_def)
qed

text \<open>Then the request has been performed.\<close>

lemma sample_performed:
  assumes "[Req_create 1 ''t''] = performed @ rest" and "length busy = length performed"
    and "serialize_create 1 ''t'' = concat (map request_bytes performed) @ tail" and "incomplete tail"
    and view: "view sample_hashes srv = broker_run busy performed empty_broker"
  shows "view sample_hashes srv = empty_broker\<lparr>ab_logs := [''t'' \<mapsto> []]\<rparr>"
proof -
  have "performed \<noteq> []"
  proof
    assume "performed = []"
    then have "incomplete (serialize_create 1 ''t'')" using assms(3,4) by simp
    then show False by (simp add: incomplete_def serialize_create_def wire_simps read_u32le [of _ "[]", simplified])
  qed
  then have "performed = [Req_create 1 ''t'']" using assms(1) by (cases performed) auto
  then show ?thesis using view assms(2) by (auto simp: length_Suc_conv is_valid_identifier_def is_alnum_def)
qed

theorem bytes_refine_broker_witness:
  "\<exists>es m. machine_run sample_hashes sample_os (start_machine sample_os ''/s'' []) es m
     \<and> logs sample_hashes (fst (sys_server (m_system m))) = [''t'' \<mapsto> []]"
proof -
  obtain es m where run: "machine_run sample_hashes sample_os (start_machine sample_os ''/s'' []) es m"
    and phase: "m_phase m = At_read \<or> m_phase m = Ended \<or> m_phase m = Exited" and bytes: "all_bytes es = request_bytes (Req_create 1 ''t'')"
    using sample_machine_run by blast
  let ?rs = "[Req_create 1 ''t'']"
  have "\<forall>r \<in> set ?rs. request_fits r" "all_bytes es @ [] = concat (map request_bytes ?rs)"
    using sample_bytes(1) bytes by simp_all
  from bytes_refine_broker [OF run this] phase obtain performed busy rest tail where
    p: "?rs = performed @ rest" "length busy = length performed" "all_bytes es = concat (map request_bytes performed) @ tail" "incomplete tail"
    and view: "view sample_hashes (fst (sys_server (m_system m))) = broker_run busy performed empty_broker" by blast
  have "view sample_hashes (fst (sys_server (m_system m))) = empty_broker\<lparr>ab_logs := [''t'' \<mapsto> []]\<rparr>"
    by (rule sample_performed [OF p(1,2) _ p(4) view]) (use p(3) bytes in simp)
  then have "logs sample_hashes (fst (sys_server (m_system m))) = [''t'' \<mapsto> []]" by (simp add: view_def)
  with run show ?thesis by blast
qed

text \<open>
  C5: The server can always get through what it has read, without another byte arriving and without a worker
  waking by chance: it handles every complete request and waits again, or its loop, or the process, ends if it
  was stopped. Four conditions are needed: no signal has caught the main thread with a mutex in its hands,
  every client opens its FIFO and reads the answers (\<open>clients_read\<close>; \<open>client_stalls_server\<close> shows what happens
  otherwise), no topic has \<open>2 ^ 32\<close> messages, and the server's FIFO was opened.
\<close>

theorem bytes_get_handled:
  assumes "machine_run H os (start_machine os path io) es m" and "\<forall>r \<in> set rs. request_fits r"
    and "all_bytes es @ later = concat (map request_bytes rs)" and "clients_read os"
    and "\<not> deadlocked (m_system m)" and "short_logs H (fst (sys_server (m_system m)))"
    and "fifo_fd (fst (sys_server (m_system m))) \<noteq> None"
  shows "\<exists>es' m' performed busy rest tail. (\<forall>e \<in> set es'. going_on e) \<and> machine_run H os m es' m'
    \<and> at_rest m' \<and> rs = performed @ rest \<and> length busy = length performed
    \<and> view H (fst (sys_server (m_system m'))) = broker_run busy performed empty_broker
    \<and> all_bytes es = concat (map request_bytes performed) @ tail \<and> incomplete tail"
proof -
  from machine_catches_up [OF assms] obtain es' m' where es': "\<forall>e \<in> set es'. going_on e" "machine_run H os m es' m'"
    "at_rest m'" by blast
  then have phase: "m_phase m' \<noteq> At_frames \<and> (\<forall>n. m_phase m' \<noteq> Handling n)" by (auto simp: at_rest_def in_loop_def)
  have "all_bytes es' = []" using es'(1) by (rule going_on_quiet)
  then have bytes: "all_bytes (es @ es') = all_bytes es" by simp
  from machine_performs [OF machine_run_append [OF assms(1) es'(2)] assms(2), unfolded bytes, OF assms(3)] es' phase
  show ?thesis by blast
qed

theorem bytes_get_handled_witness:
  "\<exists>es m. machine_run sample_hashes sample_os
       ((start_machine sample_os ''/s'' [])\<lparr>m_buffer := take 7 (serialize_create 1 ''t''), m_phase := At_frames\<rparr>) es m
     \<and> at_rest m"
proof -
  let ?chunk = "take 7 (serialize_create 1 ''t'')"
  have "?chunk \<noteq> []" "length ?chunk \<le> 1024" using sample_bytes by simp_all
  note start = sample_read [OF this]
  have "\<forall>r \<in> set [Req_create 1 ''t'']. request_fits r" using sample_bytes(1) by simp
  moreover have "all_bytes [Got ?chunk] @ drop 7 (serialize_create 1 ''t'') = concat (map request_bytes [Req_create 1 ''t''])" by simp
  ultimately show ?thesis using bytes_get_handled [OF start(1) _ _ sample_clients_read start(2-4)] by blast
qed

text \<open>
  C6: A server that was told to stop, wherever the signal met it and whatever its workers were doing, can
  always come to the end of its process without another byte arriving: it performs the requests that have
  arrived completely, leaves its loop, and in its destructor shuts down the topics created after the
  signal; then every topic was told to stop and every worker has been joined. No worker needs to wake by
  chance: each is notified. If the thread waits in \<^verbatim>\<open>read\<close>, the call fails, since \<^verbatim>\<open>stop\<close> has closed its
  descriptor (\<open>Got_nothing\<close>). The other conditions are those of \<open>bytes_get_handled\<close>: the signal has not deadlocked the
  main thread, every client reads its answers, no topic has \<open>2 ^ 32\<close> messages, the server's FIFO was opened.
\<close>

theorem stopped_server_exits:
  assumes "machine_run H os (start_machine os path io) es m" and "\<forall>r \<in> set rs. request_fits r"
    and "all_bytes es @ later = concat (map request_bytes rs)" and "clients_read os"
    and "\<not> deadlocked (m_system m)" and "short_logs H (fst (sys_server (m_system m)))"
    and "fifo_fd (fst (sys_server (m_system m))) \<noteq> None" and "\<not> running (fst (sys_server (m_system m)))"
  shows "\<exists>es' m' performed busy rest tail. (\<forall>e \<in> set es'. winding_up e) \<and> machine_run H os m es' m'
    \<and> m_phase m' = Exited \<and> rs = performed @ rest \<and> length busy = length performed
    \<and> view H (fst (sys_server (m_system m'))) = broker_run busy performed empty_broker
    \<and> all_bytes es = concat (map request_bytes performed) @ tail \<and> incomplete tail
    \<and> (\<forall>n tp. get_topic H (fst (sys_server (m_system m'))) n = Some tp \<longrightarrow> topic_stop tp \<and> topic_worker tp = Worker_joined)"
proof -
  from machine_ends [OF assms] obtain es' m' where es': "\<forall>e \<in> set es'. winding_up e"
    "machine_run H os m es' m'" "m_phase m' = Exited" by blast
  have "all_bytes es' = []" using es'(1) by (rule winding_up_quiet)
  then have bytes: "all_bytes (es @ es') = all_bytes es" by simp
  note run = machine_run_append [OF assms(1) es'(2)]
  have phase: "m_phase m' \<noteq> At_frames \<and> (\<forall>n. m_phase m' \<noteq> Handling n)" using es'(3) by simp
  from machine_performs [OF run assms(2), unfolded bytes, OF assms(3)] phase obtain performed busy rest tail where
    "rs = performed @ rest" "length busy = length performed" "view H (fst (sys_server (m_system m'))) = broker_run busy performed empty_broker"
    "all_bytes es = concat (map request_bytes performed) @ tail" "incomplete tail" by blast
  with es' exited_joined [OF run es'(3)] show ?thesis by blast
qed

theorem stopped_server_exits_witness:
  "\<exists>m es' m' tp. machine_run sample_hashes sample_os (start_machine sample_os ''/s'' [])
       [Got (serialize_create 1 ''t''), Step Interrupt] m
     \<and> machine_run sample_hashes sample_os m es' m' \<and> m_phase m' = Exited
     \<and> get_topic sample_hashes (fst (sys_server (m_system m'))) ''t'' = Some tp \<and> topic_worker tp = Worker_joined"
proof -
  let ?chunk = "serialize_create 1 ''t''" and ?srv = "Server_new sample_os ''/s'' []"
  let ?first = "(start_machine sample_os ''/s'' [])\<lparr>m_buffer := ?chunk, m_phase := At_frames\<rparr>"
  let ?s = "(m_system ?first)\<lparr>sys_server := stop_begin sample_os ?srv, sys_stop := Shutting (topic_names (fst ?srv))\<rparr>"
  let ?m = "?first\<lparr>m_system := ?s\<rparr>"
  note start = sample_read [OF sample_bytes(3,2)]
  obtain srv io where srv: "?srv = (srv, io)" by fastforce
  obtain io' where stop: "stop_begin sample_os (srv, io) = (srv\<lparr>running := False\<rparr>, io')" by (rule stop_begin_same)
  have "thread_step sample_hashes sample_os (m_system ?first) Interrupt ?s"
    using thread_step.interrupt [of "m_system ?first" sample_hashes sample_os] Server_new_correct(3) [where path = "''/s''"]
    by (simp add: start_machine_def start_system_def)
  then have "machine_step sample_hashes sample_os ?first (Step Interrupt) ?m" by (intro machine_step.inner) simp_all
  with start(1) have run: "machine_run sample_hashes sample_os (start_machine sample_os ''/s'' []) [Got ?chunk, Step Interrupt] ?m"
    using machine_run.Snoc by fastforce
  have live: "\<not> deadlocked (m_system ?m)"
    by (simp add: deadlocked_def holds_server_def holds_topic_def start_machine_def start_system_def)
  have short: "short_logs sample_hashes (fst (sys_server (m_system ?m)))" and down: "\<not> running (fst (sys_server (m_system ?m)))"
    using Server_new_maps(1) [of sample_hashes sample_os "''/s''" "[]"] by (simp_all add: srv stop short_logs_def)
  have "fifo_fd (fst ?srv) \<noteq> None" by (simp add: Server_new_def sys_mkfifo_def sys_open_rdwr_def sample_os_def Let_def)
  then have fifo: "fifo_fd (fst (sys_server (m_system ?m))) \<noteq> None" by (simp add: srv stop)
  let ?rs = "[Req_create 1 ''t'']"
  have "\<forall>r \<in> set ?rs. request_fits r" "all_bytes [Got ?chunk, Step Interrupt] @ [] = concat (map request_bytes ?rs)"
    using sample_bytes(1) by simp_all
  from stopped_server_exits [OF run this sample_clients_read live short fifo down] obtain es' m' performed busy rest tail where
    m': "machine_run sample_hashes sample_os ?m es' m'" "m_phase m' = Exited"
    and p: "?rs = performed @ rest" "length busy = length performed" "?chunk = concat (map request_bytes performed) @ tail" "incomplete tail"
    and view: "view sample_hashes (fst (sys_server (m_system m'))) = broker_run busy performed empty_broker"
    and joined: "\<forall>n tp. get_topic sample_hashes (fst (sys_server (m_system m'))) n = Some tp \<longrightarrow> topic_stop tp \<and> topic_worker tp = Worker_joined"
    by auto
  have "view sample_hashes (fst (sys_server (m_system m'))) = empty_broker\<lparr>ab_logs := [''t'' \<mapsto> []]\<rparr>"
    by (rule sample_performed [OF p view])
  then have "logs sample_hashes (fst (sys_server (m_system m'))) ''t'' = Some []" by (simp add: view_def)
  then obtain tp where "get_topic sample_hashes (fst (sys_server (m_system m'))) ''t'' = Some tp" by (auto simp: logs_def)
  with run m' joined show ?thesis by blast
qed

end
