(* ===== verification/Unit_Tests.thy ===== *)
theory Unit_Tests
  imports Prefix_Tree Protocol_Codec
begin

text \<open>
  The repository's unit tests (\<^verbatim>\<open>tests/test_prefixtree.cpp\<close>, \<^verbatim>\<open>test_hashmap.cpp\<close>,
  \<^verbatim>\<open>test_protocol.cpp\<close>) replayed on the model: what each expects holds of the model too, and for every
  hash function, not only the one of the standard library. A lemma has the name of its test. Left out
  are the tests of the type system (\<^verbatim>\<open>is_copy_constructible\<close> and the like), of aliasing between a
  table and a copy of it, which values do not have, and the round trips, which \<open>Protocol_Codec\<close>
  shows for all arguments.
\<close>

section \<open>The prefix tree\<close>

definition removed :: "char hasher \<Rightarrow> prefix_tree \<Rightarrow> string \<Rightarrow> string \<Rightarrow> prefix_tree" where
  "removed h t p c = snd (the (PrefixTree_remove h t p c))"

lemma tree_removed [simp]:
  assumes "tree_inv h t"
  shows "PrefixTree_remove h t p c = Some (c \<in> set (PrefixTree_subs h t p), removed h t p c)"
    and "tree_inv h (removed h t p c)"
    and "PrefixTree_subs h (removed h t p c) = (PrefixTree_subs h t)(p := remove1 c (PrefixTree_subs h t p))"
    and "subscriber_count (removed h t p c) =
      subscriber_count t - (if c \<in> set (PrefixTree_subs h t p) then 1 else 0)"
proof -
  obtain t' where t': "PrefixTree_remove h t p c = Some (c \<in> set (PrefixTree_subs h t p), t')"
    "tree_inv h t'" "PrefixTree_subs h t' = (PrefixTree_subs h t)(p := remove1 c (PrefixTree_subs h t p))"
    "subscriber_count t = subscriber_count t' + (if c \<in> set (PrefixTree_subs h t p) then 1 else 0)"
    using PrefixTree_remove_counts [OF assms] by blast
  then show "PrefixTree_remove h t p c = Some (c \<in> set (PrefixTree_subs h t p), removed h t p c)"
    and "tree_inv h (removed h t p c)"
    and "PrefixTree_subs h (removed h t p c) = (PrefixTree_subs h t)(p := remove1 c (PrefixTree_subs h t p))"
    and "subscriber_count (removed h t p c) =
      subscriber_count t - (if c \<in> set (PrefixTree_subs h t p) then 1 else 0)"
    by (simp_all add: removed_def)
qed

lemma tree_counts [simp]:
  "subscriber_count (PrefixTree_insert h t p c) = Suc (subscriber_count t)" "subscriber_count PrefixTree_new = 0"
  "subscriber_count (PrefixTree_clear t) = 0"
  by (simp_all add: PrefixTree_insert_def PrefixTree_new_def PrefixTree_clear_def)

lemmas tree_facts = tree_inv_new subs_new PrefixTree_insert_correct PrefixTree_clear_correct PrefixTree_match_correct
  PrefixTree_move_simps PrefixTree_move_correct PrefixTree_subscriber_count_def PrefixTree_empty_def

lemma DefaultConstructorInitialState:
  "PrefixTree_empty PrefixTree_new" "PrefixTree_subscriber_count PrefixTree_new = 0"
  "PrefixTree_match h PrefixTree_new ''user.create'' = Some []" "PrefixTree_match h PrefixTree_new '''' = Some []"
  by (simp_all add: tree_facts)

lemma MoveConstructorResourceTheft:
  fixes h :: "char hasher"
  defines "source \<equiv> PrefixTree_insert h (PrefixTree_insert h (PrefixTree_insert h PrefixTree_new
      ''auth.login'' ''client_auth'') ''order.create'' ''client_order'') '''' ''wildcard_client''"
  shows "PrefixTree_subscriber_count source = 3" and "\<not> PrefixTree_empty source"
    and "case PrefixTree_move source of (destination, source) \<Rightarrow>
      PrefixTree_subscriber_count destination = 3 \<and> \<not> PrefixTree_empty destination
      \<and> PrefixTree_match h destination ''auth.login'' = Some [''wildcard_client'', ''client_auth'']
      \<and> PrefixTree_subscriber_count source = 0 \<and> PrefixTree_empty source
      \<and> PrefixTree_match h source ''auth.login'' = Some []
      \<and> PrefixTree_subscriber_count (PrefixTree_insert h source ''auth.login'' ''client_auth'') = 1
      \<and> PrefixTree_match h (PrefixTree_insert h source ''auth.login'' ''client_auth'') ''auth.login'' \<noteq> Some []"
  by (simp_all add: source_def tree_facts case_prod_beta)

lemma MoveAssignmentOperator:
  fixes h :: "char hasher"
  defines "source \<equiv> PrefixTree_insert h PrefixTree_new ''metrics.cpu'' ''monitor_cpu''"
  defines "destination \<equiv> PrefixTree_insert h (PrefixTree_insert h PrefixTree_new ''old.topic'' ''discarded_client'')
      ''another.topic'' ''discarded_client_2''"
  shows "PrefixTree_subscriber_count destination = 2"
    and "case PrefixTree_move_assign destination source of (destination, source) \<Rightarrow>
      PrefixTree_subscriber_count destination = 1 \<and> \<not> PrefixTree_empty destination
      \<and> PrefixTree_match h destination ''old.topic'' = Some []
      \<and> PrefixTree_match h destination ''metrics.cpu'' = Some [''monitor_cpu'']
      \<and> PrefixTree_subscriber_count source = 0 \<and> PrefixTree_empty source
      \<and> PrefixTree_match h source ''metrics.cpu'' = Some []
      \<and> PrefixTree_subscriber_count (PrefixTree_insert h source ''auth.login'' ''client_auth'') = 1"
  by (simp_all add: source_def destination_def tree_facts case_prod_beta)

lemma InsertMultipleSubscribersInSameNode:
  fixes h :: "char hasher"
  defines "tree \<equiv> PrefixTree_insert h (PrefixTree_insert h PrefixTree_new ''user.create'' ''client_0'') ''user.create'' ''client_1''"
  shows "PrefixTree_subscriber_count tree = 2" and "PrefixTree_match h tree ''user.create'' = Some [''client_0'', ''client_1'']"
  by (simp_all add: tree_def tree_facts)

lemma InsertEmptyPrefixWildcard:
  fixes h :: "char hasher"
  defines "tree \<equiv> PrefixTree_insert h PrefixTree_new '''' ''wildcard_client''"
  shows "PrefixTree_subscriber_count tree = 1" and "PrefixTree_match h tree ''any.arbitrary.key'' = Some [''wildcard_client'']"
  by (simp_all add: tree_def tree_facts)

lemma RemoveSubscribersAndPruneDeadNodes:
  fixes h :: "char hasher"
  defines "tree \<equiv> PrefixTree_insert h (PrefixTree_insert h PrefixTree_new ''auth.login.web'' ''client_web'')
      ''auth.login.mobile'' ''client_mobile''"
  defines "t1 \<equiv> removed h tree ''auth.login.web'' ''unknown_client''"
  defines "t2 \<equiv> removed h t1 ''auth.non.existent.path'' ''client_web''"
  defines "t3 \<equiv> removed h t2 ''auth.login.web'' ''client_web''"
  defines "t4 \<equiv> removed h t3 ''auth.login.mobile'' ''client_mobile''"
  shows "PrefixTree_remove h tree ''auth.login.web'' ''unknown_client'' = Some (False, t1)"
    and "PrefixTree_remove h t1 ''auth.non.existent.path'' ''client_web'' = Some (False, t2)"
    and "PrefixTree_subscriber_count t2 = 2"
    and "PrefixTree_remove h t2 ''auth.login.web'' ''client_web'' = Some (True, t3)"
    and "PrefixTree_subscriber_count t3 = 1" and "PrefixTree_match h t3 ''auth.login.web'' = Some []"
    and "PrefixTree_match h t3 ''auth.login.mobile'' = Some [''client_mobile'']"
    and "PrefixTree_remove h t3 ''auth.login.mobile'' ''client_mobile'' = Some (True, t4)"
    and "PrefixTree_empty t4" and "PrefixTree_match h t4 ''auth.login.mobile'' = Some []"
  by (simp_all add: tree_def t1_def t2_def t3_def t4_def tree_facts)

lemma ClearOperation:
  fixes h :: "char hasher"
  defines "tree \<equiv> PrefixTree_clear (PrefixTree_insert h (PrefixTree_insert h (PrefixTree_insert h PrefixTree_new
      ''orders.created'' ''order_service'') ''orders.cancelled'' ''audit_service'') '''' ''global_logger'')"
  shows "PrefixTree_empty tree" and "PrefixTree_match h tree ''orders.created'' = Some []" and "PrefixTree_match h tree '''' = Some []"
    and "PrefixTree_match h (PrefixTree_insert h tree ''fresh.start'' ''new_consumer'') ''fresh.start'' = Some [''new_consumer'']"
  by (simp_all add: tree_def tree_facts)

lemma MultiLevelPrefixAccumulation:
  fixes h :: "char hasher"
  defines "tree \<equiv> PrefixTree_insert h (PrefixTree_insert h (PrefixTree_insert h PrefixTree_new ''order'' ''order_service'')
      ''order.eu'' ''eu_service'') ''order.eu.checkout'' ''checkout_service''"
  shows "PrefixTree_match h tree ''order.eu.checkout'' = Some [''order_service'', ''eu_service'', ''checkout_service'']"
    and "PrefixTree_match h tree ''order.eu.refund'' = Some [''order_service'', ''eu_service'']"
  by (simp_all add: tree_def tree_facts)

lemma NonMatchingKeysDoNotDispatch:
  fixes h :: "char hasher"
  defines "tree \<equiv> PrefixTree_insert h PrefixTree_new ''user'' ''client_user''"
  shows "PrefixTree_match h tree ''admin'' = Some []" and "PrefixTree_match h tree ''use'' = Some []"
    and "PrefixTree_match h tree ''user.login'' = Some [''client_user'']"
  by (simp_all add: tree_def tree_facts)

section \<open>The hash map\<close>

text \<open>The state after a sequence of \<^verbatim>\<open>insert_or_assign\<close>.\<close>

abbreviation assigned :: "'k hasher \<Rightarrow> ('k \<times> 'v) list \<Rightarrow> ('k, 'v) hashmap \<Rightarrow> ('k, 'v) hashmap" where
  "assigned h \<equiv> fold (\<lambda>(k, v) m. snd (HashMap_insert_or_assign h m k v))"

lemma size_new: "HashMap_size (HashMap_new c mlf) = 0"
  by (simp add: HashMap_size_def HashMap_new_def)

lemma empty_size: "HashMap_empty m \<longleftrightarrow> HashMap_size m = 0"
  by (simp add: HashMap_empty_def HashMap_size_def)

lemma replace_spec:
  assumes "hm_inv h m" and "HashMap_find h m k \<noteq> None"
  shows "HashMap_replace h m k v = (True, snd (HashMap_insert_or_assign h m k v))"
  using assms by (auto simp: HashMap_insert_or_assign_def HashMap_replace_def HashMap_find_def Let_def)

lemmas map_facts = insert_correct insert_or_assign_correct erase_correct reserve_correct find_clear hm_inv_clear
  hm.count_assign hm.count_delete size_new

lemma assigned_find:
  "hm_inv h m \<Longrightarrow> HashMap_find h (assigned h es m) = HashMap_find h m ++ map_of (rev es)"
  by (induction es arbitrary: m) (auto simp: insert_or_assign_correct map_add_def fun_eq_iff split: option.split)

lemma InsertOnly:
  fixes h :: "string hasher"
  defines "m \<equiv> snd (HashMap_insert h (snd (HashMap_insert h HashMap_default ''keyA'' (10 :: int))) ''keyB'' 20)"
  shows "fst (HashMap_insert h m ''keyC'' 30)" and "\<not> fst (HashMap_insert h m ''keyA'' 40)"
    and "HashMap_find h (snd (HashMap_insert h m ''keyA'' 40)) ''keyA'' = Some 10"
  by (simp_all add: m_def map_facts)

lemma ReplaceOnly:
  fixes h :: "string hasher"
  defines "m \<equiv> assigned h [(''keyA'', 10 :: int), (''keyB'', 20)] HashMap_default"
  shows "fst (HashMap_replace h m ''keyA'' 30)" and "HashMap_find h (snd (HashMap_replace h m ''keyA'' 30)) ''keyA'' = Some 30"
    and "HashMap_find h (snd (HashMap_replace h m ''keyA'' 30)) ''keyB'' = Some 20"
    and "HashMap_replace h m ''keyC'' 50 = (False, m)"
proof -
  have inv: "hm_inv h m" by (simp add: m_def map_facts)
  have find: "HashMap_find h m = [''keyA'' \<mapsto> 10, ''keyB'' \<mapsto> 20]" by (simp add: m_def map_facts fun_eq_iff)
  show "fst (HashMap_replace h m ''keyA'' 30)" "HashMap_find h (snd (HashMap_replace h m ''keyA'' 30)) ''keyA'' = Some 30"
    "HashMap_find h (snd (HashMap_replace h m ''keyA'' 30)) ''keyB'' = Some 20"
    using replace_spec [OF inv, of "''keyA''" 30] inv by (simp_all add: find map_facts)
  show "HashMap_replace h m ''keyC'' 50 = (False, m)"
    using find by (simp add: HashMap_replace_def HashMap_find_def fun_eq_iff)
qed

lemma UpdateExistingKeys:
  fixes h :: "string hasher"
  defines "m \<equiv> assigned h [(''keyA'', 100 :: int)] HashMap_default"
  shows "HashMap_size m = 1" and "\<not> fst (HashMap_insert_or_assign h m ''keyA'' 999)"
    and "HashMap_size (snd (HashMap_insert_or_assign h m ''keyA'' 999)) = 1"
    and "HashMap_find h (snd (HashMap_insert_or_assign h m ''keyA'' 999)) ''keyA'' = Some 999"
  by (simp_all add: m_def map_facts)

lemma EraseExistingAndNonExistent:
  fixes h :: "string hasher"
  defines "m \<equiv> assigned h [(''k1'', 1 :: int), (''k2'', 2), (''k3'', 3)] HashMap_default"
  defines "m1 \<equiv> snd (HashMap_erase h m ''k2'')"
  defines "m2 \<equiv> snd (HashMap_erase h (snd (HashMap_erase h m1 ''k1'')) ''k3'')"
  shows "HashMap_size m = 3" and "fst (HashMap_erase h m ''k2'')" and "HashMap_size m1 = 2"
    and "HashMap_find h m1 ''k2'' = None" and "\<not> fst (HashMap_erase h m1 ''k2'')"
    and "\<not> fst (HashMap_erase h m1 ''non_existent'')" and "HashMap_empty m2"
  by (simp_all add: m_def m1_def m2_def map_facts empty_size)

text \<open>The colliding hash of the test is one of the hash functions.\<close>

lemma CollisionChaining:
  fixes h :: "string hasher"
  defines "m \<equiv> snd (HashMap_erase h (assigned h [(''col_1'', 100 :: int), (''col_2'', 200), (''col_3'', 300)]
      (HashMap_new 4 f32_three_quarters)) ''col_2'')"
  shows "HashMap_size m = 2" and "HashMap_find h m ''col_2'' = None"
    and "HashMap_find h m ''col_1'' = Some 100" and "HashMap_find h m ''col_3'' = Some 300"
  by (simp_all add: m_def map_facts)

lemma AtThrowsOutOfRangeOnMissingKey:
  fixes h :: "string hasher"
  defines "m \<equiv> assigned h [(''key'', 100 :: int)] HashMap_default"
  shows "HashMap_at h m ''key'' = Inr 100" and "HashMap_at h m ''non_existent'' = Inl Out_of_range"
proof -
  have "HashMap_at h m k = (case HashMap_find h m k of Some v \<Rightarrow> Inr v | None \<Rightarrow> Inl Out_of_range)" for k
    by (simp add: HashMap_at_def HashMap_find_def find_entry_def)
  then show "HashMap_at h m ''key'' = Inr 100" and "HashMap_at h m ''non_existent'' = Inl Out_of_range"
    by (simp_all add: m_def map_facts)
qed


text \<open>
  The growth of the table depends on its counts alone. \<open>grown lf (n, b)\<close> are the entries and the
  buckets after one more new key.
\<close>

definition half :: f32 where
  "half = F32 1 (- 1)"

definition grown :: "f32 \<Rightarrow> nat \<times> nat \<Rightarrow> nat \<times> nat" where
  "grown lf c = (fst c + 1,
     if f32_less lf (f32_div (f32_of_size (fst c + 1)) (f32_of_size (snd c))) then snd c * 2 else snd c)"

definition counts :: "('k, 'v) hashmap \<Rightarrow> nat \<times> nat" where
  "counts m = (HashMap_size m, HashMap_bucket_count m)"

lemma counts_new_key:
  assumes "HashMap_find h m k = None"
  shows "counts (snd (HashMap_insert_or_assign h m k v)) = grown (max_load m) (counts m)"
    and "max_load (snd (HashMap_insert_or_assign h m k v)) = max_load m"
proof -
  have "snd (HashMap_insert_or_assign h m k v) = safe_insert h m k v"
    using assms by (simp add: HashMap_insert_or_assign_def HashMap_replace_def HashMap_find_def)
  then show "counts (snd (HashMap_insert_or_assign h m k v)) = grown (max_load m) (counts m)"
    and "max_load (snd (HashMap_insert_or_assign h m k v)) = max_load m"
    by (simp_all add: counts_def grown_def HashMap_size_def HashMap_bucket_count_def safe_insert_def Let_def
        push_back_entry_def load_exceeded_def)
qed

lemma counts_new_keys:
  assumes "hm_inv h m" and "distinct (map fst es)" and "\<forall>e \<in> set es. HashMap_find h m (fst e) = None"
  shows "counts (assigned h es m) = fold (\<lambda>_. grown (max_load m)) es (counts m)"
  using assms
proof (induction es arbitrary: m)
  case (Cons e es)
  obtain k v where e: "e = (k, v)" by fastforce
  let ?m = "snd (HashMap_insert_or_assign h m k v)"
  have "\<forall>e \<in> set es. HashMap_find h ?m (fst e) = None"
    using Cons.prems by (force simp: e insert_or_assign_correct)
  then have "counts (assigned h es ?m) = fold (\<lambda>_. grown (max_load ?m)) es (counts ?m)"
    using Cons.prems by (intro Cons.IH) (simp_all add: e insert_or_assign_correct)
  with Cons.prems counts_new_key [of h m k v] show ?case by (simp add: e)
qed simp

lemma counts_new: "c > 0 \<Longrightarrow> counts (HashMap_new c lf) = (0, c)"
  by (simp add: counts_def HashMap_size_def HashMap_bucket_count_def HashMap_new_def)

lemmas float_eval = f32_less_def f32_ceil_def f32_div_def f32_of_size_def f32_of_fraction_def ulp_exponent_def
  scaled_num_def scaled_den_def round_half_even_def bit_length.simps Let_def

lemma DynamicRehashingGrowth:
  fixes h :: "int hasher"
  defines "m \<equiv> assigned h (map (\<lambda>i. (int i, int i * 10)) [0..<20]) (HashMap_new 4 half)"
  shows "HashMap_size m = 20" and "HashMap_bucket_count m = 64" and "i < 20 \<Longrightarrow> HashMap_find h m (int i) = Some (int i * 10)"
proof -
  have "max_load (HashMap_new 4 half :: (int, int) hashmap) = half" by (simp add: HashMap_new_def half_def f32_less_def)
  moreover have "fold (\<lambda>_. grown half) [0..<20] (0, 4) = (20, 64)"
    by (simp add: upt_rec grown_def half_def float_eval)
  ultimately have "counts m = (20, 64)"
    unfolding m_def by (subst counts_new_keys) (simp_all add: counts_new distinct_map inj_on_def comp_def fold_map)
  then show "HashMap_size m = 20" and "HashMap_bucket_count m = 64" by (simp_all add: counts_def)
  let ?es = "map (\<lambda>i. (int i, int i * 10)) [0..<20]"
  have dist: "distinct (map fst ?es)" by (simp add: distinct_map inj_on_def comp_def)
  assume "i < 20"
  then have "(int i, int i * 10) \<in> set ?es" by (auto intro: image_eqI [of _ _ i])
  with dist have "map_of (rev ?es) (int i) = Some (int i * 10)" by (simp add: map_of_is_SomeI rev_map [symmetric])
  then show "HashMap_find h m (int i) = Some (int i * 10)" by (simp add: m_def assigned_find)
qed

lemma ReservePreAllocation:
  fixes h :: "int hasher"
  shows "HashMap_bucket_count (HashMap_reserve h (HashMap_new 4 f32_three_quarters) 100) = 134"
proof -
  have "f32_less f32_zero f32_three_quarters" by (simp add: float_eval f32_three_quarters_def)
  moreover have "f32_ceil (f32_div (f32_of_size 100) f32_three_quarters) = 134"
    by (simp add: float_eval f32_three_quarters_def)
  ultimately show ?thesis
    by (simp add: HashMap_reserve_def HashMap_new_def HashMap_bucket_count_def)
qed

lemma MultiBucketHopping:
  fixes h :: "int hasher"
  defines "m \<equiv> assigned h [(1, 100 :: int), (17, 200), (5, 500)] (HashMap_new 16 f32_three_quarters)"
  shows "\<exists>es. HashMap_iterate m = Some es \<and> length es = 3 \<and> fst ` set es = {1, 17, 5}"
proof -
  have inv: "hm_inv h m" by (simp add: m_def map_facts)
  have "HashMap_size m = 3" by (simp add: m_def map_facts)
  moreover have "dom (HashMap_find h m) = {1, 17, 5}" by (auto simp: m_def map_facts split: if_splits)
  ultimately show ?thesis
    using hm.count_entries [OF inv] hm.keys_entries [OF inv] by (simp add: iterate_entries)
qed

lemma EmptyMapIteration:
  fixes m :: "(string, int) hashmap"
  assumes "m = HashMap_default"
  shows "iterator_eq (buckets m) (HashMap_begin m) (HashMap_end m)" and "HashMap_iterate m = Some []"
proof -
  show "HashMap_iterate m = Some []"
    by (simp add: assms iterate_entries HashMap_entries_def HashMap_new_def concat_replicate_trivial)
  then show "iterator_eq (buckets m) (HashMap_begin m) (HashMap_end m)"
    by (simp add: HashMap_iterate_def iterate_until.simps iterator_neq_def bind_eq_Some_conv split: if_splits)
qed

section \<open>The protocol\<close>

lemma LittleEndianWriteRead:
  "write_uint32_le [] 0x12345678 = [0x78, 0x56, 0x34, 0x12]" "read_uint32_le [0x78, 0x56, 0x34, 0x12] = Some 0x12345678"
  by code_simp+

lemma LittleEndianReadWrite:
  "read_uint32_le [0x43, 0x12, 0x21, 0x42, 0x98, 0x12] = Some 0x42211243"
  "write_uint32_le [] 0x42211243 = [0x43, 0x12, 0x21, 0x42]"
  by code_simp+

lemma BoundaryValues:
  defines "buf \<equiv> write_uint32_le (write_uint32_le [] 0) 0xFFFFFFFF"
  shows "length buf = 8" and "read_uint32_le buf = Some 0" and "read_uint32_le (drop 4 buf) = Some 0xFFFFFFFF"
  unfolding buf_def by code_simp+

lemma ShutdownRoundTrip:
  "parse_delivery serialize_shutdown (length serialize_shutdown) = Some (Parsed (SHUTDOWN_OFFSET, '''', ''''))"
  "is_shutdown SHUTDOWN_OFFSET"
  using parse_delivery_complete [of SHUTDOWN_OFFSET "''''" "''''" "[]"]
  by (simp_all add: serialize_shutdown_def delivery_ok_def is_shutdown_def SHUTDOWN_OFFSET_def)

end
