(* ===== verification/Spec2Isabelle.thy ===== *)
theory Spec2Isabelle
  imports Pipeline Main_Loop Unit_Tests
begin

text \<open>
  A model of \<^verbatim>\<open>treenity\<close>, a message broker over named pipes: a server with topics, and a client
  program that manages, publishes and subscribes. All file names are relative to the directory
  \<^verbatim>\<open>src/\<close> of the repository (\<^verbatim>\<open>protocol/Protocol.cpp\<close> is \<^verbatim>\<open>src/protocol/Protocol.cpp\<close>).

  \<^bold>\<open>The program.\<close> Clients write request frames to the server's FIFO. The main thread of the server
  reassembles the frames, handles each, and answers on the FIFO of the client. A topic is a log of
  messages with a worker thread of its own, which wakes when a subscriber is behind the log and
  writes the messages that match the subscriber's prefix to the subscriber's FIFO. A subscriber
  acknowledges each delivery with the offset to go on from.

  \<^bold>\<open>Theories and sources.\<close>
  \<^item> \<open>Prelude\<close>: bytes, strings and words. \<open>Interfaces\<close>: the locales \<open>map_adt\<close> (what users of the hash
    map rely on), \<open>prefix_index\<close> (what the topic relies on in the trie) and \<open>turn_loop\<close> (loops whose
    turns return or go on).
  \<^item> \<open>Protocol\<close>, \<open>Protocol_Codec\<close>: \<^verbatim>\<open>protocol/Protocol.hpp\<close> and \<^verbatim>\<open>Protocol.cpp\<close>, one definition per
    serializer and parser. The locale \<open>codec\<close> is the contract of a request, interpreted for all
    eight: a parser accepts exactly what the serializer produces, and reads nothing else.
  \<^item> \<open>Float32\<close>, \<open>Hash_Map\<close>: \<^verbatim>\<open>data_structures/HashMap.hpp\<close>. Buckets are lists of lists, the hash function
    is a parameter, and the load factor is computed with rounded 32-bit floats. The map interprets
    \<open>map_adt\<close>.
  \<^item> \<open>Prefix_Tree\<close>: \<^verbatim>\<open>data_structures/PrefixTree.hpp\<close> and \<^verbatim>\<open>PrefixTree.cpp\<close>; a \<^verbatim>\<open>unique_ptr\<close> is an option,
    and following a null pointer has no result. The trie interprets \<open>prefix_index\<close>.
  \<^item> \<open>Unit_Tests\<close>: what the repository's tests expect of the trie, the map and the protocol, replayed on
    the model for every hash function.
  \<^item> \<open>Posix\<close>, \<open>Fifo\<close>: system calls and \<^verbatim>\<open>ipc/ipc.hpp\<close>, \<^verbatim>\<open>ipc.cpp\<close>.
  \<^item> \<open>Topic\<close>: \<^verbatim>\<open>server/inc/Topic.hpp\<close>, \<^verbatim>\<open>Message.hpp\<close> and \<^verbatim>\<open>server/src/Topic.cpp\<close>; \<open>Topic_run_iteration\<close> is one
    turn of the worker's loop.
  \<^item> \<open>Framing\<close>, \<open>Server\<close>: \<^verbatim>\<open>server/inc/Server.hpp\<close>, \<^verbatim>\<open>server/src/Server.cpp\<close> and \<^verbatim>\<open>main.cpp\<close>. The reassembly
    of frames is separate from the handlers; the locale \<open>frame_handler\<close> is what it relies on.
  \<^item> \<open>Server_Correct\<close>, \<open>Broker\<close>: the invariant of the server, the effect of each handler, and the
    specification of a request: \<open>broker_step\<close> on logs, clients and producers, \<open>broker_reply\<close> for the answer.
  \<^item> \<open>Stopping\<close>: \<^verbatim>\<open>stop\<close> of \<^verbatim>\<open>Server.cpp\<close> and \<^verbatim>\<open>shutdown\<close> of \<^verbatim>\<open>Topic.cpp\<close> as critical sections and joins.
  \<^item> \<open>Sections\<close>: the handlers of \<^verbatim>\<open>Server.cpp\<close> as sequences of critical sections (\<open>run_task\<close>).
  \<^item> \<open>Threads\<close>: the main thread, the workers, the mutexes, the condition variables, blocking calls and
    the signals as a system of threads (\<open>thread_step\<close>).
  \<^item> \<open>Main_Loop\<close>: \<^verbatim>\<open>run\<close> and the destructor of \<^verbatim>\<open>Server.cpp\<close> around that system: reads, the buffer, frames,
    the end of the process (\<open>machine_step\<close>).
  \<^item> \<open>Client_Command\<close>, \<open>Client\<close>, \<open>Client_Correct\<close>: the files of \<^verbatim>\<open>client/\<close>, one definition per function;
    the body of a loop is a definition of its own.
  \<^item> \<open>Session\<close>, \<open>Pipeline\<close>: client and server together, first one invocation of the client at a time,
    then a subscription, the publications after it, the worker's turn and the acknowledgements.

  \<^bold>\<open>Conventions.\<close> \<^verbatim>\<open>uint32_t\<close> is a 32-bit word and wraps; \<^verbatim>\<open>size_t\<close> is a natural number, since it only
  counts elements in memory. A result \<open>None\<close> is undefined behaviour, or a computation that does not
  return because it waits or loops for ever; so every theorem that states \<open>= Some\<close> includes that the
  code is defined and returns. There is no fuel: loops end by a measure, or are partial functions
  whose return is proved. A \<^verbatim>\<open>bool\<close> with output parameters is a \<open>parse_result\<close>, and errors are values of
  a sum or an option. A system call appends an event to a log; what it answers, and whether a call that may
  block comes back (\<open>os_returns\<close>), is the parameter \<open>os\<close>, a record of functions of the whole log. A handler as
  a function says what it does if its calls come back; in the system of threads a critical section is
  left only when they have (\<open>comes_back\<close>). Hypotheses about \<open>os\<close> (\<open>writes_progress\<close>, \<open>os_ready\<close>,
  \<open>server_reaches\<close>, \<open>clients_read\<close>, \<open>clock_runs\<close> and the like) state documented behaviour of the calls on FIFOs that
  exist and are read. What arrives at a client is a script of events, including interruptions,
  time-outs and signals.

  \<^bold>\<open>What the theorems show.\<close> The trie, the hash map and the codecs meet their specifications on every
  branch. No payload makes a handler leave its buffer or break the tables; a stream of requests has
  the effect of \<open>broker_step\<close> and the answers of \<open>broker_reply\<close> for each request, however the reads
  cut it (\<open>server_processes_stream\<close>). Every interleaving of the threads is a run of the abstract broker
  (\<open>threads_refine_broker\<close>); in every state they reach the tables are consistent between requests and
  no topic is in two hands, logs only grow, and a stop that is over has joined every worker
  (\<open>stop_joins_workers\<close>). No wake-up of a worker is lost (\<open>no_lost_wakeup\<close>). What was begun can be finished, in a
  bounded number of steps (\<open>requests_complete\<close>), if no signal caught the main thread holding a mutex, every
  client reads its answers, no topic has \<open>2 ^ 32\<close> messages, and the server's FIFO was opened. The sections in a row are the handlers and the stop
  (\<open>sections_are_handlers\<close>, \<open>sections_are_stop\<close>). From the bytes on: the requests performed are the first
  of those sent (\<open>bytes_refine_broker\<close>); under the same four conditions all that arrived completely are performed
  (\<open>bytes_get_handled\<close>), and a server that was told to stop can come to the end of its process with every
  worker joined (\<open>stopped_server_exits\<close>). A worker's turn ends and sends exactly the matching messages. The end-to-end
  theorems follow an invocation of the client through both programs: what \<^verbatim>\<open>create\<close>, \<^verbatim>\<open>list\<close>, \<^verbatim>\<open>info\<close>
  print and do, that what is given to \<^verbatim>\<open>produce\<close> is what is logged, and that what is published is what a
  subscriber prints, acknowledges and resumes after (\<open>published_is_printed\<close>). Five theorems show
  defects: a header with one of the five largest lengths leaves the buffer, a server whose FIFO cannot be
  made closes an unassigned descriptor, with \<open>2 ^ 32\<close> messages a worker never ends, a signal inside
  a critical section deadlocks the server (\<open>signal_deadlock\<close>), and a client that does not open its FIFO stalls
  it (\<open>client_stalls_server\<close>).

  \<^bold>\<open>Bounds.\<close> The load test of the hash map, computed in \<^verbatim>\<open>float\<close>, is shown to be exact and to keep the table at
  most three quarters full below \<open>2 ^ 21\<close> entries and up to \<open>2 ^ 22\<close> buckets. The worker's turn needs fewer than \<open>2 ^ 32\<close> messages. A request fits if its frame
  is shorter than \<open>2 ^ 32\<close> bytes; names are at most 32 characters, and a key with its value at most
  1024, so this only concerns prefixes and the payloads of answers.

  \<^bold>\<open>Not modelled.\<close> A critical section takes effect in one step, when it is left, as the mutexes make
  it; a signal that meets the main thread inside a section finds the state from before it. Signals reach the
  main thread only, and a call that a signal interrupts is restarted, as \<^verbatim>\<open>std::signal\<close> sets it up. The FIFO itself is not a queue of bytes: a run is given what
  each \<^verbatim>\<open>read\<close> returns. Allocation does not fail. Console output of the server, the call of \<^verbatim>\<open>std::signal\<close>, which cannot be
  tested, the defaulted copies of the hash map, and the vendored GoogleTest are left out.
\<close>

section \<open>A sample server\<close>

text \<open>The server on the sample platform of \<open>Topic\<close>, started, with one topic.\<close>

definition sample_server :: server where
  "sample_server = snd (create_topic sample_hashes (fst (Server_new sample_os ''/s'' [])) ''t'')"

lemma valid_t [simp]: "is_valid_identifier ''t''" "is_valid_identifier ''c''"
  by (simp_all add: is_valid_identifier_def is_alnum_def)

lemma sample_server:
  "server_inv sample_hashes sample_server" "alive sample_hashes sample_server" "running sample_server"
  "fifo_fd sample_server = Some 5"
  "get_topic sample_hashes sample_server = [''t'' \<mapsto> Topic_new ''t'']"
  "client_of sample_hashes sample_server = Map.empty"
  "logs sample_hashes sample_server = [''t'' \<mapsto> []]"
proof -
  let ?s = "fst (Server_new sample_os ''/s'' [])"
  note new = Server_new_correct(1,2,4) [of sample_hashes sample_os "''/s''" "[]"]
    Server_new_correct(3) [of sample_os "''/s''" "[]"]
  have empty: "get_topic sample_hashes ?s = Map.empty" "client_of sample_hashes ?s = Map.empty"
    "fifo_fd ?s = Some 5"
    by (simp_all add: Server_new_def Let_def get_topic_def client_of_def fun_eq_iff sys_mkfifo_def
        sys_open_rdwr_def sample_os_def)
  note created = create_topic_correct [OF new(1) valid_t(1), folded sample_server_def]
  show "server_inv sample_hashes sample_server" "get_topic sample_hashes sample_server = [''t'' \<mapsto> Topic_new ''t'']"
    "client_of sample_hashes sample_server = Map.empty"
    using created empty by simp_all
  then show "logs sample_hashes sample_server = [''t'' \<mapsto> []]" by (simp add: logs_def fun_eq_iff)
  show "alive sample_hashes sample_server" "running sample_server" "fifo_fd sample_server = Some 5"
    using created(6) new empty by (auto simp: steady_def)
qed

lemma sample_publish: "request_fits (Req_publish ''t'' ''k'' ''v'')"
  by (simp add: request_fits_def produce_ok_def MAX_PAYLOAD_SIZE_def serialize_produce_eq)

section \<open>Client and server together\<close>

lemma client_system: "os_ready sample_os" "server_reaches sample_os"
  by (simp_all add: os_ready_def server_reaches_def writes_progress_def writes_succeed_def sample_os_def)

lemma valid_names [simp]: "is_valid_name ''t''" "is_valid_name ''c''" "is_valid_name ''u''"
  by (simp_all add: is_valid_name_def is_alnum_def)

section \<open>Properties\<close>

text \<open>
  C1: From the client's serializers to the state of the server: whatever requests arrive on the FIFO,
  and however the reads cut the stream, the server's loop ends each time waiting for more, with
  exactly the bytes of the last, incomplete request in its buffer, and its logs, clients and producers
  are those that the specification \<open>broker_step\<close> computes from the requests, each handled once and in
  order, and it has sent exactly the replies that \<open>broker_reply\<close> specifies, in order, each to the FIFO
  of its client; the only freedom is whether the FIFO of an active client still has a reader, and the
  order of the names in a list of topics. The logs do not depend on that.
\<close>

theorem server_processes_stream:
  assumes "server_inv H srv" and "\<forall>r \<in> set rs. request_fits r"
    and "concat chunks = concat (map request_bytes rs) @ tail" and "incomplete tail"
  shows "\<exists>srv' io' busy. receive_all (handle_request H os) chunks ((srv, io), []) = Some ((srv', io'), tail)
    \<and> server_inv H srv' \<and> length busy = length rs \<and> view H srv' = broker_run busy rs (view H srv)
    \<and> replied_all os busy rs (view H srv) io io'
    \<and> logs H srv' = fold log_step rs (logs H srv)"
proof -
  have "server_inv H (fst (srv, io))" using assms(1) by simp
  from receive_requests [OF this assms(2-4), of os] show ?thesis by auto
qed

theorem server_processes_stream_witness:
  "\<exists>srv' io'. receive_all (handle_request sample_hashes sample_os)
       [take 3 (serialize_produce ''t'' ''k'' ''v''), drop 3 (serialize_produce ''t'' ''k'' ''v'') @ [1]]
       ((sample_server, []), []) = Some ((srv', io'), [1])
     \<and> logs sample_hashes srv' ''t'' = Some [(''k'', ''v'')]"
  using server_processes_stream [OF sample_server(1), of "[Req_publish ''t'' ''k'' ''v'']"
      "[take 3 (serialize_produce ''t'' ''k'' ''v''), drop 3 (serialize_produce ''t'' ''k'' ''v'') @ [1]]"
      "[1]" sample_os "[]"] sample_publish
  by (auto simp: incomplete_def sample_server(7))

text \<open>
  C2: No request can break the server: for every action byte and every payload that is really in the
  buffer, the handler ends, if the calls to the client's FIFO come back, without undefined behaviour and keeps the tables of topics, clients and
  producers sound and consistent with each other.
\<close>

theorem handlers_safe:
  assumes "server_inv H srv" and "len \<le> length payload"
  shows "\<exists>srv' io'. handle_request H os (srv, io) act payload len = Some (srv', io') \<and> server_inv H srv'"
  using handle_request_keeps [of H "(srv, io)" len payload os act] assms by auto

theorem handlers_safe_witness:
  "handle_request sample_hashes sample_os (sample_server, []) 6 [255, 255, 255, 255, 255] 5 \<noteq> None"
  using handlers_safe [OF sample_server(1), of 5 "[255, 255, 255, 255, 255]" sample_os "[]" 6] by auto

text \<open>
  In every state that the main thread and the workers can reach together, by requests, turns of
  the workers and shutdowns in any order, the tables are sound and consistent, and while the server
  runs no topic is stopped and every worker is in its loop.
\<close>

theorem reachable_states_sound:
  assumes "server_reachable H os path s"
  shows "server_inv H (fst s) \<and> (running (fst s) \<longrightarrow> alive H (fst s))"
  using reachable_inv [OF assms] by (simp add: system_inv_def)

theorem reachable_states_sound_witness:
  "server_inv sample_hashes (fst (Server_new sample_os ''/s'' []))"
  using reachable_states_sound [OF server_reachable.start, of sample_hashes sample_os "''/s''"] by simp

text \<open>
  Messages are never lost, changed or reordered: whatever steps follow, the log of a topic is
  only extended, and no topic disappears.
\<close>

theorem logs_only_grow:
  assumes "server_reachable H os path s" and "(server_step H os)\<^sup>*\<^sup>* s s'" and "logs H (fst s) name = Some l"
  shows "\<exists>new. logs H (fst s') name = Some (l @ new)"
  using logs_extended [OF assms(1,2)] assms(3) by (auto simp: extends_def)

theorem logs_only_grow_witness:
  "\<exists>s s' new. server_reachable sample_hashes sample_os ''/s'' s \<and> (server_step sample_hashes sample_os)\<^sup>*\<^sup>* s s'
     \<and> logs sample_hashes (fst s) ''t'' = Some [] \<and> logs sample_hashes (fst s') ''t'' = Some ([] @ new)"
proof -
  let ?s0 = "Server_new sample_os ''/s'' []"
  have "request_wf (Req_create 1 ''t'')" by (simp add: named_ok_def)
  then obtain f where "carries (Req_create 1 ''t'') f" using request_carried by blast
  then have "answers sample_hashes sample_os ?s0 (handle_request sample_hashes sample_os ?s0 (fst f) (snd f) (length (snd f)))
      (Req_create 1 ''t'')"
    using Server_new_correct(1) by (simp del: split_paired_All add: carries_def)
  then obtain s1 where "handle_request sample_hashes sample_os ?s0 (fst f) (snd f) (length (snd f)) = Some s1"
    and logs: "logs sample_hashes (fst s1) ''t'' = Some []"
    by (auto elim!: answersE simp: Server_new_correct(2))
  then have "server_reachable sample_hashes sample_os ''/s'' s1"
    by (blast intro: server_reachable.intros server_step.request)
  from logs_only_grow [OF this rtranclp.rtrancl_refl logs] this logs show ?thesis by blast
qed

text \<open>
  C14: Publishing, from the standard input of a producer to the log of its topic. The invocation
  \<^verbatim>\<open>produce\<close>, in text or raw format, announces itself, is answered \<^verbatim>\<open>SUCCESS\<close> by a server that knows the
  topic, consumes its whole input and writes it to the server's FIFO; and however the server's reads
  cut these bytes, the log of the topic is extended by exactly these messages, in order, and no other
  log changes.
\<close>

theorem producer_end_to_end:
  assumes "os_ready os" and "server_reaches server_os" and "server_inv H srv" and "logs H srv topic = Some l"
    and "ipc \<noteq> ''''" and "is_valid_name topic" and "\<forall>m \<in> set msgs. message_ok raw m"
  shows "\<exists>srv1. server_answers H server_os srv pid (serialize_connect pid topic) srv1 (serialize_response SUCCESS '''')
    \<and> (\<forall>s later. arriving s (serialize_response SUCCESS '''') later \<and> cl_stdin s = input_of raw msgs \<and> \<not> cl_stdin_fails s \<longrightarrow>
        (\<exists>s' new. client_main os pid ([prog, ipc, ''produce'', topic] @ (if raw then [''--raw''] else [])) s = Some (0, s')
          \<and> cl_io s' = cl_io s @ new \<and> cl_stdin s' = []
          \<and> (\<forall>F. sent_to ipc F new = serialize_connect pid topic @ frames_of topic msgs)))
    \<and> (\<forall>io chunks. concat chunks = frames_of topic msgs \<longrightarrow>
        (\<exists>srv' io'. receive_all (handle_request H server_os) chunks ((srv1, io), []) = Some ((srv', io'), [])
          \<and> server_inv H srv' \<and> logs H srv' = (logs H srv)(topic \<mapsto> l @ msgs)))"
proof -
  have "get_topic H srv topic \<noteq> None" using assms(4) by (auto simp: logs_def)
  with connect_answered [OF assms(2,3,6), of pid] obtain srv1
    where answer: "server_answers H server_os srv pid (serialize_connect pid topic) srv1 (serialize_response SUCCESS '''')"
      and inv1: "server_inv H srv1" and same: "get_topic H srv1 = get_topic H srv" by auto
  have log1: "logs H srv1 = logs H srv" using logs_same [OF same] .
  have raw: "\<forall>m \<in> set msgs. raw_ok m" using assms(7) message_ok_raw by blast
  have client: "\<exists>s' new. client_main os pid ([prog, ipc, ''produce'', topic] @ (if raw then [''--raw''] else [])) s = Some (0, s')
      \<and> cl_io s' = cl_io s @ new \<and> cl_stdin s' = []
      \<and> (\<forall>F. sent_to ipc F new = serialize_connect pid topic @ frames_of topic msgs)"
    if "arriving s (serialize_response SUCCESS '''') later" "cl_stdin s = input_of raw msgs" "\<not> cl_stdin_fails s" for s later
    using producer_program [OF assms(1,5,6,7) _ that(2,3), of "[]" later pid prog] that(1) by auto
  have "\<exists>srv' io'. receive_all (handle_request H server_os) chunks ((srv1, io), []) = Some ((srv', io'), [])
      \<and> server_inv H srv' \<and> logs H srv' = (logs H srv)(topic \<mapsto> l @ msgs)"
    if "concat chunks = frames_of topic msgs" for io chunks
    using publications_received [OF inv1 _ assms(6) raw that, of l server_os io] assms(4) by (simp add: log1)
  with answer client show ?thesis by blast
qed

theorem producer_end_to_end_witness:
  "\<exists>srv1. (\<exists>s'. client_main sample_os 9 [''client'', ''/s'', ''produce'', ''t'']
        (sample_client [Data (serialize_response SUCCESS '''')] (''a:x:'' @ [newline] @ '':y'' @ [newline])) = Some (0, s')
      \<and> sent_to ''/s'' {} (cl_io s') = serialize_connect 9 ''t'' @ frames_of ''t'' [(''a'', ''x:''), ('''', ''y'')])
    \<and> (\<exists>srv' io'. receive_all (handle_request sample_hashes sample_os) [frames_of ''t'' [(''a'', ''x:''), ('''', ''y'')]]
          ((srv1, []), []) = Some ((srv', io'), []) \<and> logs sample_hashes srv' ''t'' = Some [(''a'', ''x:''), ('''', ''y'')])"
proof -
  let ?msgs = "[(''a'', ''x:''), ('''', ''y'')]"
  let ?s = "sample_client [Data (serialize_response SUCCESS '''')] (''a:x:'' @ [newline] @ '':y'' @ [newline])"
  have ok: "\<forall>m \<in> set ?msgs. message_ok False m"
    by (simp add: message_ok_def text_ok_def MAX_PAYLOAD_SIZE_def)
  have log: "logs sample_hashes sample_server ''t'' = Some []" by (simp add: sample_server(7))
  have ipc: "''/s'' \<noteq> ''''" by simp
  from producer_end_to_end [OF client_system sample_server(1) log ipc valid_names(1) ok, of 9 "''client''"]
  obtain srv1 where client: "\<And>s later. arriving s (serialize_response SUCCESS '''') later \<Longrightarrow> cl_stdin s = input_of False ?msgs
      \<Longrightarrow> \<not> cl_stdin_fails s \<Longrightarrow> \<exists>s' new. client_main sample_os 9 [''client'', ''/s'', ''produce'', ''t''] s = Some (0, s')
        \<and> cl_io s' = cl_io s @ new \<and> (\<forall>F. sent_to ''/s'' F new = serialize_connect 9 ''t'' @ frames_of ''t'' ?msgs)"
    and server: "\<And>chunks. concat chunks = frames_of ''t'' ?msgs \<Longrightarrow>
      \<exists>srv' io'. receive_all (handle_request sample_hashes sample_os) chunks ((srv1, []), []) = Some ((srv', io'), [])
        \<and> logs sample_hashes srv' = (logs sample_hashes sample_server)(''t'' \<mapsto> [] @ ?msgs)"
    by (simp only: if_False append_Nil2) metis
  have "arriving ?s (serialize_response SUCCESS '''') []" "cl_stdin ?s = input_of False ?msgs" "\<not> cl_stdin_fails ?s"
    by (auto simp: arriving_def sample_client input_of_def format_text_message_def serialize_response_eq
        intro!: exI [of _ "[Data (serialize_response SUCCESS '''')]"])
  from client [OF this] have "\<exists>s'. client_main sample_os 9 [''client'', ''/s'', ''produce'', ''t''] ?s = Some (0, s')
      \<and> sent_to ''/s'' {} (cl_io s') = serialize_connect 9 ''t'' @ frames_of ''t'' ?msgs"
    by (force simp: sample_client_def)
  moreover from server [of "[frames_of ''t'' ?msgs]"]
  have "\<exists>srv' io'. receive_all (handle_request sample_hashes sample_os) [frames_of ''t'' ?msgs] ((srv1, []), []) = Some ((srv', io'), [])
      \<and> logs sample_hashes srv' ''t'' = Some ?msgs" by (auto simp del: receive_all.simps)
  ultimately show ?thesis by blast
qed

text \<open>
  C15: The whole way of a message. A client that is not connected subscribes to a topic with any prefix
  and start offset, messages are published, the worker takes its turn and the topic is shut down:
  then the subscriber's FIFO has received the server's answer, the deliveries of exactly the messages
  from its start offset on whose key extends its prefix, in the order of the log, and the sentinel;
  the subscriber, reading these bytes in whatever pieces, prints each of these messages once, in
  order, acknowledges each, and exits with 0; and the acknowledgements, however the server's reads cut
  them, leave the offset after the last printed message as the one to resume at.
\<close>

theorem published_is_printed:
  assumes "os_ready os" and "server_opens server_os" and "server_inv H srv" and "get_topic H srv topic = Some t"
    and "\<not> topic_stop t" and "descriptors_fresh H server_os t"
    and "ipc \<noteq> ''''" and "is_valid_name topic" and "is_valid_name c" and "away H srv c topic"
    and "length (serialize_subscribe pid c topic p (requested offset)) < 2 ^ 32"
    and "\<forall>m \<in> set (topic_log t @ msgs). raw_ok m" and "length (topic_log t @ msgs) < 2 ^ 32 - 1"
  defines "start \<equiv> subscribe_offset (client_of H srv c) (requested offset)"
  defines "ds \<equiv> due (topic_log t @ msgs) start p"
  shows "\<exists>srv1 srv2 t2 t3 t4 n1 n2 n3.
    (\<forall>chunks. concat chunks = serialize_subscribe pid c topic p (requested offset) \<longrightarrow>
        receive_all (handle_request H server_os) chunks ((srv, io), []) = Some ((srv1, io @ n1), []))
    \<and> (\<forall>chunks. concat chunks = frames_of topic msgs \<longrightarrow>
        receive_all (handle_request H server_os) chunks ((srv1, io @ n1), []) = Some ((srv2, io @ n1), []))
    \<and> get_topic H srv2 topic = Some t2
    \<and> Topic_run_iteration H server_os t2 (io @ n1) = Some (t3, io @ n1 @ n2)
    \<and> Topic_shutdown server_os t3 (io @ n1 @ n2) = Some (t4, io @ n1 @ n2 @ n3)
    \<and> sent_to (client_fifo_path pid) {} (n1 @ n2 @ n3) = serialize_response SUCCESS '''' @ deliveries_of ds @ serialize_shutdown
    \<and> (\<forall>s later. arriving s (sent_to (client_fifo_path pid) {} (n1 @ n2 @ n3)) later \<and> cl_out_good s \<and> \<not> cl_shutdown s \<longrightarrow>
        (\<exists>s' new. client_main os pid ([prog, ipc, ''subscribe'', topic, c] @ render_options p offset raw) s = Some (0, s')
          \<and> cl_io s' = cl_io s @ new \<and> cl_out s' = cl_out s @ concat (map (printed raw) ds)
          \<and> (\<forall>F. sent_to ipc F new = serialize_subscribe pid c topic p (requested offset) @ acks_of c ds)))
    \<and> (\<forall>chunks io. concat chunks = acks_of c ds \<longrightarrow>
        (\<exists>srv' io'. receive_all (handle_request H server_os) chunks ((srv2, io), []) = Some ((srv', io'), [])
          \<and> map_option meta_offset (client_of H srv' c) = Some (resume_at start ds)))"
  unfolding start_def ds_def by (rule pipeline [OF assms(1-13)])

theorem published_is_printed_witness:
  "\<exists>srv1 srv2 srv' n1 io'.
     receive_all (handle_request sample_hashes sample_os) [serialize_subscribe 9 ''c'' ''t'' ''k'' OFFSET_UNSET]
       ((sample_server, []), []) = Some ((srv1, n1), [])
     \<and> receive_all (handle_request sample_hashes sample_os) [frames_of ''t'' [(''k1'', ''v''), (''x'', ''y'')]]
       ((srv1, n1), []) = Some ((srv2, n1), [])
     \<and> receive_all (handle_request sample_hashes sample_os) [serialize_ack ''c'' 1] ((srv2, []), []) = Some ((srv', io'), [])
     \<and> map_option meta_offset (client_of sample_hashes srv' ''c'') = Some 1
     \<and> (\<exists>s'. client_main sample_os 9 [''client'', ''/s'', ''subscribe'', ''t'', ''c'', ''--prefix'', ''k'']
          (sample_client [Data (serialize_response SUCCESS '''' @ serialize_delivery 0 ''k1'' ''v'' @ serialize_shutdown)] '''')
          = Some (0, s') \<and> cl_out s' = ''k1:v'' @ [newline])"
proof -
  let ?msgs = "[(''k1'', ''v''), (''x'', ''y'')]" and ?d = "(0, ''k1'', ''v'') :: u32 \<times> string \<times> string"
  let ?all = "serialize_response SUCCESS '''' @ serialize_delivery 0 ''k1'' ''v'' @ serialize_shutdown"
  have opens: "server_opens sample_os" by (simp add: server_opens_def client_system(2)) (simp add: sample_os_def)
  have t: "get_topic sample_hashes sample_server ''t'' = Some (Topic_new ''t'')" by (simp add: sample_server(5))
  have going: "\<not> topic_stop (Topic_new ''t'')" and fresh: "descriptors_fresh sample_hashes sample_os (Topic_new ''t'')"
    by (simp_all add: descriptors_fresh_def)
  have gone: "away sample_hashes sample_server ''c'' ''t''" by (simp add: away_def sample_server(6))
  have fits: "length (serialize_subscribe 9 ''c'' ''t'' ''k'' (requested None)) < 2 ^ 32" by (simp add: serialize_subscribe_eq)
  have msgs: "\<forall>m \<in> set (topic_log (Topic_new ''t'') @ ?msgs). raw_ok m" "length (topic_log (Topic_new ''t'') @ ?msgs) < 2 ^ 32 - 1"
    by (simp_all add: raw_ok_def MAX_PAYLOAD_SIZE_def)
  have start: "subscribe_offset (client_of sample_hashes sample_server ''c'') OFFSET_UNSET = 0"
    by (simp add: subscribe_offset_def sample_server(6))
  have ds: "due (topic_log (Topic_new ''t'') @ ?msgs) 0 ''k'' = [?d]"
    by (simp add: due_def numbered_def)
  have ipc: "''/s'' \<noteq> ''''" by simp
  note all = published_is_printed [OF client_system(1) opens sample_server(1) t going fresh ipc valid_names(1,2) gone fits msgs,
      of "[]" "''client''" False, unfolded option.case start ds append_Nil]
  from all obtain srv1 srv2 t2 t3 t4 n1 n2 n3
    where sub: "\<forall>chunks. concat chunks = serialize_subscribe 9 ''c'' ''t'' ''k'' OFFSET_UNSET \<longrightarrow>
        receive_all (handle_request sample_hashes sample_os) chunks ((sample_server, []), []) = Some ((srv1, n1), [])"
      and pub: "\<forall>chunks. concat chunks = frames_of ''t'' ?msgs \<longrightarrow>
        receive_all (handle_request sample_hashes sample_os) chunks ((srv1, n1), []) = Some ((srv2, n1), [])"
      and "get_topic sample_hashes srv2 ''t'' = Some t2"
      and "Topic_run_iteration sample_hashes sample_os t2 n1 = Some (t3, n1 @ n2)"
      and "Topic_shutdown sample_os t3 (n1 @ n2) = Some (t4, n1 @ n2 @ n3)"
      and stream: "sent_to (client_fifo_path 9) {} (n1 @ n2 @ n3) = serialize_response SUCCESS '''' @ deliveries_of [?d] @ serialize_shutdown"
      and prints: "\<forall>s later. arriving s (sent_to (client_fifo_path 9) {} (n1 @ n2 @ n3)) later \<and> cl_out_good s \<and> \<not> cl_shutdown s \<longrightarrow>
        (\<exists>s' new. client_main sample_os 9 ([''client'', ''/s'', ''subscribe'', ''t'', ''c''] @ render_options ''k'' None False) s = Some (0, s')
          \<and> cl_io s' = cl_io s @ new \<and> cl_out s' = cl_out s @ concat (map (printed False) [?d])
          \<and> (\<forall>F. sent_to ''/s'' F new = serialize_subscribe 9 ''c'' ''t'' ''k'' OFFSET_UNSET @ acks_of ''c'' [?d]))"
      and acks: "\<forall>chunks io. concat chunks = acks_of ''c'' [?d] \<longrightarrow>
        (\<exists>srv' io'. receive_all (handle_request sample_hashes sample_os) chunks ((srv2, io), []) = Some ((srv', io'), [])
          \<and> map_option meta_offset (client_of sample_hashes srv' ''c'') = Some (resume_at 0 [?d]))"
    by (elim exE conjE) (rule that, (assumption)+)
  have "arriving (sample_client [Data ?all] '''') (sent_to (client_fifo_path 9) {} (n1 @ n2 @ n3)) []"
    unfolding stream
    by (auto simp: arriving_def sample_client serialize_response_eq intro!: exI [of _ "[Data ?all]"])
  then have "\<exists>s'. client_main sample_os 9 [''client'', ''/s'', ''subscribe'', ''t'', ''c'', ''--prefix'', ''k'']
      (sample_client [Data ?all] '''') = Some (0, s') \<and> cl_out s' = ''k1:v'' @ [newline]"
    using prints [rule_format, of "sample_client [Data ?all] ''''" "[]"]
    by (auto simp: sample_client render_options_def printed_def format_text_message_def)
  moreover obtain srv' io' where "receive_all (handle_request sample_hashes sample_os) [serialize_ack ''c'' 1] ((srv2, []), []) = Some ((srv', io'), [])"
      "map_option meta_offset (client_of sample_hashes srv' ''c'') = Some 1"
    using acks [rule_format, of "[serialize_ack ''c'' 1]" "[]"] by (auto simp: resume_at_def simp del: receive_all.simps)
  moreover note sub [rule_format, of "[serialize_subscribe 9 ''c'' ''t'' ''k'' OFFSET_UNSET]"]
    pub [rule_format, of "[frames_of ''t'' ?msgs]"]
  ultimately show ?thesis by (auto simp del: receive_all.simps)
qed

text \<open>
  From the log of a topic to the standard output of a subscriber: a worker that delivers the
  pending messages, followed by the sentinel of a shutdown, makes the subscriber print exactly the
  messages from its offset on whose key extends its prefix, once each and in order, and acknowledge
  each of them.
\<close>

theorem subscriber_prints_matching:
  assumes "topic_inv H t" and "find_sub H t c = Some sub" and "length (topic_messages t) < 2 ^ 32 - 1"
    and "writes_succeed server_os" and "sub_fifo_fd sub \<noteq> - 1"
    and "\<forall>m \<in> set (topic_messages t). raw_ok (msg_key m, msg_value m)"
    and "writes_progress os" and "FifoWriter_is_open w" and "FifoReader_is_open reader"
    and "cl_out_good s" and "\<not> cl_shutdown s"
  shows "\<exists>sub' new. deliver_pending H server_os (topic_messages t) (topic_tree t) sub io = Some (sub', io @ new)
    \<and> written (sub_fifo_fd sub) new = deliveries_of (map delivery_of (matching t sub))
    \<and> (arriving s (written (sub_fifo_fd sub) new @ serialize_shutdown) later \<longrightarrow>
        (\<exists>s'. subscriber_loop os cmd reader w s = Some (0, s')
          \<and> cl_out s' = cl_out s @ concat (map (\<lambda>m. printed (cmd_raw cmd) (delivery_of m)) (matching t sub))
          \<and> sent w s (concat (map (\<lambda>m. serialize_ack (cmd_subscriber cmd) (msg_offset m + 1)) (matching t sub))) s'))"
proof -
  let ?new = "map (delivery_event (sub_fifo_fd sub)) (matching t sub)"
  have "length (topic_messages t) < 2 ^ 32" using assms(3) by simp
  from deliver_pending_correct [OF topic_matches [OF assms(1,2)] this, of server_os io]
  have run: "\<exists>sub'. deliver_pending H server_os (topic_messages t) (topic_tree t) sub io = Some (sub', io @ ?new)"
    by (simp add: deliver_subscriber_def deliver_messages_events [OF assms(4,5)] matching_def)
  have "set (matching t sub) \<subseteq> set (topic_messages t)"
    by (auto simp: matching_def dest: in_set_dropD)
  then have "\<forall>d \<in> set (map delivery_of (matching t sub)). deliverable d"
    using messages_deliverable [OF assms(1,3,6)] by auto
  note prints = subscriber_shutdown [OF assms(7-11) this, of "[]" later cmd]
  show ?thesis
    using run prints by (auto simp: written_deliveries comp_def intro!: exI [of _ ?new])
qed

theorem subscriber_prints_matching_witness:
  "\<exists>sub. find_sub sample_hashes sample_topic ''c'' = Some sub
     \<and> (\<exists>s'. subscriber_loop sample_os make_empty_command sample_reader sample_writer
         (sample_client [Data (serialize_delivery 0 ''a1'' ''x''), Data serialize_shutdown] '''') = Some (0, s')
       \<and> cl_out s' = ''a1:x'' @ [newline])"
proof -
  obtain sub where sub: "find_sub sample_hashes sample_topic ''c'' = Some sub" and fd: "sub_fifo_fd sub \<noteq> - 1" "sub_fifo_fd sub = 4"
    and matching: "matching sample_topic sub = [\<lparr>msg_offset = 0, msg_key = ''a1'', msg_value = ''x''\<rparr>]"
    using sample_topic(3,4) by (auto simp: matching_def)
  let ?s = "sample_client [Data (serialize_delivery 0 ''a1'' ''x''), Data serialize_shutdown] ''''"
  have small: "length (topic_messages sample_topic) < 2 ^ 32 - 1"
    "\<forall>m \<in> set (topic_messages sample_topic). raw_ok (msg_key m, msg_value m)"
    by (simp_all add: sample_topic(3) raw_ok_def MAX_PAYLOAD_SIZE_def)
  from subscriber_prints_matching [OF sample_topic(1) sub small(1) sample_writes fd(1) small(2)
      sample_client(2,3,4,7,8), of "[]" "[Data (serialize_delivery 0 ''a1'' ''x''), Data serialize_shutdown]" "''''" "[]" make_empty_command]
  obtain new where "written 4 new = serialize_delivery 0 ''a1'' ''x''" and prints: "arriving ?s (written 4 new @ serialize_shutdown) [] \<Longrightarrow>
      \<exists>s'. subscriber_loop sample_os make_empty_command sample_reader sample_writer ?s = Some (0, s')
        \<and> cl_out s' = ''a1:x'' @ [newline]"
    by (auto simp: fd(2) matching printed_def make_empty_command_def format_text_message_def sample_client)
  moreover have "serialize_shutdown \<noteq> []" by (simp add: serialize_shutdown_def serialize_delivery_not_empty)
  ultimately have "arriving ?s (written 4 new @ serialize_shutdown) []"
    by (auto simp: arriving_def sample_client serialize_delivery_not_empty
        intro!: exI [of _ "[Data (serialize_delivery 0 ''a1'' ''x''), Data serialize_shutdown]"])
  with prints sub show ?thesis by blast
qed

text \<open>
  C20: Subscribing: the invocation \<^verbatim>\<open>subscribe\<close> with any prefix, start offset and format sends exactly this
  subscription; accepted, it prints every delivery that arrives, once and in order, however the
  stream is cut or interrupted, sends an acknowledgement of each with the offset after it, and exits
  with 0 when the server's sentinel arrives.
\<close>

theorem subscriber_end_to_end:
  assumes "os_ready os" and "ipc \<noteq> ''''" and "is_valid_name topic" and "is_valid_name c"
    and "\<forall>d \<in> set ds. deliverable d" and "cl_out_good s" and "\<not> cl_shutdown s"
    and "arriving s (serialize_response SUCCESS '''' @ deliveries_of ds @ serialize_shutdown) later"
  shows "\<exists>s' new. client_main os pid ([prog, ipc, ''subscribe'', topic, c] @ render_options p offset raw) s = Some (0, s')
    \<and> cl_io s' = cl_io s @ new
    \<and> (\<forall>F. sent_to ipc F new = serialize_subscribe pid c topic p (case offset of None \<Rightarrow> OFFSET_UNSET | Some n \<Rightarrow> n) @ acks_of c ds)
    \<and> cl_out s' = cl_out s @ concat (map (printed raw) ds)"
  by (rule subscriber_program [OF assms])

theorem subscriber_end_to_end_witness:
  "\<exists>s'. client_main sample_os 9 [''client'', ''/s'', ''subscribe'', ''t'', ''c'', ''--prefix'', ''k'']
      (sample_client [Data (serialize_response SUCCESS '''' @ [7]), Interrupted,
         Data (drop 1 (serialize_delivery 7 ''k'' ''v'') @ serialize_shutdown)] '''') = Some (0, s')
     \<and> cl_out s' = ''k:v'' @ [newline]
     \<and> sent_to ''/s'' {} (cl_io s') = serialize_subscribe 9 ''c'' ''t'' ''k'' OFFSET_UNSET @ serialize_ack ''c'' 8"
proof -
  let ?d = "(7, ''k'', ''v'') :: u32 \<times> string \<times> string"
  let ?ins = "[Data (serialize_response SUCCESS '''' @ [7]), Interrupted,
      Data (drop 1 (serialize_delivery 7 ''k'' ''v'') @ serialize_shutdown)]"
  have d: "\<forall>d \<in> set [?d]. deliverable d"
    by (simp add: deliverable_def raw_ok_def MAX_PAYLOAD_SIZE_def SHUTDOWN_OFFSET_def)
  have "serialize_delivery 7 ''k'' ''v'' = 7 # drop 1 (serialize_delivery 7 ''k'' ''v'')"
    by (simp add: serialize_delivery_eq u32le_def)
  then have arr: "arriving (sample_client ?ins '''') (serialize_response SUCCESS '''' @ deliveries_of [?d] @ serialize_shutdown) []"
    by (auto simp: arriving_def sample_client serialize_shutdown_def serialize_delivery_not_empty intro!: exI [of _ ?ins])
  have ipc: "''/s'' \<noteq> ''''" by simp
  from subscriber_end_to_end [OF client_system(1) ipc valid_names(1,2) d sample_client(7,8) arr, of 9 "''client''" "''k''" None False]
  show ?thesis
    by (auto simp: render_options_def printed_def format_text_message_def) (auto simp: sample_client_def)
qed

text \<open>
  C23: Creating a topic: the client's request is answered by a server that then has the topic (and keeps
  it if it had it already), and the client's exit code and output tell which of the two happened.
\<close>

theorem create_end_to_end:
  assumes "os_ready os" and "server_reaches server_os" and "server_inv H srv" and "ipc \<noteq> ''''" and "is_valid_name topic"
  defines "fresh \<equiv> get_topic H srv topic = None"
  shows "\<exists>srv' reply. server_answers H server_os srv pid (serialize_create pid topic) srv' reply
    \<and> client_asks os pid [prog, ipc, ''create'', topic] ipc (serialize_create pid topic) reply
        (if fresh then 0 else 2) (if fresh then ''topic created'' @ [newline] else '''')
        (if fresh then '''' else ''server returned an error'' @ [newline])
    \<and> server_inv H srv'
    \<and> get_topic H srv' = (if fresh then (get_topic H srv)(topic \<mapsto> Topic_new topic) else get_topic H srv)"
proof -
  let ?st = "if fresh then SUCCESS else TOPIC_CLIENT_ERR"
  from create_answered [OF assms(2,3,5), of pid, folded fresh_def] obtain srv'
    where "server_answers H server_os srv pid (serialize_create pid topic) srv' (serialize_response ?st '''')"
      "server_inv H srv'" "get_topic H srv' = (if fresh then (get_topic H srv)(topic \<mapsto> Topic_new topic) else get_topic H srv)"
    by blast
  moreover have "sendable ?st" by simp
  from create_asks [OF assms(1) this assms(4,5), of pid prog]
  have "client_asks os pid [prog, ipc, ''create'', topic] ipc (serialize_create pid topic) (serialize_response ?st '''')
      (if fresh then 0 else 2) (if fresh then ''topic created'' @ [newline] else '''')
      (if fresh then '''' else ''server returned an error'' @ [newline])"
    by (cases fresh) (simp_all add: error_text_def)
  ultimately show ?thesis by blast
qed

theorem create_end_to_end_witness:
  "\<exists>srv' reply. server_answers sample_hashes sample_os sample_server 9 (serialize_create 9 ''t'') srv' reply
     \<and> client_asks sample_os 9 [''client'', ''/s'', ''create'', ''t''] ''/s'' (serialize_create 9 ''t'') reply 2 ''''
         (''server returned an error'' @ [newline])
     \<and> get_topic sample_hashes srv' = [''t'' \<mapsto> Topic_new ''t'']"
  using create_end_to_end [OF client_system sample_server(1) _ valid_names(1), of "''/s''" 9 "''client''"]
  by (simp add: sample_server(5)) metis

text \<open>
  C22: Listing the topics prints the names of exactly the topics that the server has, each once, with
  commas between them, and changes nothing.
\<close>

theorem list_end_to_end:
  assumes "os_ready os" and "server_reaches server_os" and "server_inv H srv" and "ipc \<noteq> ''''"
    and "length (comma_separated (map fst (HashMap_entries (topics srv)))) < 2 ^ 32"
  shows "\<exists>names reply. distinct names \<and> set names = dom (get_topic H srv)
    \<and> server_answers H server_os srv pid (serialize_list pid) srv reply
    \<and> client_asks os pid [prog, ipc, ''list''] ipc (serialize_list pid) reply 0 (comma_separated names @ [newline]) ''''"
proof -
  let ?names = "map fst (HashMap_entries (topics srv))"
  from list_asks [OF assms(1) sendable_simps(1) assms(4,5), of pid prog]
  have "client_asks os pid [prog, ipc, ''list''] ipc (serialize_list pid) (serialize_response SUCCESS (comma_separated ?names))
      0 (comma_separated ?names @ [newline]) ''''" by simp
  with topic_names [OF assms(3)] list_answered [OF assms(2), of H srv pid] show ?thesis
    unfolding join_names_spec by blast
qed

theorem list_end_to_end_witness:
  "\<exists>reply. server_answers sample_hashes sample_os sample_server 9 (serialize_list 9) sample_server reply
     \<and> client_asks sample_os 9 [''client'', ''/s'', ''list''] ''/s'' (serialize_list 9) reply 0 (''t'' @ [newline]) ''''"
proof -
  have single: "names = [''t'']" if "distinct names" "set names = dom (get_topic sample_hashes sample_server)" for names
    using that by (cases names rule: comma_separated.cases) (auto simp: sample_server(5))
  then have "map fst (HashMap_entries (topics sample_server)) = [''t'']" using topic_names [OF sample_server(1)] by blast
  then have "length (comma_separated (map fst (HashMap_entries (topics sample_server)))) < 2 ^ 32" by simp
  from list_end_to_end [OF client_system sample_server(1) _ this, of "''/s''" 9 "''client''"] single show ?thesis
    by fastforce
qed

text \<open>
  C24: The information about a subscriber: the client prints the record that the server has of it, or
  exits with 2 if the server does not know the name; the server changes nothing.
\<close>

theorem info_end_to_end:
  assumes "os_ready os" and "server_reaches server_os" and "ipc \<noteq> ''''" and "is_valid_name c"
    and "\<And>m. client_of H srv c = Some m \<Longrightarrow> length (client_json m) < 2 ^ 32"
  shows "\<exists>reply. server_answers H server_os srv pid (serialize_info pid c) srv reply
    \<and> client_asks os pid [prog, ipc, ''info'', c] ipc (serialize_info pid c) reply
        (case client_of H srv c of None \<Rightarrow> 2 | Some m \<Rightarrow> 0)
        (case client_of H srv c of None \<Rightarrow> '''' | Some m \<Rightarrow> client_json m @ [newline])
        (case client_of H srv c of None \<Rightarrow> ''server returned an error'' @ [newline] | Some m \<Rightarrow> '''')"
proof (cases "client_of H srv c")
  case None
  have "length '''' < (2 :: nat) ^ 32" by simp
  from info_asks [OF assms(1) sendable_simps(2) assms(3,4) this, of pid prog] info_answered [OF assms(2,4), of H srv pid] None
  show ?thesis by (auto simp: error_text_def)
next
  case (Some m)
  from info_asks [OF assms(1) sendable_simps(1) assms(3,4) assms(5) [OF Some], of pid prog]
    info_answered [OF assms(2,4), of H srv pid] Some
  show ?thesis by auto
qed

theorem info_end_to_end_witness:
  "\<exists>reply. server_answers sample_hashes sample_os sample_server 9 (serialize_info 9 ''c'') sample_server reply
     \<and> client_asks sample_os 9 [''client'', ''/s'', ''info'', ''c''] ''/s'' (serialize_info 9 ''c'') reply 2 ''''
         (''server returned an error'' @ [newline])"
  using info_end_to_end [OF client_system _ valid_names(2), of "''/s''" sample_hashes sample_server 9 "''client''"]
  by (simp add: sample_server(6))

text \<open>
  C18: A subscription with valid names, to an existing topic, by a client that is not connected
  already, is answered \<^verbatim>\<open>SUCCESS\<close>; the client is recorded as active with the offset it asked for, its
  committed offset or 0, and the topic registers it under its prefix or, if its FIFO cannot be
  opened, not at all.
\<close>

theorem subscribe_accepted:
  assumes "server_inv H srv" and "parse_subscribe payload len = Some (Parsed (pid, c, name, p, req))"
    and "is_valid_identifier c" and "is_valid_identifier name" and "get_topic H srv name = Some t"
    and "\<not> is_duplicate os (client_of H srv c) io"
  shows "\<exists>srv' io1 io2 b t'. handle_subscriber_connect H os (srv, io) payload len = Some (srv', io2)
    \<and> Topic_add_subscriber H os t c p (client_fifo_path pid) (subscribe_offset (client_of H srv c) req)
        (send_response os pid SUCCESS '''' io1) = Some (b, t', io2)
    \<and> server_inv H srv' \<and> get_topic H srv' = (get_topic H srv)(name \<mapsto> t')
    \<and> topic_messages t' = topic_messages t
    \<and> registrations H t' = (registrations H t)(c := if b then Some p else None)
    \<and> client_of H srv' = (client_of H srv)(c \<mapsto> \<lparr>meta_client_id = c, meta_topic = name,
        meta_offset = subscribe_offset (client_of H srv c) req, meta_prefix = p,
        meta_ipc_path = client_fifo_path pid, meta_is_active = True\<rparr>)"
proof -
  have "topic_inv H t" using consistentD(1) [OF server_invD(2) [OF assms(1)] assms(5)] .
  note added = Topic_add_subscriber_effect [OF this]
  from handle_subscribe_accepted [OF assms] show ?thesis using added by metis
qed

theorem subscribe_accepted_witness:
  "\<exists>srv' io'. handle_subscriber_connect sample_hashes sample_os (sample_server, [])
       (drop 5 (serialize_subscribe 9 ''c'' ''t'' ''p'' OFFSET_UNSET)) 23 = Some (srv', io')
     \<and> map_option meta_offset (client_of sample_hashes srv' ''c'') = Some 0"
proof -
  have parsed: "parse_subscribe (drop 5 (serialize_subscribe 9 ''c'' ''t'' ''p'' OFFSET_UNSET)) 23
      = Some (Parsed (9, ''c'', ''t'', ''p'', OFFSET_UNSET))"
    by (simp add: serialize_subscribe_eq drop_frame_head parse_subscribe_def get_uint32_def get_string_def
        assign_string_def read_u32le [of _ "[]", simplified])
  from subscribe_accepted [OF sample_server(1) parsed valid_t(2,1), of "Topic_new ''t''" sample_os "[]"]
  show ?thesis by (auto simp: sample_server is_duplicate_def subscribe_offset_def)
qed

text \<open>
  C19: A disconnection marks a known client as inactive, with its offset kept, and takes it out of its
  topic; an unknown client changes nothing. No log changes.
\<close>

theorem disconnect_effect:
  assumes "server_inv H srv" and "parse_disconnect payload len = Some (Parsed c)"
  shows "\<exists>srv' io'. handle_disconnect H (srv, io) payload len = Some (srv', io') \<and> server_inv H srv'
    \<and> logs H srv' = logs H srv
    \<and> client_of H srv' = (case client_of H srv c of None \<Rightarrow> client_of H srv
        | Some m \<Rightarrow> (client_of H srv)(c \<mapsto> m\<lparr>meta_is_active := False\<rparr>))
    \<and> (case client_of H srv c of None \<Rightarrow> True
        | Some m \<Rightarrow> (case get_topic H srv' (meta_topic m) of None \<Rightarrow> False | Some t \<Rightarrow> find_sub H t c = None))"
proof -
  from handle_disconnect_correct [OF assms, of io] obtain srv' io'
    where res: "handle_disconnect H (srv, io) payload len = Some (srv', io')" "server_inv H srv'"
      "logs H srv' = logs H srv"
      and clients: "client_of H srv' = (case client_of H srv c of None \<Rightarrow> client_of H srv
        | Some m \<Rightarrow> (client_of H srv)(c \<mapsto> m\<lparr>meta_is_active := False\<rparr>))"
      and gone: "\<And>m t. client_of H srv c = Some m \<Longrightarrow> get_topic H srv' (meta_topic m) = Some t \<Longrightarrow> find_sub H t c = None"
    by blast
  have "get_topic H srv' (meta_topic m) \<noteq> None" if "client_of H srv c = Some m" for m
    using consistentD(5) [OF server_invD(2) [OF res(2)], of c "m\<lparr>meta_is_active := False\<rparr>"] clients that by simp
  with res clients gone show ?thesis by (auto split: option.split)
qed

theorem disconnect_effect_witness:
  "\<exists>srv' io'. handle_disconnect sample_hashes (sample_server, []) (drop 5 (serialize_disconnect ''c'')) 5 = Some (srv', io')
     \<and> client_of sample_hashes srv' = Map.empty"
proof -
  have "parse_disconnect (drop 5 (serialize_disconnect ''c'')) 5 = Some (Parsed ''c'')"
    by (simp add: serialize_disconnect_eq drop_frame_head parse_disconnect_def get_uint32_def get_string_def
        assign_string_def)
  from disconnect_effect [OF sample_server(1) this, of "[]"] show ?thesis by (auto simp: sample_server)
qed

text \<open>
  The main thread from \<^verbatim>\<open>main\<close> to its exit, on its own: with handlers as single steps, no turn of a worker in
  between, and the signal arriving while the thread waits in \<^verbatim>\<open>read\<close>. For the threads together see
  \<open>stopped_server_exits\<close> in \<open>Main_Loop\<close>.
\<close>

theorem server_lifecycle:
  assumes "\<And>io. os_mkfifo os io (''/tmp/treenity.server.'' @ to_string pid) \<noteq> - 1"
    and "\<And>io. os_open_rdwr os io (''/tmp/treenity.server.'' @ to_string pid) \<noteq> - 1"
    and "\<forall>r \<in> set rs. request_fits r" and "concat chunks = concat (map request_bytes rs)"
  shows "\<exists>srv io'. server_main H os pid (map Read chunks @ [Signal]) io = Some (0, (srv, io'))
    \<and> logs H srv = fold log_step rs Map.empty
    \<and> (\<forall>name t. get_topic H srv name = Some t \<longrightarrow> topic_worker t = Worker_joined \<and> find_sub H t = Map.empty)"
  by (rule server_main_lifecycle [OF assms])

theorem server_lifecycle_witness:
  "\<exists>srv io'. server_main sample_hashes sample_os 7
       [Read (serialize_create 1 ''t''), Read (serialize_produce ''t'' ''k'' ''v''), Signal] [] = Some (0, (srv, io'))
     \<and> logs sample_hashes srv ''t'' = Some [(''k'', ''v'')]"
proof -
  have "request_fits (Req_create 1 ''t'')" by (simp add: request_fits_def named_ok_def serialize_create_def wire_simps)
  then show ?thesis
    using server_lifecycle [of sample_os 7 "[Req_create 1 ''t'', Req_publish ''t'' ''k'' ''v'']"
        "[serialize_create 1 ''t'', serialize_produce ''t'' ''k'' ''v'']" sample_hashes "[]"] sample_publish
    by (auto simp: sample_os_def)
qed

text \<open>
  A stop shuts every topic down and closes the server's FIFO last.
\<close>

theorem stop_shuts_topics:
  assumes "server_inv H srv" and "alive H srv" and "running srv" and "fifo_fd srv = Some fd"
  shows "\<exists>srv' io'. Server_stop os (srv, io) = Some (srv', io' @ [Close fd]) \<and> server_inv H srv'
    \<and> \<not> running srv' \<and> logs H srv' = logs H srv
    \<and> (\<forall>name. rel_option (topic_shut H) (get_topic H srv name) (get_topic H srv' name))"
  by (rule Server_stop_correct [OF assms])

theorem stop_shuts_topics_witness:
  "\<exists>srv' io' t'. Server_stop sample_os (sample_server, []) = Some (srv', io') \<and> \<not> running srv'
     \<and> get_topic sample_hashes srv' ''t'' = Some t' \<and> topic_worker t' = Worker_joined"
proof -
  from stop_shuts_topics [OF sample_server(1-4), of sample_os "[]"] obtain srv' io'
    where "Server_stop sample_os (sample_server, []) = Some (srv', io')" "\<not> running srv'"
      and "rel_option (topic_shut sample_hashes) (get_topic sample_hashes sample_server ''t'')
        (get_topic sample_hashes srv' ''t'')" by blast
  then show ?thesis by (auto simp: sample_server(5) option_rel_Some1 topic_shut_def)
qed

text \<open>
  C39: A header that announces one of the five largest lengths is not waited for: the 32-bit sum of
  the loop's test wraps, and the handling or the erasure leaves the buffer.
\<close>

theorem oversized_header_undefined:
  assumes "2 ^ 32 - 5 \<le> unat n" and "length rest < unat n"
  shows "frame_loop (handle_request H os) s (act # u32le n @ rest) = None"
  by (rule oversized_header [OF assms])

theorem oversized_header_undefined_witness:
  "frame_loop (handle_request sample_hashes sample_os) (sample_server, []) (9 # u32le 0xFFFFFFFF @ []) = None"
  by (rule oversized_header_undefined) simp_all

text \<open>
  C40: If the server's FIFO cannot be created, destroying the server closes a descriptor that was never
  assigned.
\<close>

theorem failed_start_undefined:
  assumes "\<And>io. os_mkfifo os io path = - 1"
  shows "Server_stop os (Server_new os path io) = None"
  by (rule failed_start [OF assms])

theorem failed_start_undefined_witness:
  "Server_stop (sample_os\<lparr>os_mkfifo := \<lambda>_ _. - 1\<rparr>) (Server_new (sample_os\<lparr>os_mkfifo := \<lambda>_ _. - 1\<rparr>) ''/s'' []) = None"
  by (rule failed_start_undefined) simp

end
